(* ===== verification/Prelude.thy ===== *)
theory Prelude
  imports Main "HOL-Library.Word"
begin

text \<open>
  Shared vocabulary of the membridge development: the machine integer types of the Rust code,
  sequencing of fallible steps, reading and overwriting a window of a byte array, and decimal
  printing as used by the \<open>format!\<close> calls of the sources.
\<close>

unbundle bit_operations_syntax

named_theorems window_simps \<open>rules on windows of lists\<close>
named_theorems res_simps \<open>rules that evaluate sequenced fallible steps\<close>
named_theorems word_bounds \<open>rules that move bounded word arithmetic to the naturals\<close>

section \<open>Machine integers\<close>

type_synonym u8 = "8 word"
type_synonym u32 = "32 word"
type_synonym u64 = "64 word"
type_synonym i32 = "32 word"
type_synonym i64 = "64 word"
type_synonym f32 = "32 word"
type_synonym f64 = "64 word"
type_synonym usize = "64 word"

text \<open>
  Signed integers are words read with \<open>sint\<close>, floats are their IEEE bit patterns. A slice or a
  vector never holds more than \<open>isize::MAX\<close> bytes.
\<close>

definition isize_max :: nat where
  "isize_max = 2 ^ 63 - 1"

lemma isize_max_less: "isize_max < 2 ^ 64"
  by (simp add: isize_max_def)

lemma unat_of_nat_usize [word_bounds]:
  "n < 2 ^ 64 \<Longrightarrow> unat (of_nat n :: usize) = n"
  by (simp add: unat_of_nat take_bit_nat_eq_self)

lemma unat_of_nat_isize [word_bounds]:
  "n \<le> isize_max \<Longrightarrow> unat (of_nat n :: usize) = n"
  using isize_max_less by (intro unat_of_nat_usize) simp

lemma unat_of_nat_u32 [word_bounds]:
  "n < 2 ^ 32 \<Longrightarrow> unat (of_nat n :: u32) = n"
  by (simp add: unat_of_nat take_bit_nat_eq_self)

lemma unat_add_usize [word_bounds]:
  "unat a + unat b < 2 ^ 64 \<Longrightarrow> unat (a + b :: usize) = unat a + unat b"
  by (simp add: unat_word_ariths)

lemma unat_less_usize: "unat (a :: usize) < 2 ^ 64"
  using unsigned_less [of a] by simp

section \<open>Sequencing fallible steps\<close>

text \<open>Rust's \<open>?\<close>: an error ends the computation, a value goes to the rest.\<close>

definition bind :: "'e + 'a \<Rightarrow> ('a \<Rightarrow> 'e + 'b) \<Rightarrow> 'e + 'b" where
  "bind r f = (case r of Inl e \<Rightarrow> Inl e | Inr x \<Rightarrow> f x)"

lemma bind_Inl [simp, res_simps]: "bind (Inl e) f = Inl e"
  by (simp add: bind_def)

lemma bind_Inr [simp, res_simps]: "bind (Inr x) f = f x"
  by (simp add: bind_def)

lemma bind_eq_Inr: "bind r f = Inr y \<longleftrightarrow> (\<exists>x. r = Inr x \<and> f x = Inr y)"
  by (cases r) auto

lemma bind_eq_Inl: "bind r f = Inl e \<longleftrightarrow> r = Inl e \<or> (\<exists>x. r = Inr x \<and> f x = Inl e)"
  by (cases r) auto

lemma bind_assoc: "bind (bind r f) g = bind r (\<lambda>x. bind (f x) g)"
  by (cases r) auto

lemma bind_cong [fundef_cong]:
  "r = r' \<Longrightarrow> (\<And>x. r' = Inr x \<Longrightarrow> f x = g x) \<Longrightarrow> bind r f = bind r' g"
  by (cases r') auto

definition map_err :: "('e \<Rightarrow> 'f) \<Rightarrow> 'e + 'a \<Rightarrow> 'f + 'a" where
  "map_err g r = (case r of Inl e \<Rightarrow> Inl (g e) | Inr x \<Rightarrow> Inr x)"

lemma map_err_simps [simp, res_simps]: "map_err g (Inl e) = Inl (g e)" "map_err g (Inr x) = Inr x"
  by (simp_all add: map_err_def)

section \<open>Steps that read and change a state\<close>

text \<open>
  An operation on a shared state returns its outcome and the state it leaves, also when it fails:
  what was written before a fault stays written.
\<close>

definition sreturn :: "'a \<Rightarrow> 's \<Rightarrow> ('e + 'a) \<times> 's" where
  "sreturn x s = (Inr x, s)"

definition sbind :: "('s \<Rightarrow> ('e + 'a) \<times> 's) \<Rightarrow> ('a \<Rightarrow> 's \<Rightarrow> ('e + 'b) \<times> 's) \<Rightarrow> 's \<Rightarrow> ('e + 'b) \<times> 's" where
  "sbind f g s = (case f s of (Inl e, s') \<Rightarrow> (Inl e, s') | (Inr x, s') \<Rightarrow> g x s')"

definition sdo :: "'e + 'a \<Rightarrow> 's \<Rightarrow> ('e + 'a) \<times> 's" where
  "sdo r s = (r, s)"

definition sget :: "('s \<Rightarrow> 'e + 'a) \<Rightarrow> 's \<Rightarrow> ('e + 'a) \<times> 's" where
  "sget f s = (f s, s)"

definition supd :: "('s \<Rightarrow> 'e + 's) \<Rightarrow> 's \<Rightarrow> ('e + unit) \<times> 's" where
  "supd f s = (case f s of Inl e \<Rightarrow> (Inl e, s) | Inr s' \<Rightarrow> (Inr (), s'))"

lemma sbind_Inr [res_simps]: "f s = (Inr x, s') \<Longrightarrow> sbind f g s = g x s'"
  by (simp add: sbind_def)

lemma sbind_Inl [res_simps]: "f s = (Inl e, s') \<Longrightarrow> sbind f g s = (Inl e, s')"
  by (simp add: sbind_def)

lemma sbind_eq_Inr:
  "sbind f g s = (Inr y, t) \<longleftrightarrow> (\<exists>x s'. f s = (Inr x, s') \<and> g x s' = (Inr y, t))"
  by (auto simp: sbind_def split: prod.splits sum.splits)

lemma sbind_assoc: "sbind (sbind f g) k = sbind f (\<lambda>x. sbind (g x) k)"
  by (rule ext) (auto simp: sbind_def split: prod.splits sum.splits)

lemma sbind_cong_state:
  "(\<And>x t. f s = (Inr x, t) \<Longrightarrow> g x t = g' x t) \<Longrightarrow> sbind f g s = sbind f g' s"
  by (auto simp: sbind_def split: prod.splits sum.splits)

lemma sbind_sreturn [simp, res_simps]: "sbind (sreturn x) g s = g x s"
  by (simp add: sbind_def sreturn_def)

lemma sbind_sreturn_eq [simp]: "sbind (sreturn x) g = g x"
  by (rule ext) simp

lemma sbind_sdo_Inr [simp, res_simps]: "sbind (sdo (Inr x)) g s = g x s"
  by (simp add: sbind_def sdo_def)

lemma sbind_sdo_Inl [simp, res_simps]: "sbind (sdo (Inl e)) g s = (Inl e, s)"
  by (simp add: sbind_def sdo_def)

lemma sbind_sdo_Inr_eq [simp]: "sbind (sdo (Inr x)) g = g x"
  by (rule ext) simp

lemma sbind_sdo_Inl_eq: "sbind (sdo (Inl e)) g = sdo (Inl e)"
  by (rule ext) (simp add: sdo_def)

lemma sbind_sget_Inr [res_simps]: "f s = Inr x \<Longrightarrow> sbind (sget f) g s = g x s"
  by (simp add: sbind_def sget_def)

lemma sbind_sget_Inl [res_simps]: "f s = Inl e \<Longrightarrow> sbind (sget f) g s = (Inl e, s)"
  by (simp add: sbind_def sget_def)

lemma sbind_supd_Inr [res_simps]: "f s = Inr s' \<Longrightarrow> sbind (supd f) g s = g () s'"
  by (simp add: sbind_def supd_def)

lemma sbind_supd_Inl [res_simps]: "f s = Inl e \<Longrightarrow> sbind (supd f) g s = (Inl e, s)"
  by (simp add: sbind_def supd_def)

section \<open>Windows of a list\<close>

definition window :: "nat \<Rightarrow> nat \<Rightarrow> 'a list \<Rightarrow> 'a list" where
  "window off n xs = take n (drop off xs)"

definition overwrite :: "nat \<Rightarrow> 'a list \<Rightarrow> 'a list \<Rightarrow> 'a list" where
  "overwrite off bs xs = take off xs @ bs @ drop (off + length bs) xs"

lemma length_window [simp, window_simps]:
  "length (window off n xs) = min n (length xs - off)"
  by (simp add: window_def)

lemma length_overwrite [simp, window_simps]:
  "off + length bs \<le> length xs \<Longrightarrow> length (overwrite off bs xs) = length xs"
  by (simp add: overwrite_def)

lemma window_overwrite_same [simp, window_simps]:
  "off + length bs \<le> length xs \<Longrightarrow> n = length bs \<Longrightarrow> window off n (overwrite off bs xs) = bs"
  by (simp add: window_def overwrite_def)

lemma window_overwrite_before [simp, window_simps]:
  "o2 + n \<le> off \<Longrightarrow> off \<le> length xs \<Longrightarrow> window o2 n (overwrite off bs xs) = window o2 n xs"
  by (rule nth_equalityI) (auto simp: window_def overwrite_def nth_append)

lemma drop_overwrite_after:
  assumes "off + length bs \<le> o2" "off + length bs \<le> length xs"
  shows "drop o2 (overwrite off bs xs) = drop o2 xs"
proof -
  have "drop o2 (overwrite off bs xs)
      = drop (o2 - (off + length bs)) (drop (off + length bs) (overwrite off bs xs))"
    using assms(1) by simp
  also have "drop (off + length bs) (overwrite off bs xs) = drop (off + length bs) xs"
    using assms(2) by (simp add: overwrite_def)
  finally show ?thesis using assms(1) by simp
qed

lemma window_overwrite_after [simp, window_simps]:
  "off + length bs \<le> o2 \<Longrightarrow> off + length bs \<le> length xs \<Longrightarrow>
   window o2 n (overwrite off bs xs) = window o2 n xs"
  by (simp add: window_def drop_overwrite_after)

lemma overwrite_overwrite_same [simp, window_simps]:
  "length bs = length cs \<Longrightarrow> off + length bs \<le> length xs \<Longrightarrow>
   overwrite off bs (overwrite off cs xs) = overwrite off bs xs"
  by (simp add: overwrite_def)

lemma overwrite_window [simp, window_simps]:
  "off + n \<le> length xs \<Longrightarrow> overwrite off (window off n xs) xs = xs"
  by (simp add: overwrite_def window_def min_absorb2 add.commute [of off n] drop_drop [symmetric]
      del: drop_drop)

lemma nth_window [window_simps]:
  "i < n \<Longrightarrow> off + i < length xs \<Longrightarrow> window off n xs ! i = xs ! (off + i)"
  by (simp add: window_def)

lemma nth_overwrite:
  "off + length bs \<le> length xs \<Longrightarrow> i < length xs \<Longrightarrow>
   overwrite off bs xs ! i = (if off \<le> i \<and> i < off + length bs then bs ! (i - off) else xs ! i)"
  by (auto simp: overwrite_def nth_append)

lemma overwrite_swap:
  assumes "o1 + length as \<le> o2" "o2 + length bs \<le> length xs"
  shows "overwrite o1 as (overwrite o2 bs xs) = overwrite o2 bs (overwrite o1 as xs)"
  using assms by (intro nth_equalityI) (auto simp: nth_overwrite)

lemma window_drop: "window p n (drop k xs) = window (k + p) n xs"
  by (simp add: window_def add.commute)

lemma drop_overwrite:
  "k + p + length bs \<le> length xs \<Longrightarrow> drop k (overwrite (k + p) bs xs) = overwrite p bs (drop k xs)"
  by (intro nth_equalityI) (auto simp: nth_overwrite)

lemma window_append_left: "n \<le> length xs \<Longrightarrow> window 0 n (xs @ ys) = take n xs"
  by (simp add: window_def)

lemma window_all [simp]: "window 0 (length xs) xs = xs"
  by (simp add: window_def)

lemma window_zero [simp]: "window off 0 xs = []"
  by (simp add: window_def)

section \<open>Decimal printing\<close>

text \<open>What \<open>{}\<close> prints for an unsigned integer.\<close>

fun show_nat :: "nat \<Rightarrow> string" where
  "show_nat n =
     (if n < 10 then [char_of (48 + n)] else show_nat (n div 10) @ [char_of (48 + n mod 10)])"

declare show_nat.simps [simp del]

definition show_usize :: "usize \<Rightarrow> string" where
  "show_usize w = show_nat (unat w)"

definition show_int :: "int \<Rightarrow> string" where
  "show_int i = (if i < 0 then CHR 0x2D # show_nat (nat (- i)) else show_nat (nat i))"

definition show_bool :: "bool \<Rightarrow> string" where
  "show_bool b = (if b then ''true'' else ''false'')"

lemma show_nat_nonempty: "show_nat n \<noteq> []"
  by (subst show_nat.simps) simp

end
