(* ===== verification/Bytes.thy ===== *)
theory Bytes
  imports Prelude
begin

text \<open>
  Native-endian encoding of machine integers, the \<open>to_ne_bytes\<close> and \<open>from_ne_bytes\<close> of the
  Rust standard library, for either byte order of the target.
\<close>

datatype endian = LittleEndian | BigEndian

fun le_bytes :: "nat \<Rightarrow> 'a::len word \<Rightarrow> u8 list" where
  "le_bytes 0 w = []"
| "le_bytes (Suc k) w = ucast w # le_bytes k (drop_bit 8 w)"

fun le_word :: "u8 list \<Rightarrow> 'a::len word" where
  "le_word [] = 0"
| "le_word (b # bs) = ucast b OR push_bit 8 (le_word bs)"

definition to_ne_bytes :: "endian \<Rightarrow> 'a::len word \<Rightarrow> u8 list" where
  "to_ne_bytes e w =
     (case e of LittleEndian \<Rightarrow> le_bytes (LENGTH('a) div 8) w
      | BigEndian \<Rightarrow> rev (le_bytes (LENGTH('a) div 8) w))"

definition from_ne_bytes :: "endian \<Rightarrow> u8 list \<Rightarrow> 'a::len word" where
  "from_ne_bytes e bs = (case e of LittleEndian \<Rightarrow> le_word bs | BigEndian \<Rightarrow> le_word (rev bs))"

lemma length_le_bytes [simp]: "length (le_bytes k w) = k"
  by (induction k w rule: le_bytes.induct) auto

lemma length_to_ne_bytes [simp]:
  "length (to_ne_bytes e (w :: 'a::len word)) = LENGTH('a) div 8"
  by (simp add: to_ne_bytes_def split: endian.splits)

lemma nth_le_bytes: "i < k \<Longrightarrow> le_bytes k w ! i = ucast (drop_bit (8 * i) w)"
proof (induction k w arbitrary: i rule: le_bytes.induct)
  case (2 k w)
  then show ?case
    by (cases i) (simp_all add: drop_bit_drop_bit algebra_simps)
qed simp

lemma bit_le_word:
  "bit (le_word bs :: 'a::len word) n \<longleftrightarrow>
     n < LENGTH('a) \<and> n < 8 * length bs \<and> bit (bs ! (n div 8)) (n mod 8)"
proof (induction bs arbitrary: n)
  case Nil
  then show ?case by simp
next
  case (Cons b bs)
  show ?case
  proof (cases "n < 8")
    case True
    then show ?thesis
      by (auto simp: bit_or_iff bit_ucast_iff bit_push_bit_iff dest: bit_imp_le_length)
  next
    case False
    then have "n div 8 = Suc ((n - 8) div 8)" "n mod 8 = (n - 8) mod 8"
      by (simp_all add: le_div_geq le_mod_geq)
    moreover have "\<not> bit b n"
      using False by (auto dest: bit_imp_le_length)
    ultimately show ?thesis
      using False Cons.IH [of "n - 8"] by (auto simp: bit_or_iff bit_ucast_iff bit_push_bit_iff)
  qed
qed

lemma le_word_le_bytes:
  assumes "8 * k = LENGTH('a)"
  shows "le_word (le_bytes k w) = (w :: 'a::len word)"
proof (rule bit_word_eqI)
  fix n assume n: "n < LENGTH('a)"
  then have "n div 8 < k"
    using assms by (simp add: less_mult_imp_div_less mult.commute)
  with n show "bit (le_word (le_bytes k w) :: 'a word) n \<longleftrightarrow> bit w n"
    using assms by (simp add: bit_le_word nth_le_bytes bit_ucast_iff bit_drop_bit_eq)
qed

lemma le_bytes_le_word:
  assumes "8 * length bs = LENGTH('a)"
  shows "le_bytes (length bs) (le_word bs :: 'a::len word) = bs"
proof (rule nth_equalityI)
  fix i assume "i < length (le_bytes (length bs) (le_word bs :: 'a word))"
  then have i: "i < length bs" by simp
  show "le_bytes (length bs) (le_word bs :: 'a word) ! i = bs ! i"
  proof (rule bit_word_eqI)
    fix n assume n: "n < LENGTH(8)"
    then have "8 * i + n < 8 * length bs" "(8 * i + n) div 8 = i" "(8 * i + n) mod 8 = n"
      using i by (simp_all)
    with n i assms show "bit (le_bytes (length bs) (le_word bs :: 'a word) ! i) n \<longleftrightarrow> bit (bs ! i) n"
      by (simp add: nth_le_bytes bit_ucast_iff bit_drop_bit_eq bit_le_word add.commute)
  qed
qed simp

lemma from_to_ne_bytes:
  "8 dvd LENGTH('a) \<Longrightarrow> from_ne_bytes e (to_ne_bytes e w) = (w :: 'a::len word)"
  by (simp add: from_ne_bytes_def to_ne_bytes_def le_word_le_bytes split: endian.splits)

lemma to_from_ne_bytes:
  "8 * length bs = LENGTH('a) \<Longrightarrow> to_ne_bytes e (from_ne_bytes e bs :: 'a::len word) = bs"
proof -
  assume len: "8 * length bs = LENGTH('a)"
  then have "LENGTH('a) div 8 = length bs" by simp
  with len le_bytes_le_word [of bs, where 'a = 'a] le_bytes_le_word [of "rev bs", where 'a = 'a]
  show ?thesis by (simp add: from_ne_bytes_def to_ne_bytes_def split: endian.splits)
qed

lemma from_to_ne_bytes_u32 [simp]: "from_ne_bytes e (to_ne_bytes e w) = (w :: 32 word)"
  by (rule from_to_ne_bytes) simp

lemma from_to_ne_bytes_u64 [simp]: "from_ne_bytes e (to_ne_bytes e w) = (w :: 64 word)"
  by (rule from_to_ne_bytes) simp

lemma from_ne_bytes_u8 [simp]: "from_ne_bytes e [b] = (b :: 8 word)"
  by (simp add: from_ne_bytes_def split: endian.splits)

end
