(* ===== verification/Errors.thy ===== *)
theory Errors
  imports Prelude
begin

text \<open>
  The error type of \<open>src/error.rs\<close>, its rendering and its conversion to Python exceptions, and
  the ways in which a call of the extension can end other than with a value.
\<close>

datatype shm_error = Os string | InvalidArg string | Permission string

fun shm_error_fmt :: "shm_error \<Rightarrow> string" where
  "shm_error_fmt (Os msg) = ''OS error: '' @ msg"
| "shm_error_fmt (InvalidArg msg) = ''Invalid argument: '' @ msg"
| "shm_error_fmt (Permission msg) = ''Permission denied: '' @ msg"

text \<open>
  The exceptions a caller can see. The last four are raised by the conversions between Python
  objects and Rust values, never by the code itself.
\<close>

datatype py_exc =
    PyOSError string
  | PyValueError string
  | PyPermissionError string
  | PyOverflowError
  | PyUnicodeError
  | PyTypeError
  | PyIndexError

fun py_err_from_shm_error :: "shm_error \<Rightarrow> py_exc" where
  "py_err_from_shm_error (Os msg) = PyOSError msg"
| "py_err_from_shm_error (InvalidArg msg) = PyValueError msg"
| "py_err_from_shm_error (Permission msg) = PyPermissionError msg"

text \<open>
  A call raises an exception, panics, or performs an access outside the mapped region, which the
  language leaves undefined.
\<close>

datatype fault = Raise py_exc | Panic string | UB string

definition shm_err :: "shm_error \<Rightarrow> fault + 'a" where
  "shm_err e = Inl (Raise (py_err_from_shm_error e))"

abbreviation invalid_arg :: "string \<Rightarrow> fault + 'a" where
  "invalid_arg msg \<equiv> shm_err (InvalidArg msg)"

abbreviation py_raise :: "py_exc \<Rightarrow> fault + 'a" where
  "py_raise x \<equiv> Inl (Raise x)"

text \<open>An outcome the caller can handle: a value or a Python exception.\<close>

fun handled :: "fault + 'a \<Rightarrow> bool" where
  "handled (Inr x) = True"
| "handled (Inl (Raise x)) = True"
| "handled (Inl (Panic s)) = False"
| "handled (Inl (UB s)) = False"

lemma handled_shm_err [simp]: "handled (shm_err e)"
  by (simp add: shm_err_def)

lemma handled_Inl: "handled (Inl e) \<longleftrightarrow> (\<exists>x. e = Raise x)"
  by (cases e) auto

lemma handled_bind [intro]:
  "handled r \<Longrightarrow> (\<And>x. r = Inr x \<Longrightarrow> handled (f x)) \<Longrightarrow> handled (bind r f)"
  by (cases r) (auto simp: handled_Inl)

lemma handled_map_err_Raise [simp]: "handled (map_err Raise r)"
  by (cases r) auto

lemma shm_err_not_Inr [simp]: "shm_err e \<noteq> Inr x" "Inr x \<noteq> shm_err e"
  by (simp_all add: shm_err_def)

lemma bind_shm_err [simp]: "bind (shm_err e) f = shm_err e"
  by (simp add: shm_err_def)

lemma shm_err_inject [simp]: "shm_err e = shm_err e' \<longleftrightarrow> e = e'"
  by (cases e; cases e') (auto simp: shm_err_def)

lemma sbind_sdo_shm_err: "sbind (sdo (shm_err e)) g = sdo (shm_err e)"
  by (rule ext) (simp add: shm_err_def sbind_def sdo_def)

lemma shm_err_InvalidArg: "invalid_arg msg = py_raise (PyValueError msg)"
  by (simp add: shm_err_def)

end
