(* ===== verification/Utf8.thy ===== *)
theory Utf8
  imports Prelude
begin

text \<open>
  UTF-8 as the string codec uses it: the encoding of a sequence of Unicode scalar values, and
  \<open>String::from_utf8_lossy\<close> of the Rust standard library, which turns any byte slice into scalar
  values and replaces each maximal ill-formed part by U+FFFD.
\<close>

type_synonym codepoint = nat

definition is_scalar :: "codepoint \<Rightarrow> bool" where
  "is_scalar c \<longleftrightarrow> c < 0xD800 \<or> 0xE000 \<le> c \<and> c \<le> 0x10FFFF"

definition replacement :: codepoint where
  "replacement = 0xFFFD"

definition utf8_encode_char :: "codepoint \<Rightarrow> u8 list" where
  "utf8_encode_char c =
     (if c < 0x80 then [of_nat c]
      else if c < 0x800 then [of_nat (0xC0 + c div 64), of_nat (0x80 + c mod 64)]
      else if c < 0x10000 then
        [of_nat (0xE0 + c div 4096), of_nat (0x80 + c div 64 mod 64), of_nat (0x80 + c mod 64)]
      else
        [of_nat (0xF0 + c div 262144), of_nat (0x80 + c div 4096 mod 64),
         of_nat (0x80 + c div 64 mod 64), of_nat (0x80 + c mod 64)])"

definition utf8_encode :: "codepoint list \<Rightarrow> u8 list" where
  "utf8_encode cs = concat (map utf8_encode_char cs)"

section \<open>The lossy decoder\<close>

definition is_cont :: "nat \<Rightarrow> bool" where
  "is_cont b \<longleftrightarrow> 0x80 \<le> b \<and> b < 0xC0"

definition second3 :: "nat \<Rightarrow> nat \<Rightarrow> bool" where
  "second3 b0 b1 \<longleftrightarrow>
     (if b0 = 0xE0 then 0xA0 \<le> b1 \<and> b1 < 0xC0
      else if b0 = 0xED then 0x80 \<le> b1 \<and> b1 < 0xA0
      else is_cont b1)"

definition second4 :: "nat \<Rightarrow> nat \<Rightarrow> bool" where
  "second4 b0 b1 \<longleftrightarrow>
     (if b0 = 0xF0 then 0x90 \<le> b1 \<and> b1 < 0xC0
      else if b0 = 0xF4 then 0x80 \<le> b1 \<and> b1 < 0x90
      else is_cont b1)"

definition byte_at :: "u8 list \<Rightarrow> nat \<Rightarrow> nat" where
  "byte_at bs i = (if i < length bs then unat (bs ! i) else 0)"

text \<open>The next character of a non-empty slice and the number of bytes it takes.\<close>

definition next_char :: "u8 list \<Rightarrow> codepoint \<times> nat" where
  "next_char bs =
     (let b0 = byte_at bs 0; b1 = byte_at bs 1; b2 = byte_at bs 2; b3 = byte_at bs 3 in
      if b0 < 0x80 then (b0, 1)
      else if 0xC2 \<le> b0 \<and> b0 < 0xE0 then
        (if is_cont b1 then ((b0 - 0xC0) * 64 + (b1 - 0x80), 2) else (replacement, 1))
      else if 0xE0 \<le> b0 \<and> b0 < 0xF0 then
        (if \<not> second3 b0 b1 then (replacement, 1)
         else if \<not> is_cont b2 then (replacement, 2)
         else ((b0 - 0xE0) * 4096 + (b1 - 0x80) * 64 + (b2 - 0x80), 3))
      else if 0xF0 \<le> b0 \<and> b0 \<le> 0xF4 then
        (if \<not> second4 b0 b1 then (replacement, 1)
         else if \<not> is_cont b2 then (replacement, 2)
         else if \<not> is_cont b3 then (replacement, 3)
         else ((b0 - 0xF0) * 262144 + (b1 - 0x80) * 4096 + (b2 - 0x80) * 64 + (b3 - 0x80), 4))
      else (replacement, 1))"

lemma next_char_pos: "0 < snd (next_char bs)"
  by (simp add: next_char_def Let_def)

function from_utf8_lossy :: "u8 list \<Rightarrow> codepoint list" where
  "from_utf8_lossy bs =
     (if bs = [] then []
      else fst (next_char bs) # from_utf8_lossy (drop (snd (next_char bs)) bs))"
  by pat_completeness auto
termination
  by (relation "measure length") (auto simp: next_char_pos)

declare from_utf8_lossy.simps [simp del]

lemma from_utf8_lossy_Nil [simp]: "from_utf8_lossy [] = []"
  by (simp add: from_utf8_lossy.simps)

section \<open>Decoding what was encoded\<close>

lemma unat_byte: "n < 256 \<Longrightarrow> unat (of_nat n :: u8) = n"
  by (simp add: unat_of_nat take_bit_nat_eq_self)

lemma byte_at_simps:
  "byte_at (b # bs) 0 = unat b"
  "byte_at (b # bs) (Suc i) = byte_at bs i"
  "byte_at (b # bs) (numeral k) = byte_at bs (pred_numeral k)"
  by (simp_all add: byte_at_def numeral_eq_Suc)

lemma split64: "c div 64 * 64 + c mod 64 = (c :: nat)"
  by simp

lemma split4096: "c div 4096 * 4096 + c div 64 mod 64 * 64 + c mod 64 = (c :: nat)"
proof -
  have "c div 4096 = c div 64 div 64" by (simp add: div_mult2_eq [symmetric])
  then show ?thesis using split64 [of "c div 64"] split64 [of c] by linarith
qed

lemma split262144:
  "c div 262144 * 262144 + c div 4096 mod 64 * 4096 + c div 64 mod 64 * 64 + c mod 64 = (c :: nat)"
proof -
  have "c div 262144 = c div 4096 div 64" by (simp add: div_mult2_eq [symmetric])
  then show ?thesis using split64 [of "c div 4096"] split4096 [of c] by linarith
qed

lemma byte_at_of_nat: "n < 256 \<Longrightarrow> byte_at (of_nat n # bs) 0 = n"
  by (simp only: byte_at_simps unat_byte)

lemma next_char_encode1:
  "c < 0x80 \<Longrightarrow> next_char (utf8_encode_char c @ rest) = (c, 1)"
  by (simp add: utf8_encode_char_def next_char_def Let_def byte_at_of_nat)

lemma next_char_encode2:
  assumes "0x80 \<le> c" "c < 0x800"
  shows "next_char (utf8_encode_char c @ rest) = (c, 2)"
proof -
  have d: "2 \<le> c div 64" "c div 64 < 32" using assms by auto
  let ?L = "utf8_encode_char c @ rest"
  have L: "?L = of_nat (0xC0 + c div 64) # of_nat (0x80 + c mod 64) # rest"
    using assms by (simp add: utf8_encode_char_def)
  have "byte_at ?L 0 = 0xC0 + c div 64"
    unfolding L using d by (intro byte_at_of_nat) simp
  moreover have "byte_at ?L 1 = 0x80 + c mod 64"
    unfolding L One_nat_def byte_at_simps(2) by (intro byte_at_of_nat) simp
  ultimately show ?thesis using d
    by (simp add: next_char_def Let_def is_cont_def split64)
qed

lemma second3_encode:
  assumes "is_scalar c" "0x800 \<le> c" "c < 0x10000"
  shows "second3 (0xE0 + c div 4096) (0x80 + c div 64 mod 64)"
proof -
  let ?x = "c div 64"
  obtain a b where ab: "a = ?x div 64" "b = ?x mod 64" by simp
  have q: "c div 4096 = a" by (simp add: ab div_mult2_eq [symmetric])
  have x: "?x = 64 * a + b" "b < 64" by (simp_all add: ab)
  have "32 \<le> ?x" "?x < 864 \<or> 896 \<le> ?x"
    using assms by (auto simp: is_scalar_def)
  with x have "a = 0 \<Longrightarrow> 32 \<le> b" and "a = 13 \<Longrightarrow> b < 32"
    by linarith+
  then show ?thesis using x(2) unfolding q ab(2) [symmetric]
    by (auto simp: second3_def is_cont_def)
qed

lemma next_char_encode3:
  assumes "is_scalar c" "0x800 \<le> c" "c < 0x10000"
  shows "next_char (utf8_encode_char c @ rest) = (c, 3)"
proof -
  have d: "c div 4096 < 16" using assms by auto
  let ?L = "utf8_encode_char c @ rest"
  have L: "?L = of_nat (0xE0 + c div 4096) # of_nat (0x80 + c div 64 mod 64)
      # of_nat (0x80 + c mod 64) # rest"
    using assms by (simp add: utf8_encode_char_def)
  have "byte_at ?L 0 = 0xE0 + c div 4096"
    unfolding L using d by (intro byte_at_of_nat) simp
  moreover have "byte_at ?L 1 = 0x80 + c div 64 mod 64"
    unfolding L One_nat_def byte_at_simps(2) by (intro byte_at_of_nat) simp
  moreover have "byte_at ?L 2 = 0x80 + c mod 64"
    unfolding L numeral_2_eq_2 byte_at_simps(2) by (intro byte_at_of_nat) simp
  ultimately show ?thesis using d second3_encode [OF assms]
    by (simp add: next_char_def Let_def is_cont_def split4096)
qed

lemma second4_encode:
  assumes "is_scalar c" "0x10000 \<le> c"
  shows "second4 (0xF0 + c div 262144) (0x80 + c div 4096 mod 64)"
proof -
  let ?x = "c div 4096"
  obtain a b where ab: "a = ?x div 64" "b = ?x mod 64" by simp
  have q: "c div 262144 = a" by (simp add: ab div_mult2_eq [symmetric])
  have x: "?x = 64 * a + b" "b < 64" by (simp_all add: ab)
  have "16 \<le> ?x" "?x < 272"
    using assms by (auto simp: is_scalar_def)
  with x have "a = 0 \<Longrightarrow> 16 \<le> b" and "a = 4 \<Longrightarrow> b < 16"
    by linarith+
  then show ?thesis using x(2) unfolding q ab(2) [symmetric]
    by (auto simp: second4_def is_cont_def)
qed

lemma next_char_encode4:
  assumes "is_scalar c" "0x10000 \<le> c"
  shows "next_char (utf8_encode_char c @ rest) = (c, 4)"
proof -
  have d: "c div 262144 \<le> 4" using assms by (auto simp: is_scalar_def)
  let ?L = "utf8_encode_char c @ rest"
  have L: "?L = of_nat (0xF0 + c div 262144) # of_nat (0x80 + c div 4096 mod 64)
      # of_nat (0x80 + c div 64 mod 64) # of_nat (0x80 + c mod 64) # rest"
    using assms by (simp add: utf8_encode_char_def)
  have "byte_at ?L 0 = 0xF0 + c div 262144"
    unfolding L using d by (intro byte_at_of_nat) simp
  moreover have "byte_at ?L 1 = 0x80 + c div 4096 mod 64"
    unfolding L One_nat_def byte_at_simps(2) by (intro byte_at_of_nat) simp
  moreover have "byte_at ?L 2 = 0x80 + c div 64 mod 64"
    unfolding L numeral_2_eq_2 byte_at_simps(2) by (intro byte_at_of_nat) simp
  moreover have "byte_at ?L 3 = 0x80 + c mod 64"
    unfolding L numeral_3_eq_3 byte_at_simps(2) by (intro byte_at_of_nat) simp
  ultimately show ?thesis using d second4_encode [OF assms]
    by (simp add: next_char_def Let_def is_cont_def split262144)
qed

lemma next_char_encode:
  assumes "is_scalar c"
  shows "next_char (utf8_encode_char c @ rest) = (c, length (utf8_encode_char c))"
proof -
  consider "c < 0x80" | "0x80 \<le> c" "c < 0x800" | "0x800 \<le> c" "c < 0x10000" | "0x10000 \<le> c"
    by linarith
  then show ?thesis
  proof cases
    case 1
    then show ?thesis by (simp add: next_char_encode1) (simp add: utf8_encode_char_def)
  next
    case 2
    then show ?thesis by (simp add: next_char_encode2) (simp add: utf8_encode_char_def)
  next
    case 3
    then show ?thesis using assms
      by (simp add: next_char_encode3) (simp add: utf8_encode_char_def)
  next
    case 4
    then show ?thesis using assms
      by (simp add: next_char_encode4) (simp add: utf8_encode_char_def)
  qed
qed

lemma utf8_encode_char_nonempty: "utf8_encode_char c \<noteq> []"
  by (simp add: utf8_encode_char_def)

lemma from_utf8_lossy_encode:
  "list_all is_scalar cs \<Longrightarrow> from_utf8_lossy (utf8_encode cs) = cs"
proof (induction cs)
  case Nil
  then show ?case by (simp add: utf8_encode_def)
next
  case (Cons c cs)
  then show ?case
    using next_char_encode [of c "utf8_encode cs"] utf8_encode_char_nonempty [of c]
    by (subst from_utf8_lossy.simps) (auto simp: utf8_encode_def)
qed

section \<open>Whatever the bytes, the result is a valid string\<close>

lemma scalar2:
  assumes "a < 0xE0" "is_cont b"
  shows "is_scalar ((a - 0xC0) * 64 + (b - 0x80))"
proof -
  have "a - 0xC0 < 32" "b - 0x80 < 64" using assms by (auto simp: is_cont_def)
  then show ?thesis unfolding is_scalar_def by linarith
qed

lemma scalar3:
  assumes "0xE0 \<le> a" "a < 0xF0" "second3 a b" "is_cont c"
  shows "is_scalar ((a - 0xE0) * 4096 + (b - 0x80) * 64 + (c - 0x80))"
proof -
  let ?a = "a - 0xE0" and ?b = "b - 0x80" and ?c = "c - 0x80"
  have "?a < 16" "?b < 64" "?c < 64" "?a = 13 \<Longrightarrow> ?b < 32"
    using assms by (auto simp: is_cont_def second3_def split: if_splits)
  moreover have "?a < 13 \<or> ?a = 13 \<or> 13 < ?a" by linarith
  ultimately show ?thesis unfolding is_scalar_def by linarith
qed

lemma scalar4:
  assumes "0xF0 \<le> a" "a \<le> 0xF4" "second4 a b" "is_cont c" "is_cont d"
  shows "is_scalar ((a - 0xF0) * 262144 + (b - 0x80) * 4096 + (c - 0x80) * 64 + (d - 0x80))"
proof -
  let ?a = "a - 0xF0" and ?b = "b - 0x80" and ?c = "c - 0x80" and ?d = "d - 0x80"
  have "?a \<le> 4" "?b < 64" "?c < 64" "?d < 64" "?a = 4 \<Longrightarrow> ?b < 16" "?a = 0 \<Longrightarrow> 16 \<le> ?b"
    using assms by (auto simp: is_cont_def second4_def split: if_splits)
  moreover have "?a = 0 \<or> ?a = 4 \<or> 0 < ?a \<and> ?a < 4" using calculation(1) by linarith
  ultimately show ?thesis unfolding is_scalar_def by linarith
qed

lemma scalar_small: "c < 0x80 \<Longrightarrow> is_scalar c" "is_scalar replacement"
  by (simp_all add: is_scalar_def replacement_def)

lemma next_char_scalar: "is_scalar (fst (next_char bs))"
  unfolding next_char_def Let_def by (simp add: scalar_small scalar2 scalar3 scalar4)

lemma from_utf8_lossy_scalar: "list_all is_scalar (from_utf8_lossy bs)"
proof (induction bs rule: from_utf8_lossy.induct)
  case (1 bs)
  then show ?case
    by (subst from_utf8_lossy.simps) (simp add: next_char_scalar)
qed

lemma length_from_utf8_lossy: "length (from_utf8_lossy bs) \<le> length bs"
proof (induction bs rule: from_utf8_lossy.induct)
  case (1 bs)
  show ?case
  proof (cases bs)
    case Nil
    then show ?thesis by simp
  next
    case (Cons b bs')
    then have "length (from_utf8_lossy (drop (snd (next_char bs)) bs)) < length bs"
      using "1.IH" next_char_pos [of bs] by (fastforce simp del: drop_Cons')
    then show ?thesis using Cons by (subst from_utf8_lossy.simps) simp
  qed
qed

text \<open>Bytes below 128 are their own characters: ASCII text is stored as itself.\<close>

lemma utf8_encode_ascii: "list_all (\<lambda>c. c < 128) cs \<Longrightarrow> utf8_encode cs = map of_nat cs"
  by (induction cs) (auto simp: utf8_encode_def utf8_encode_char_def)

end
