(* ===== verification/Host.thy ===== *)
theory Host
  imports Bytes Errors Utf8
begin

text \<open>
  What the sources take from outside: the Python values they receive and return, and the \<open>host\<close>
  they are compiled for and linked against. The fields of \<open>host\<close> are parameters of the whole
  model: the byte order of the target, whether the build profile checks integer overflow, and the
  PyO3 conversions that can fail or change a value. \<open>host_ok\<close> collects what the code relies on.
\<close>

section \<open>Python values\<close>

datatype py =
    PyBool bool
  | PyInt int
  | PyFloat f64
  | PyStr "codepoint list"
  | PyBytes "u8 list"
  | PyByteArray "u8 list"
  | PyList "py list"
  | PyTuple "py list"
  | PyObject string

text \<open>The name of the type of a value; \<open>PyObject\<close> stands for an instance of any other class.\<close>

fun type_name :: "py \<Rightarrow> string" where
  "type_name (PyBool _) = ''bool''"
| "type_name (PyInt _) = ''int''"
| "type_name (PyFloat _) = ''float''"
| "type_name (PyStr _) = ''str''"
| "type_name (PyBytes _) = ''bytes''"
| "type_name (PyByteArray _) = ''bytearray''"
| "type_name (PyList _) = ''list''"
| "type_name (PyTuple _) = ''tuple''"
| "type_name (PyObject t) = t"

text \<open>A Python string with the characters of an ASCII literal.\<close>

definition py_str :: "string \<Rightarrow> py" where
  "py_str s = PyStr (map of_char s)"

text \<open>Indexing a Python tuple or list from Rust: an index past the end raises.\<close>

definition py_item :: "py list \<Rightarrow> nat \<Rightarrow> fault + py" where
  "py_item xs i = (if i < length xs then Inr (xs ! i) else py_raise PyIndexError)"

section \<open>The host\<close>

record host =
  byte_order :: endian
  overflow_checks :: bool
  extract_i64 :: "int \<Rightarrow> py_exc + i64"
  to_str :: "codepoint list \<Rightarrow> py_exc + u8 list"
  extract_usize :: "py \<Rightarrow> py_exc + usize"
  extract_string :: "py \<Rightarrow> py_exc + string"
  f64_of_f32 :: "f32 \<Rightarrow> f64"

definition in_i64 :: "int \<Rightarrow> bool" where
  "in_i64 n \<longleftrightarrow> - (2 ^ 63) \<le> n \<and> n < 2 ^ 63"

definition is_ascii :: "string \<Rightarrow> bool" where
  "is_ascii s \<longleftrightarrow> list_all (\<lambda>c. (of_char c :: nat) < 128) s"

text \<open>
  The documented behaviour of the conversions: an \<open>int\<close> becomes an \<open>i64\<close> exactly when it fits; a
  \<open>str\<close> gives its UTF-8 bytes unless it holds a lone surrogate; a non-negative \<open>int\<close> below
  \<open>2^64\<close> becomes a \<open>usize\<close>; an ASCII \<open>str\<close> becomes the same Rust string.
\<close>

definition host_ok :: "host \<Rightarrow> bool" where
  "host_ok h \<longleftrightarrow>
     (\<forall>n. in_i64 n \<longrightarrow> extract_i64 h n = Inr (word_of_int n)) \<and>
     (\<forall>n. \<not> in_i64 n \<longrightarrow> (\<exists>x. extract_i64 h n = Inl x)) \<and>
     (\<forall>cs. list_all is_scalar cs \<longrightarrow> to_str h cs = Inr (utf8_encode cs)) \<and>
     (\<forall>cs. \<not> list_all is_scalar cs \<longrightarrow> (\<exists>x. to_str h cs = Inl x)) \<and>
     (\<forall>n. n < 2 ^ 64 \<longrightarrow> extract_usize h (PyInt (int n)) = Inr (of_nat n)) \<and>
     (\<forall>s. is_ascii s \<longrightarrow> extract_string h (py_str s) = Inr s)"

lemma host_i64: "host_ok h \<Longrightarrow> in_i64 n \<Longrightarrow> extract_i64 h n = Inr (word_of_int n)"
  by (simp add: host_ok_def)

lemma host_i64_err: "host_ok h \<Longrightarrow> \<not> in_i64 n \<Longrightarrow> \<exists>x. extract_i64 h n = Inl x"
  by (simp add: host_ok_def)

lemma host_str: "host_ok h \<Longrightarrow> list_all is_scalar cs \<Longrightarrow> to_str h cs = Inr (utf8_encode cs)"
  by (simp add: host_ok_def)

lemma host_str_err: "host_ok h \<Longrightarrow> \<not> list_all is_scalar cs \<Longrightarrow> \<exists>x. to_str h cs = Inl x"
  by (simp add: host_ok_def)

lemma host_usize: "host_ok h \<Longrightarrow> n < 2 ^ 64 \<Longrightarrow> extract_usize h (PyInt (int n)) = Inr (of_nat n)"
  by (simp add: host_ok_def)

lemma host_string: "host_ok h \<Longrightarrow> is_ascii s \<Longrightarrow> extract_string h (py_str s) = Inr s"
  by (simp add: host_ok_def)

section \<open>Arithmetic on \<open>usize\<close>\<close>

text \<open>
  \<open>+\<close> and \<open>-\<close> panic on overflow when the profile checks it (the default of a debug build) and
  wrap otherwise (the default of a release build).
\<close>

definition uadd :: "host \<Rightarrow> usize \<Rightarrow> usize \<Rightarrow> fault + usize" where
  "uadd h a b =
     (if overflow_checks h \<and> 2 ^ 64 \<le> unat a + unat b
      then Inl (Panic ''attempt to add with overflow'') else Inr (a + b))"

definition usub :: "host \<Rightarrow> usize \<Rightarrow> usize \<Rightarrow> fault + usize" where
  "usub h a b =
     (if overflow_checks h \<and> a < b
      then Inl (Panic ''attempt to subtract with overflow'') else Inr (a - b))"

definition saturating_add :: "usize \<Rightarrow> usize \<Rightarrow> usize" where
  "saturating_add a b = (if 2 ^ 64 \<le> unat a + unat b then - 1 else a + b)"

definition saturating_sub :: "usize \<Rightarrow> usize \<Rightarrow> usize" where
  "saturating_sub a b = (if a < b then 0 else a - b)"

lemma uadd_no_overflow [simp, res_simps]:
  "unat a + unat b < 2 ^ 64 \<Longrightarrow> uadd h a b = Inr (a + b)"
  by (simp add: uadd_def)

lemma uadd_release [simp]: "\<not> overflow_checks h \<Longrightarrow> uadd h a b = Inr (a + b)"
  by (simp add: uadd_def)

lemma uadd_eq_Inr: "uadd h a b = Inr c \<Longrightarrow> c = a + b"
  by (simp add: uadd_def split: if_splits)

lemma usub_no_underflow [simp, res_simps]: "b \<le> a \<Longrightarrow> usub h a b = Inr (a - b)"
  by (simp add: usub_def not_less)

lemma unat_saturating_add:
  "unat (saturating_add a b) = min (unat a + unat b) (2 ^ 64 - 1)"
proof (cases "2 ^ 64 \<le> unat a + unat b")
  case True
  then have "min (unat a + unat b) (2 ^ 64 - 1) = (2 ^ 64 - 1 :: nat)" by simp
  moreover have "unat (- 1 :: usize) = 2 ^ 64 - 1" by (simp add: unsigned_minus_1_eq_mask mask_eq_exp_minus_1)
  ultimately show ?thesis using True by (simp add: saturating_add_def)
next
  case False
  then have "unat (a + b) = unat a + unat b" by (intro unat_add_usize) simp
  then show ?thesis using False by (simp add: saturating_add_def)
qed

lemma unat_saturating_sub: "unat (saturating_sub a b) = unat a - unat b"
proof (cases "a < b")
  case True
  then show ?thesis by (simp add: saturating_sub_def word_less_nat_alt)
next
  case False
  then show ?thesis by (simp add: saturating_sub_def unat_sub not_less)
qed

section \<open>Byte vectors and slices\<close>

definition vec_extend :: "u8 list \<Rightarrow> u8 list \<Rightarrow> fault + u8 list" where
  "vec_extend out bs =
     (if isize_max < length out + length bs then Inl (Panic ''capacity overflow'')
      else Inr (out @ bs))"

definition slice_range :: "u8 list \<Rightarrow> usize \<Rightarrow> usize \<Rightarrow> fault + u8 list" where
  "slice_range xs a b =
     (if a \<le> b \<and> unat b \<le> length xs then Inr (window (unat a) (unat b - unat a) xs)
      else Inl (Panic ''range out of bounds for slice''))"

definition index_at :: "u8 list \<Rightarrow> usize \<Rightarrow> fault + u8" where
  "index_at xs i =
     (if unat i < length xs then Inr (xs ! unat i) else Inl (Panic ''index out of bounds''))"

definition slice_len :: "u8 list \<Rightarrow> usize" where
  "slice_len xs = of_nat (length xs)"

lemma unat_slice_len [simp]: "length xs \<le> isize_max \<Longrightarrow> unat (slice_len xs) = length xs"
  by (simp add: slice_len_def unat_of_nat_isize)

section \<open>A concrete host\<close>

text \<open>
  CPython with PyO3 on a 64-bit target, as far as the parameters go: the instance at which the
  properties are exercised. \<open>widen_f32\<close> converts a single to a double bit pattern.
\<close>

fun widen_subnormal :: "nat \<Rightarrow> nat \<Rightarrow> nat \<Rightarrow> nat" where
  "widen_subnormal 0 e m = 0"
| "widen_subnormal (Suc k) e m =
     (if 2 ^ 23 \<le> m then e * 2 ^ 52 + (m - 2 ^ 23) * 2 ^ 29 else widen_subnormal k (e - 1) (2 * m))"

definition widen_f32 :: "f32 \<Rightarrow> f64" where
  "widen_f32 w =
     (let n = unat w; s = n div 2 ^ 31; e = n div 2 ^ 23 mod 2 ^ 8; m = n mod 2 ^ 23 in
      of_nat (s * 2 ^ 63 +
        (if e = 255 then 2047 * 2 ^ 52 + (if m = 0 then 0 else 2 ^ 51) + m mod 2 ^ 22 * 2 ^ 29
         else if e = 0 then widen_subnormal 24 897 m
         else (e + 896) * 2 ^ 52 + m * 2 ^ 29)))"

definition cpython :: "endian \<Rightarrow> bool \<Rightarrow> host" where
  "cpython e chk =
     \<lparr>byte_order = e, overflow_checks = chk,
      extract_i64 = (\<lambda>n. if in_i64 n then Inr (word_of_int n) else Inl PyOverflowError),
      to_str = (\<lambda>cs. if list_all is_scalar cs then Inr (utf8_encode cs) else Inl PyUnicodeError),
      extract_usize = (\<lambda>v. case v of
          PyInt n \<Rightarrow> if 0 \<le> n \<and> n < 2 ^ 64 then Inr (word_of_int n) else Inl PyOverflowError
        | PyBool b \<Rightarrow> Inr (if b then 1 else 0)
        | _ \<Rightarrow> Inl PyTypeError),
      extract_string = (\<lambda>v. case v of
          PyStr cs \<Rightarrow> if list_all is_scalar cs then Inr (map (char_of \<circ> unat) (utf8_encode cs))
                      else Inl PyUnicodeError
        | _ \<Rightarrow> Inl PyTypeError),
      f64_of_f32 = widen_f32\<rparr>"

abbreviation le_host :: host where
  "le_host \<equiv> cpython LittleEndian False"

lemma cpython_sel [simp]:
  "byte_order (cpython e chk) = e" "overflow_checks (cpython e chk) = chk"
  by (simp_all add: cpython_def)

lemma ascii_tag_bytes:
  "is_ascii s \<Longrightarrow> map (char_of \<circ> unat) (utf8_encode (map of_char s)) = s"
proof (induction s)
  case Nil
  then show ?case by (simp add: utf8_encode_def)
next
  case (Cons c s)
  then have "(of_char c :: nat) < 128" by (simp add: is_ascii_def)
  then have "utf8_encode_char (of_char c) = [of_nat (of_char c)]"
    and "unat (of_nat (of_char c) :: u8) = of_char c"
    by (simp_all add: utf8_encode_char_def unat_byte)
  with Cons show ?case by (simp add: utf8_encode_def is_ascii_def)
qed

lemma ascii_scalar: "is_ascii s \<Longrightarrow> list_all is_scalar (map of_char s)"
  by (induction s) (auto simp: is_ascii_def is_scalar_def)

lemma cpython_ok: "host_ok (cpython e chk)"
  by (auto simp: host_ok_def cpython_def py_str_def ascii_tag_bytes ascii_scalar)

end
