(* ===== verification/Mixed.thy ===== *)
theory Mixed
  imports Host
begin

text \<open>
  The value codec of \<open>src/mixed.rs\<close>: packing Python values into bytes by their type, and reading
  them back by a type tag, one at a time (\<open>unpack_one\<close>) or by a schema
  (\<open>unpack_mixed_counted\<close>). Errors carry the message of the source.
\<close>

section \<open>Packing\<close>

definition squoted :: "string \<Rightarrow> string" where
  "squoted s = CHR 0x27 # s @ [CHR 0x27]"

fun pack_value :: "host \<Rightarrow> py \<Rightarrow> u8 list \<Rightarrow> fault + u8 list" where
  "pack_value h (PyBool b) out = vec_extend out [if b then 1 else 0]"
| "pack_value h (PyInt n) out =
     bind (map_err Raise (extract_i64 h n)) (\<lambda>w.
     vec_extend out (to_ne_bytes (byte_order h) w))"
| "pack_value h (PyFloat w) out = vec_extend out (to_ne_bytes (byte_order h) w)"
| "pack_value h (PyStr cs) out =
     bind (map_err Raise (to_str h cs)) (\<lambda>encoded.
     bind (vec_extend out (to_ne_bytes (byte_order h) (ucast (slice_len encoded) :: u32))) (\<lambda>out.
     vec_extend out encoded))"
| "pack_value h (PyBytes bs) out = vec_extend out bs"
| "pack_value h (PyByteArray bs) out = vec_extend out bs"
| "pack_value h v out =
     invalid_arg (''unsupported type '' @ squoted (type_name v) @
       ''; supported: bool, int, float, str, bytes, bytearray'')"

fun pack_all :: "host \<Rightarrow> py list \<Rightarrow> u8 list \<Rightarrow> fault + u8 list" where
  "pack_all h [] out = Inr out"
| "pack_all h (v # vs) out = bind (pack_value h v out) (pack_all h vs)"

fun pack_items :: "host \<Rightarrow> py list \<Rightarrow> u8 list \<Rightarrow> fault + u8 list" where
  "pack_items h [] out = Inr out"
| "pack_items h (item # items) out =
     bind (case item of PyList sub \<Rightarrow> pack_all h sub out | _ \<Rightarrow> pack_value h item out)
       (pack_items h items)"

definition pack_mixed :: "host \<Rightarrow> py list \<Rightarrow> fault + u8 list" where
  "pack_mixed h items = pack_items h items []"

section \<open>Reading one value\<close>

definition py_of_u8 :: "host \<Rightarrow> u8 list \<Rightarrow> py" where
  "py_of_u8 h bs = PyInt (uint (from_ne_bytes (byte_order h) bs :: u8))"

definition py_of_f32 :: "host \<Rightarrow> u8 list \<Rightarrow> py" where
  "py_of_f32 h bs = PyFloat (f64_of_f32 h (from_ne_bytes (byte_order h) bs :: f32))"

definition py_of_i32 :: "host \<Rightarrow> u8 list \<Rightarrow> py" where
  "py_of_i32 h bs = PyInt (sint (from_ne_bytes (byte_order h) bs :: i32))"

definition py_of_u32 :: "host \<Rightarrow> u8 list \<Rightarrow> py" where
  "py_of_u32 h bs = PyInt (uint (from_ne_bytes (byte_order h) bs :: u32))"

definition py_of_i64 :: "host \<Rightarrow> u8 list \<Rightarrow> py" where
  "py_of_i64 h bs = PyInt (sint (from_ne_bytes (byte_order h) bs :: i64))"

definition py_of_f64 :: "host \<Rightarrow> u8 list \<Rightarrow> py" where
  "py_of_f64 h bs = PyFloat (from_ne_bytes (byte_order h) bs :: f64)"

definition py_of_u64 :: "host \<Rightarrow> u8 list \<Rightarrow> py" where
  "py_of_u64 h bs = PyInt (uint (from_ne_bytes (byte_order h) bs :: u64))"

definition not_enough :: "string \<Rightarrow> nat \<Rightarrow> nat \<Rightarrow> fault + 'a" where
  "not_enough what need have =
     invalid_arg (''not enough data to read '' @ what @ '': need '' @ show_nat need @
       '', have '' @ show_nat have)"

definition unpack_one :: "host \<Rightarrow> u8 list \<Rightarrow> string \<Rightarrow> fault + (py \<times> usize)" where
  "unpack_one h data tag =
     (if tag = ''bool'' then
        (if data = [] then invalid_arg (''not enough data to read '' @ squoted ''bool'')
         else Inr (PyBool (data ! 0 \<noteq> 0), 1))
      else if tag = ''u8'' then
        (if length data < 1 then not_enough (squoted tag) 1 (length data)
         else Inr (py_of_u8 h (take 1 data), 1))
      else if tag = ''f32'' \<or> tag = ''i32'' \<or> tag = ''u32'' then
        (if length data < 4 then not_enough (squoted tag) 4 (length data)
         else if tag = ''f32'' then Inr (py_of_f32 h (take 4 data), 4)
         else if tag = ''i32'' then Inr (py_of_i32 h (take 4 data), 4)
         else Inr (py_of_u32 h (take 4 data), 4))
      else if tag = ''int'' \<or> tag = ''float'' \<or> tag = ''i64'' \<or> tag = ''f64'' \<or> tag = ''u64'' then
        (if length data < 8 then not_enough (squoted tag) 8 (length data)
         else if tag = ''float'' \<or> tag = ''f64'' then Inr (py_of_f64 h (take 8 data), 8)
         else if tag = ''u64'' then Inr (py_of_u64 h (take 8 data), 8)
         else Inr (py_of_i64 h (take 8 data), 8))
      else if tag = ''str'' then
        (if length data < 4 then invalid_arg ''not enough data to read str length prefix''
         else
           let len = ucast (from_ne_bytes (byte_order h) (take 4 data) :: u32) :: usize in
           if length data < unat (4 + len) then
             not_enough ''str payload'' (unat (4 + len)) (length data)
           else Inr (PyStr (from_utf8_lossy (window 4 (unat len) data)), 4 + len))
      else invalid_arg (''unknown type tag '' @ squoted tag @
        ''; supported: bool, int, float, f32, f64, i32, i64, u8, u32, u64, str''))"

section \<open>Reading by a schema\<close>

definition check_bounds :: "host \<Rightarrow> usize \<Rightarrow> usize \<Rightarrow> usize \<Rightarrow> fault + unit" where
  "check_bounds h cursor needed data_len =
     bind (uadd h cursor needed) (\<lambda>stop.
       if data_len < stop then
         invalid_arg (''out of bounds: cursor='' @ show_usize cursor @ '' + needed='' @
           show_usize needed @ '' > data_len='' @ show_usize data_len)
       else Inr ())"

text \<open>
  The bodies of the loops: each reads one element at the cursor and returns it with the new
  cursor. \<open>for_count\<close> is the loop \<open>for _ in 0..count\<close> around them, collecting the group.
\<close>

definition read_bool :: "host \<Rightarrow> u8 list \<Rightarrow> usize \<Rightarrow> fault + (py \<times> usize)" where
  "read_bool h data cursor =
     bind (check_bounds h cursor 1 (slice_len data)) (\<lambda>_.
     bind (index_at data cursor) (\<lambda>b.
     bind (uadd h cursor 1) (\<lambda>cursor.
     Inr (PyBool (b \<noteq> 0), cursor))))"

definition read_fixed ::
    "host \<Rightarrow> usize \<Rightarrow> (u8 list \<Rightarrow> py) \<Rightarrow> u8 list \<Rightarrow> usize \<Rightarrow> fault + (py \<times> usize)" where
  "read_fixed h width conv data cursor =
     bind (check_bounds h cursor width (slice_len data)) (\<lambda>_.
     bind (uadd h cursor width) (\<lambda>stop.
     bind (slice_range data cursor stop) (\<lambda>bs.
     Inr (conv bs, stop))))"

definition read_str :: "host \<Rightarrow> u8 list \<Rightarrow> usize \<Rightarrow> fault + (py \<times> usize)" where
  "read_str h data cursor =
     bind (check_bounds h cursor 4 (slice_len data)) (\<lambda>_.
     bind (uadd h cursor 4) (\<lambda>stop.
     bind (slice_range data cursor stop) (\<lambda>prefix.
     let len = ucast (from_ne_bytes (byte_order h) prefix :: u32) :: usize; cursor = stop in
     bind (check_bounds h cursor len (slice_len data)) (\<lambda>_.
     bind (uadd h cursor len) (\<lambda>stop.
     bind (slice_range data cursor stop) (\<lambda>bs.
     Inr (PyStr (from_utf8_lossy bs), stop)))))))"

fun for_count ::
    "(usize \<Rightarrow> fault + (py \<times> usize)) \<Rightarrow> nat \<Rightarrow> usize \<Rightarrow> py list \<Rightarrow> fault + (py list \<times> usize)" where
  "for_count body 0 cursor grp = Inr (grp, cursor)"
| "for_count body (Suc n) cursor grp =
     bind (body cursor) (\<lambda>(v, cursor). for_count body n cursor (grp @ [v]))"

definition element_body ::
    "host \<Rightarrow> string \<Rightarrow> (u8 list \<Rightarrow> usize \<Rightarrow> fault + (py \<times> usize)) option" where
  "element_body h tag =
     (if tag = ''bool'' then Some (read_bool h)
      else if tag = ''u8'' then Some (read_fixed h 1 (py_of_u8 h))
      else if tag = ''f32'' then Some (read_fixed h 4 (py_of_f32 h))
      else if tag = ''i32'' then Some (read_fixed h 4 (py_of_i32 h))
      else if tag = ''u32'' then Some (read_fixed h 4 (py_of_u32 h))
      else if tag = ''int'' \<or> tag = ''i64'' then Some (read_fixed h 8 (py_of_i64 h))
      else if tag = ''float'' \<or> tag = ''f64'' then Some (read_fixed h 8 (py_of_f64 h))
      else if tag = ''u64'' then Some (read_fixed h 8 (py_of_u64 h))
      else if tag = ''str'' then Some (read_str h)
      else None)"

definition unpack_group ::
    "host \<Rightarrow> u8 list \<Rightarrow> string \<Rightarrow> usize \<Rightarrow> usize \<Rightarrow> fault + (py list \<times> usize)" where
  "unpack_group h data tag count cursor =
     (case element_body h tag of
        Some body \<Rightarrow> for_count (body data) (unat count) cursor []
      | None \<Rightarrow> invalid_arg (''unknown type tag '' @ squoted tag))"

fun unpack_entries ::
    "host \<Rightarrow> u8 list \<Rightarrow> py list \<Rightarrow> usize \<Rightarrow> py list \<Rightarrow> fault + (py list \<times> usize)" where
  "unpack_entries h data [] cursor result = Inr (result, cursor)"
| "unpack_entries h data (item # schema) cursor result =
     (case item of
        PyTuple flds \<Rightarrow>
          bind (py_item flds 0) (\<lambda>f0.
          bind (map_err Raise (extract_string h f0)) (\<lambda>tag.
          bind (py_item flds 1) (\<lambda>f1.
          bind (map_err Raise (extract_usize h f1)) (\<lambda>count.
          bind (unpack_group h data tag count cursor) (\<lambda>(grp, cursor).
          bind (if count = 1 then py_item grp 0 else Inr (PyList grp)) (\<lambda>entry.
          unpack_entries h data schema cursor (result @ [entry])))))))
      | _ \<Rightarrow> invalid_arg ''schema entries must be (type_tag, count) tuples'')"

definition unpack_mixed_counted ::
    "host \<Rightarrow> u8 list \<Rightarrow> py list \<Rightarrow> fault + (py list \<times> usize)" where
  "unpack_mixed_counted h data schema = unpack_entries h data schema 0 []"

section \<open>Safety of the single-value reader\<close>

lemma handled_not_enough [simp]: "handled (not_enough w n k)"
  by (simp add: not_enough_def)

lemma not_enough_not_Inr [simp]: "not_enough w n k \<noteq> Inr x"
  by (simp add: not_enough_def)

lemma handled_unpack_one: "handled (unpack_one h data tag)"
  by (simp add: unpack_one_def Let_def)

lemma unat_u32_less: "unat (w :: u32) < 2 ^ 32"
proof -
  have "unat w < 2 ^ LENGTH(32)" by (rule unsigned_less)
  then show ?thesis by simp
qed

lemma unat_ucast_u32 [simp]: "unat (ucast (w :: u32) :: usize) = unat w"
  using unat_u32_less [of w] by (simp add: unsigned_ucast_eq take_bit_nat_eq_self)

lemma unpack_one_bounds:
  assumes "unpack_one h data tag = Inr (v, n)"
  shows "0 < unat n \<and> unat n \<le> length data"
proof -
  have "0 < unat (4 + ucast (w :: u32) :: usize)" for w
  proof -
    have "unat (4 + ucast w :: usize) = 4 + unat w"
      using unat_u32_less [of w] by (subst unat_add_usize) simp_all
    then show ?thesis by simp
  qed
  with assms show ?thesis
    by (auto simp: unpack_one_def Let_def not_less Suc_le_eq split: if_splits)
qed

section \<open>One element at a cursor\<close>

lemma check_bounds_small:
  assumes "length data \<le> isize_max" "unat cursor \<le> length data" "unat needed < 2 ^ 33"
  shows "check_bounds h cursor needed (slice_len data) =
     (if length data < unat cursor + unat needed
      then invalid_arg (''out of bounds: cursor='' @ show_usize cursor @ '' + needed='' @
           show_usize needed @ '' > data_len='' @ show_usize (slice_len data))
      else Inr ())"
proof -
  have sum: "unat cursor + unat needed < 2 ^ 64"
    using assms by (simp add: isize_max_def)
  have "slice_len data < cursor + needed \<longleftrightarrow> length data < unat cursor + unat needed"
    using assms(1) unat_add_usize [OF sum] by (simp add: word_less_nat_alt)
  with sum show ?thesis by (simp add: check_bounds_def)
qed

lemma uadd_cursor:
  assumes "length data \<le> isize_max" "unat cursor + unat n \<le> length data"
  shows "uadd h cursor n = Inr (cursor + n)" "unat (cursor + n) = unat cursor + unat n"
proof -
  have "unat cursor + unat n < 2 ^ 64"
    using assms by (simp add: isize_max_def)
  then show "uadd h cursor n = Inr (cursor + n)" "unat (cursor + n) = unat cursor + unat n"
    by (simp_all add: unat_add_usize)
qed

lemma slice_range_cursor:
  assumes "length data \<le> isize_max" "unat cursor + unat n \<le> length data"
  shows "slice_range data cursor (cursor + n) = Inr (window (unat cursor) (unat n) data)"
  using assms uadd_cursor(2) [OF assms] by (simp add: slice_range_def word_le_nat_alt)

lemma check_bounds_ok:
  assumes "length data \<le> isize_max" "unat cursor + unat n \<le> length data"
  shows "check_bounds h cursor n (slice_len data) = Inr ()"
proof -
  have "unat cursor + unat n < 2 ^ 64" using assms by (simp add: isize_max_def)
  moreover have "\<not> slice_len data < cursor + n"
    using assms uadd_cursor(2) [OF assms] by (simp add: word_less_nat_alt)
  ultimately show ?thesis by (simp add: check_bounds_def)
qed

lemma check_bounds_err:
  assumes "length data \<le> isize_max" "unat cursor \<le> length data" "unat n < 2 ^ 33"
    and "length data < unat cursor + unat n"
  shows "\<exists>msg. check_bounds h cursor n (slice_len data) = invalid_arg msg"
  using assms by (simp add: check_bounds_small)

lemma read_fixed_ok:
  assumes "length data \<le> isize_max" "unat cursor + unat width \<le> length data"
  shows "read_fixed h width conv data cursor =
     Inr (conv (window (unat cursor) (unat width) data), cursor + width)"
  using assms by (simp add: read_fixed_def check_bounds_ok uadd_cursor(1) slice_range_cursor)

lemma read_fixed_err:
  assumes "length data \<le> isize_max" "unat cursor \<le> length data" "unat width < 2 ^ 33"
    and "length data < unat cursor + unat width"
  shows "\<exists>msg. read_fixed h width conv data cursor = invalid_arg msg"
  using check_bounds_err [OF assms, of h] by (auto simp: read_fixed_def)

lemma read_bool_ok:
  assumes "length data \<le> isize_max" "unat cursor < length data"
  shows "read_bool h data cursor = Inr (PyBool (data ! unat cursor \<noteq> 0), cursor + 1)"
  using assms by (simp add: read_bool_def check_bounds_ok uadd_cursor(1) index_at_def)

lemma read_bool_err:
  assumes "length data \<le> isize_max" "unat cursor = length data"
  shows "\<exists>msg. read_bool h data cursor = invalid_arg msg"
  using check_bounds_err [OF assms(1), of cursor 1 h] assms(2) by (auto simp: read_bool_def)

definition str_len :: "host \<Rightarrow> u8 list \<Rightarrow> usize" where
  "str_len h prefix = ucast (from_ne_bytes (byte_order h) prefix :: u32)"

lemma unat_str_len_less: "unat (str_len h prefix) < 2 ^ 32"
  by (simp only: str_len_def unat_ucast_u32 unat_u32_less)

lemma unat_4_str_len: "unat (4 + str_len h prefix) = 4 + unat (str_len h prefix)"
  using unat_str_len_less [of h prefix] by (subst unat_add_usize) simp_all

lemma read_str_unfold:
  assumes "length data \<le> isize_max" "unat cursor + 4 \<le> length data"
  shows "read_str h data cursor =
     (let len = str_len h (window (unat cursor) 4 data) in
      bind (check_bounds h (cursor + 4) len (slice_len data)) (\<lambda>_.
      bind (uadd h (cursor + 4) len) (\<lambda>stop.
      bind (slice_range data (cursor + 4) stop) (\<lambda>bs.
      Inr (PyStr (from_utf8_lossy bs), stop)))))"
  using assms
  by (simp add: read_str_def check_bounds_ok uadd_cursor(1) slice_range_cursor str_len_def Let_def)

lemma read_str_ok:
  assumes "length data \<le> isize_max" "unat cursor + 4 + unat len \<le> length data"
    and "len = str_len h (window (unat cursor) 4 data)"
  shows "read_str h data cursor =
     Inr (PyStr (from_utf8_lossy (window (unat cursor + 4) (unat len) data)), cursor + 4 + len)"
proof -
  have "unat (cursor + 4) = unat cursor + 4"
    using uadd_cursor(2) [OF assms(1), of cursor 4] assms(2) by simp
  with assms(1,2) assms(3) [symmetric] show ?thesis
    by (simp add: read_str_unfold check_bounds_ok uadd_cursor(1) slice_range_cursor)
qed

lemma read_str_err:
  assumes "length data \<le> isize_max" "unat cursor \<le> length data"
    and "len = str_len h (window (unat cursor) 4 data)"
    and "length data < unat cursor + 4 + unat len"
  shows "\<exists>msg. read_str h data cursor = invalid_arg msg"
proof (cases "length data < unat cursor + 4")
  case True
  then show ?thesis
    using check_bounds_err [OF assms(1,2), of 4 h] by (auto simp: read_str_def)
next
  case False
  then have c: "unat (cursor + 4) = unat cursor + 4"
    using uadd_cursor(2) [OF assms(1), of cursor 4] by simp
  have "unat len < 2 ^ 33"
    using unat_str_len_less [of h "window (unat cursor) 4 data"] assms(3) by simp
  then have "\<exists>msg. check_bounds h (cursor + 4) len (slice_len data) = invalid_arg msg"
    using assms(4) False c by (intro check_bounds_err [OF assms(1)]) auto
  then show ?thesis
    using False by (auto simp: read_str_unfold [OF assms(1)] assms(3) [symmetric])
qed

section \<open>A schema element is what the single-value reader reads\<close>

text \<open>
  \<open>agrees\<close> compares a loop body at a cursor with a reader of the remaining bytes: the same value
  and the same number of bytes, or an error of both.
\<close>

definition agrees ::
    "usize \<Rightarrow> fault + ('a \<times> usize) \<Rightarrow> fault + ('a \<times> usize) \<Rightarrow> bool" where
  "agrees cursor at_cursor on_rest \<longleftrightarrow>
     (case on_rest of
        Inr (v, n) \<Rightarrow> at_cursor = Inr (v, cursor + n)
      | Inl _ \<Rightarrow> (\<exists>msg. at_cursor = invalid_arg msg))"

lemma agrees_ok: "on_rest = Inr (v, n) \<Longrightarrow> at_cursor = Inr (v, cursor + n) \<Longrightarrow> agrees cursor at_cursor on_rest"
  by (simp add: agrees_def)

lemma agrees_err:
  "on_rest = shm_err e \<Longrightarrow> \<exists>msg. at_cursor = invalid_arg msg \<Longrightarrow> agrees cursor at_cursor on_rest"
  by (simp add: agrees_def shm_err_def)

lemma agrees_fixed:
  assumes "length data \<le> isize_max" "unat cursor \<le> length data" "unat width < 2 ^ 33"
  shows "agrees cursor (read_fixed h width conv data cursor)
     (if length (drop (unat cursor) data) < unat width then not_enough w k n
      else Inr (conv (take (unat width) (drop (unat cursor) data)), width))"
proof (cases "length data < unat cursor + unat width")
  case True
  then have "length (drop (unat cursor) data) < unat width"
    using assms(2) by (simp add: less_diff_conv2)
  then show ?thesis
    using read_fixed_err [OF assms True, of h conv]
    by (auto simp: agrees_def not_enough_def shm_err_def)
next
  case False
  then have "\<not> length (drop (unat cursor) data) < unat width" by simp
  with False show ?thesis
    using assms by (simp add: agrees_def read_fixed_ok window_def del: length_drop)
qed

lemma unpack_one_fixed:
  "unpack_one h d ''u8'' = (if length d < unat (1 :: usize) then not_enough (squoted ''u8'') 1 (length d)
     else Inr (py_of_u8 h (take (unat (1 :: usize)) d), 1))"
  "tag \<in> {''f32'', ''i32'', ''u32''} \<Longrightarrow>
   unpack_one h d tag = (if length d < unat (4 :: usize) then not_enough (squoted tag) 4 (length d)
     else Inr ((if tag = ''f32'' then py_of_f32 h else if tag = ''i32'' then py_of_i32 h
       else py_of_u32 h) (take (unat (4 :: usize)) d), 4))"
  "tag \<in> {''int'', ''i64'', ''float'', ''f64'', ''u64''} \<Longrightarrow>
   unpack_one h d tag = (if length d < unat (8 :: usize) then not_enough (squoted tag) 8 (length d)
     else Inr ((if tag = ''u64'' then py_of_u64 h
       else if tag = ''float'' \<or> tag = ''f64'' then py_of_f64 h
       else py_of_i64 h) (take (unat (8 :: usize)) d), 8))"
  by (auto simp: unpack_one_def)

lemma element_body_table:
  assumes "element_body h tag = Some body"
  shows "(tag, body) \<in> set
     [(''bool'', read_bool h), (''u8'', read_fixed h 1 (py_of_u8 h)),
      (''f32'', read_fixed h 4 (py_of_f32 h)), (''i32'', read_fixed h 4 (py_of_i32 h)),
      (''u32'', read_fixed h 4 (py_of_u32 h)), (''int'', read_fixed h 8 (py_of_i64 h)),
      (''i64'', read_fixed h 8 (py_of_i64 h)), (''float'', read_fixed h 8 (py_of_f64 h)),
      (''f64'', read_fixed h 8 (py_of_f64 h)), (''u64'', read_fixed h 8 (py_of_u64 h)),
      (''str'', read_str h)]"
  using assms unfolding element_body_def by (simp split: if_split_asm) auto

lemma element_agrees:
  assumes "length data \<le> isize_max" "unat cursor \<le> length data"
    and "element_body h tag = Some body"
  shows "agrees cursor (body data cursor) (unpack_one h (drop (unat cursor) data) tag)"
proof -
  let ?rest = "drop (unat cursor) data"
  note fixed = agrees_fixed [OF assms(1,2)]
  have bool: "agrees cursor (read_bool h data cursor) (unpack_one h ?rest ''bool'')"
  proof (cases "?rest = []")
    case True
    then show ?thesis
      using read_bool_err [OF assms(1)] assms(2)
      by (intro agrees_err) (auto simp: unpack_one_def)
  next
    case False
    then show ?thesis
      using read_bool_ok [OF assms(1)] by (simp add: agrees_def unpack_one_def)
  qed
  have str: "agrees cursor (read_str h data cursor) (unpack_one h ?rest ''str'')"
  proof (cases "length ?rest < 4 + unat (str_len h (take 4 ?rest))")
    case True
    have "unpack_one h ?rest ''str'' = invalid_arg ''not enough data to read str length prefix''
        \<or> (\<exists>a b. unpack_one h ?rest ''str'' = not_enough ''str payload'' a b)"
      using True by (auto simp: unpack_one_def Let_def str_len_def [symmetric] unat_4_str_len)
    then show ?thesis
      using read_str_err [OF assms(1,2) refl, of h] True
      by (auto simp: agrees_def not_enough_def shm_err_def window_def)
  next
    case False
    then have "unpack_one h ?rest ''str'' =
        Inr (PyStr (from_utf8_lossy (window 4 (unat (str_len h (take 4 ?rest))) ?rest)),
             4 + str_len h (take 4 ?rest))"
      by (auto simp: unpack_one_def Let_def str_len_def [symmetric] unat_4_str_len)
    then show ?thesis
      using read_str_ok [OF assms(1) _ refl, of cursor h] False assms(2)
      by (simp add: agrees_def window_def add.assoc add.commute)
  qed
  show ?thesis
    using element_body_table [OF assms(3)] bool str fixed [of 1 h "py_of_u8 h" "squoted tag" 1]
      fixed [of 4 h _ "squoted tag" 4] fixed [of 8 h _ "squoted tag" 8]
    by (auto simp add: unpack_one_fixed simp del: length_drop)
qed

section \<open>Safety of the schema reader\<close>

text \<open>
  \<open>within data cursor r\<close>: the outcome is a value or a Python exception, and after a value the
  cursor has not moved back nor past the end of the data.
\<close>

definition within :: "u8 list \<Rightarrow> usize \<Rightarrow> fault + ('a \<times> usize) \<Rightarrow> bool" where
  "within data cursor r \<longleftrightarrow>
     (case r of
        Inr (x, c) \<Rightarrow> unat cursor \<le> unat c \<and> unat c \<le> length data
      | Inl e \<Rightarrow> (\<exists>x. e = Raise x))"

lemma within_shm_err [simp]: "within data cursor (shm_err e)"
  by (simp add: within_def shm_err_def)

lemma within_map_err: "within data cursor (bind (map_err Raise r) f)"
  if "\<And>x. r = Inr x \<Longrightarrow> within data cursor (f x)"
  using that by (cases r) (auto simp: within_def)

lemma within_bind:
  assumes "within data cursor r"
    and "\<And>x c. r = Inr (x, c) \<Longrightarrow> unat c \<le> length data \<Longrightarrow> within data c (f (x, c))"
  shows "within data cursor (bind r f)"
proof (cases r)
  case (Inl e)
  then show ?thesis using assms(1) by (simp add: within_def)
next
  case (Inr xc)
  obtain x c where "xc = (x, c)" by fastforce
  with Inr assms show ?thesis
    by (fastforce simp: within_def split: sum.splits)
qed

lemma element_within:
  assumes "length data \<le> isize_max" "unat cursor \<le> length data"
    and "element_body h tag = Some body"
  shows "within data cursor (body data cursor)"
proof (cases "unpack_one h (drop (unat cursor) data) tag")
  case (Inl e)
  then show ?thesis using element_agrees [OF assms] by (auto simp: agrees_def)
next
  case (Inr vn)
  obtain v n where vn: "vn = (v, n)" by fastforce
  then have "unat n \<le> length (drop (unat cursor) data)"
    using unpack_one_bounds [of h "drop (unat cursor) data" tag v n] Inr by blast
  then have "unat cursor + unat n \<le> length data"
    using assms(2) by simp
  then show ?thesis
    using element_agrees [OF assms] Inr vn uadd_cursor(2) [OF assms(1)]
    by (simp add: agrees_def within_def)
qed

lemma for_count_within:
  assumes "length data \<le> isize_max" "element_body h tag = Some body"
  shows "unat cursor \<le> length data \<Longrightarrow> within data cursor (for_count (body data) n cursor grp)"
proof (induction n arbitrary: cursor grp)
  case 0
  then show ?case by (simp add: within_def)
next
  case (Suc n)
  show ?case
    unfolding for_count.simps
    by (rule within_bind [OF element_within [OF assms(1) Suc.prems assms(2)]])
      (simp add: Suc.IH)
qed

lemma for_count_length:
  "for_count body n cursor grp = Inr (vs, c) \<Longrightarrow> length vs = length grp + n"
  by (induction n arbitrary: cursor grp) (fastforce simp: bind_eq_Inr)+

lemma unpack_group_within:
  "length data \<le> isize_max \<Longrightarrow> unat cursor \<le> length data \<Longrightarrow>
   within data cursor (unpack_group h data tag count cursor)"
  by (auto simp: unpack_group_def for_count_within split: option.splits)

lemma unpack_group_length:
  "unpack_group h data tag count cursor = Inr (vs, c) \<Longrightarrow> length vs = unat count"
  by (auto simp: unpack_group_def dest: for_count_length split: option.splits)

lemma handled_py_item [simp]: "handled (py_item xs i)"
  by (simp add: py_item_def)

lemma within_py_item:
  "(\<And>x. py_item xs i = Inr x \<Longrightarrow> within data cursor (f x)) \<Longrightarrow>
   within data cursor (bind (py_item xs i) f)"
  by (auto simp: py_item_def within_def)

lemma unpack_entries_within:
  "length data \<le> isize_max \<Longrightarrow> unat cursor \<le> length data \<Longrightarrow>
   within data cursor (unpack_entries h data schema cursor result)"
proof (induction schema arbitrary: cursor result)
  case Nil
  then show ?case by (simp add: within_def)
next
  case (Cons item schema)
  show ?case
  proof (cases item)
    case (PyTuple flds)
    have entry: "within data c (bind (if cnt = 1 then py_item grp 0 else Inr (PyList grp))
        (\<lambda>entry. unpack_entries h data schema c (result @ [entry])))"
      if "unat c \<le> length data" for cnt :: usize and grp c
      using Cons that by (auto intro: within_py_item)
    show ?thesis
      unfolding PyTuple unpack_entries.simps py.case
      by (intro within_py_item within_map_err within_bind [OF unpack_group_within])
        (use Cons.prems entry in auto)
  qed auto
qed

lemma unpack_mixed_within:
  "length data \<le> isize_max \<Longrightarrow> within data 0 (unpack_mixed_counted h data schema)"
  by (simp add: unpack_mixed_counted_def unpack_entries_within)

end
