(* ===== verification/Codec.thy ===== *)
theory Codec
  imports Mixed
begin

text \<open>
  The contract of the value codec: an abstract storage format (\<open>stored\<close>, the table of the README),
  the interface every reader of stored values offers (locale \<open>codec\<close>, and \<open>cursor_codec\<close> for readers
  that keep a cursor), its interpretation on the functions of \<open>Mixed\<close>, and the round trips.
\<close>

section \<open>The storage format\<close>

fun stored :: "endian \<Rightarrow> py \<Rightarrow> u8 list option" where
  "stored e (PyBool b) = Some [if b then 1 else 0]"
| "stored e (PyInt n) = (if in_i64 n then Some (to_ne_bytes e (word_of_int n :: i64)) else None)"
| "stored e (PyFloat w) = Some (to_ne_bytes e w)"
| "stored e (PyStr cs) =
     (if list_all is_scalar cs
      then Some (to_ne_bytes e (of_nat (length (utf8_encode cs)) :: u32) @ utf8_encode cs)
      else None)"
| "stored e (PyBytes bs) = Some bs"
| "stored e (PyByteArray bs) = Some bs"
| "stored e v = None"

lemma ucast_slice_len: "(ucast (slice_len xs) :: u32) = of_nat (length xs)"
  by (simp add: slice_len_def unsigned_of_nat take_bit_of_nat [symmetric] take_bit_word_eq_self)

lemma vec_extend_extend:
  "bind (vec_extend out xs) (\<lambda>out. vec_extend out ys) = vec_extend out (xs @ ys)"
  by (auto simp: vec_extend_def)

lemma pack_value_stored:
  assumes "host_ok h" "stored (byte_order h) v = Some bs"
  shows "pack_value h v out = vec_extend out bs"
  using assms
  by (cases v) (auto simp: host_i64 host_str ucast_slice_len vec_extend_extend split: if_splits)

lemma pack_value_not_stored:
  assumes "host_ok h" "stored (byte_order h) v = None"
  shows "\<exists>x. pack_value h v out = py_raise x"
  using assms host_i64_err [OF assms(1)] host_str_err [OF assms(1)]
  by (cases v) (fastforce simp: shm_err_def split: if_splits)+

lemma pack_value_eq_Inr:
  assumes "host_ok h"
  shows "pack_value h v out = Inr out' \<longleftrightarrow>
     (\<exists>bs. stored (byte_order h) v = Some bs \<and> out' = out @ bs \<and> length out' \<le> isize_max)"
proof (cases "stored (byte_order h) v")
  case None
  then show ?thesis using pack_value_not_stored [OF assms None, of out] by auto
next
  case (Some bs)
  then show ?thesis using pack_value_stored [OF assms Some]
    by (auto simp: vec_extend_def)
qed

fun stored_all :: "endian \<Rightarrow> py list \<Rightarrow> u8 list option" where
  "stored_all e [] = Some []"
| "stored_all e (v # vs) =
     (case (stored e v, stored_all e vs) of (Some bs, Some cs) \<Rightarrow> Some (bs @ cs) | _ \<Rightarrow> None)"

lemma pack_all_eq_Inr:
  assumes "host_ok h"
  shows "length out \<le> isize_max \<Longrightarrow> pack_all h vs out = Inr out' \<longleftrightarrow>
     (\<exists>bs. stored_all (byte_order h) vs = Some bs \<and> out' = out @ bs \<and> length out' \<le> isize_max)"
proof (induction vs arbitrary: out)
  case (Cons v vs)
  have IH: "length (out @ bs) \<le> isize_max \<Longrightarrow> pack_all h vs (out @ bs) = Inr out' \<longleftrightarrow>
      (\<exists>cs. stored_all (byte_order h) vs = Some cs \<and> out' = out @ bs @ cs \<and>
         length out' \<le> isize_max)" for bs
    using Cons.IH [of "out @ bs"] by simp
  show ?case
  proof (cases "stored (byte_order h) v")
    case None
    then show ?thesis by (simp add: bind_eq_Inr pack_value_eq_Inr [OF assms])
  next
    case (Some bs)
    have "pack_all h (v # vs) out = Inr out' \<longleftrightarrow>
        length (out @ bs) \<le> isize_max \<and> pack_all h vs (out @ bs) = Inr out'"
      using Some by (auto simp: bind_eq_Inr pack_value_eq_Inr [OF assms])
    also have "\<dots> \<longleftrightarrow> (\<exists>cs. stored_all (byte_order h) vs = Some cs \<and> out' = out @ bs @ cs \<and>
         length out' \<le> isize_max)"
      using IH [of bs] by auto
    finally show ?thesis using Some by (auto split: option.splits)
  qed
qed auto

section \<open>The interface of a reader of stored values\<close>

locale codec =
  fixes enc :: "'v \<Rightarrow> u8 list"
    and dec :: "u8 list \<Rightarrow> fault + (py \<times> usize)"
    and view :: "'v \<Rightarrow> py"
    and ok :: "'v \<Rightarrow> bool"
  assumes dec_enc: "ok v \<Longrightarrow> dec (enc v @ rest) = Inr (view v, of_nat (length (enc v)))"

locale cursor_codec = codec +
  fixes body :: "u8 list \<Rightarrow> usize \<Rightarrow> fault + (py \<times> usize)"
  assumes body_dec: "length data \<le> isize_max \<Longrightarrow> unat c \<le> length data \<Longrightarrow>
    agrees c (body data c) (dec (drop (unat c) data))"
begin

lemma body_enc:
  assumes "ok v" "length (pre @ enc v @ rest) \<le> isize_max"
  shows "body (pre @ enc v @ rest) (of_nat (length pre)) =
     Inr (view v, of_nat (length (pre @ enc v)))"
proof -
  have "unat (of_nat (length pre) :: usize) = length pre"
    using assms(2) by (intro unat_of_nat_isize) simp
  then show ?thesis
    using body_dec [OF assms(2), of "of_nat (length pre)"] dec_enc [OF assms(1), of rest]
    by (simp add: agrees_def)
qed

lemma for_count_enc:
  "list_all ok vs \<Longrightarrow> length (pre @ concat (map enc vs) @ rest) \<le> isize_max \<Longrightarrow>
   for_count (body (pre @ concat (map enc vs) @ rest)) (length vs) (of_nat (length pre)) acc =
     Inr (acc @ map view vs, of_nat (length (pre @ concat (map enc vs))))"
proof (induction vs arbitrary: pre acc)
  case (Cons v vs)
  show ?case
    using Cons.prems body_enc [of v pre "concat (map enc vs) @ rest"]
      Cons.IH [of "pre @ enc v" "acc @ [view v]"] by simp
qed simp

end

section \<open>The model provides it\<close>

text \<open>Which values a tag reads back unchanged.\<close>

fun readable :: "string \<Rightarrow> py \<Rightarrow> bool" where
  "readable tag (PyBool b) = (tag = ''bool'')"
| "readable tag (PyInt n) = ((tag = ''int'' \<or> tag = ''i64'') \<and> in_i64 n)"
| "readable tag (PyFloat w) = (tag = ''float'' \<or> tag = ''f64'')"
| "readable tag (PyStr cs) =
     (tag = ''str'' \<and> list_all is_scalar cs \<and> length (utf8_encode cs) < 2 ^ 32)"
| "readable tag v = False"

definition stored_bytes :: "endian \<Rightarrow> py \<Rightarrow> u8 list" where
  "stored_bytes e v = (case stored e v of Some bs \<Rightarrow> bs | None \<Rightarrow> [])"

lemma readable_stored: "readable tag v \<Longrightarrow> stored e v = Some (stored_bytes e v)"
  by (cases v) (auto simp: stored_bytes_def)

lemma sint_word_of_int_i64: "in_i64 n \<Longrightarrow> sint (word_of_int n :: i64) = n"
  by (simp add: in_i64_def sint_sbintrunc' signed_take_bit_int_eq_self)

lemma unpack_one_prefixed:
  assumes "unat (w :: u32) \<le> length bs"
  shows "unpack_one h (to_ne_bytes (byte_order h) w @ bs) ''str'' =
     Inr (PyStr (from_utf8_lossy (take (unat w) bs)), 4 + ucast w)"
proof -
  have "4 + unat w < 2 ^ 64" using unat_u32_less [of w] by simp
  then have "unat (4 + ucast w :: usize) = 4 + unat w"
    by (subst unat_add_usize) simp_all
  with assms show ?thesis
    by (simp add: unpack_one_def Let_def window_def)
qed

lemma prefix_len_usize:
  assumes "n < 2 ^ 32"
  shows "4 + ucast (of_nat n :: u32) = (of_nat (4 + n) :: usize)"
proof -
  have "(ucast (of_nat n :: u32) :: usize) = of_nat n"
    using unat_of_nat_u32 [OF assms] assms by (simp only: word_unat_eq_iff unat_ucast_u32)
      (simp add: unat_of_nat_usize)
  then show ?thesis by simp
qed

lemma unpack_one_str:
  assumes "length bs < 2 ^ 32"
  shows "unpack_one h (to_ne_bytes (byte_order h) (of_nat (length bs) :: u32) @ bs @ rest) ''str'' =
     Inr (PyStr (from_utf8_lossy bs), of_nat (4 + length bs))"
  using unpack_one_prefixed [of "of_nat (length bs)" "bs @ rest" h]
  by (simp only: unat_of_nat_u32 [OF assms] prefix_len_usize [OF assms]) simp

lemma unpack_one_stored:
  assumes "readable tag v"
  shows "unpack_one h (stored_bytes (byte_order h) v @ rest) tag =
     Inr (v, of_nat (length (stored_bytes (byte_order h) v)))"
proof (cases v)
  case (PyStr cs)
  then show ?thesis
    using assms unpack_one_str [of "utf8_encode cs" h rest]
    by (simp add: stored_bytes_def from_utf8_lossy_encode)
qed (use assms in \<open>auto simp: stored_bytes_def unpack_one_def py_of_i64_def py_of_f64_def
  sint_word_of_int_i64\<close>)

definition read_element ::
    "host \<Rightarrow> string \<Rightarrow> u8 list \<Rightarrow> usize \<Rightarrow> fault + (py \<times> usize)" where
  "read_element h tag data =
     (case element_body h tag of Some body \<Rightarrow> body data | None \<Rightarrow> (\<lambda>_. invalid_arg tag))"

lemma unknown_tag:
  assumes "element_body h tag = None"
  shows "\<exists>msg. unpack_one h data tag = invalid_arg msg"
  using assms unfolding element_body_def unpack_one_def by (simp split: if_split_asm)

lemma read_element_agrees:
  assumes "length data \<le> isize_max" "unat c \<le> length data"
  shows "agrees c (read_element h tag data c) (unpack_one h (drop (unat c) data) tag)"
proof (cases "element_body h tag")
  case None
  then show ?thesis
    using unknown_tag [OF None, of "drop (unat c) data"]
    by (auto simp: read_element_def intro: agrees_err)
next
  case (Some body)
  then show ?thesis using element_agrees [OF assms Some] by (simp add: read_element_def)
qed

interpretation value_codec: cursor_codec
  "stored_bytes (byte_order h)" "\<lambda>data. unpack_one h data tag" "\<lambda>v. v" "readable tag"
  "read_element h tag"
  for h tag
  by unfold_locales (simp_all add: unpack_one_stored read_element_agrees)

lemma readable_element_body: "readable tag v \<Longrightarrow> \<exists>body. element_body h tag = Some body"
  by (cases v) (auto simp: element_body_def)

section \<open>Round trips\<close>

lemma pack_unpack_one:
  assumes "host_ok h" "readable tag v" "pack_value h v [] = Inr bs"
  shows "unpack_one h (bs @ rest) tag = Inr (v, slice_len bs)"
  using assms readable_stored [OF assms(2), of "byte_order h"]
  by (simp add: pack_value_eq_Inr value_codec.dec_enc slice_len_def)

lemma stored_all_readable:
  "list_all (readable tag) vs \<Longrightarrow>
   stored_all e vs = Some (concat (map (stored_bytes e) vs))"
  by (induction vs) (auto simp: readable_stored [of tag])

lemma unpack_group_stored:
  assumes "list_all (readable tag) vs" "element_body h tag = Some body"
    and "data = pre @ concat (map (stored_bytes (byte_order h)) vs) @ rest"
    and "length data \<le> isize_max" "length vs < 2 ^ 64"
  shows "unpack_group h data tag (of_nat (length vs)) (of_nat (length pre)) =
     Inr (vs, of_nat (length (pre @ concat (map (stored_bytes (byte_order h)) vs))))"
  using value_codec.for_count_enc [OF assms(1), of pre h rest "[]"] assms(2-)
  by (simp add: unpack_group_def read_element_def unat_of_nat_usize)

text \<open>
  The schema of a message and its items: a group is a tag with its values, written as a nested list
  and described by the pair of the tag and the number of values.
\<close>

type_synonym group = "string \<times> py list"

definition group_item :: "group \<Rightarrow> py" where
  "group_item g = PyList (snd g)"

lemma case_group_item [simp]:
  "(case group_item g of PyList sub \<Rightarrow> f sub | _ \<Rightarrow> r) = f (snd g)"
  by (simp add: group_item_def)

definition group_schema :: "group \<Rightarrow> py" where
  "group_schema g = PyTuple [py_str (fst g), PyInt (int (length (snd g)))]"

definition group_result :: "group \<Rightarrow> py" where
  "group_result g = (if length (snd g) = 1 then snd g ! 0 else PyList (snd g))"

definition group_ok :: "host \<Rightarrow> group \<Rightarrow> bool" where
  "group_ok h g \<longleftrightarrow>
     is_ascii (fst g) \<and> element_body h (fst g) \<noteq> None \<and> list_all (readable (fst g)) (snd g) \<and>
     length (snd g) < 2 ^ 64"

definition group_bytes :: "host \<Rightarrow> group \<Rightarrow> u8 list" where
  "group_bytes h g = concat (map (stored_bytes (byte_order h)) (snd g))"

lemma pack_items_groups:
  assumes "host_ok h"
  shows "list_all (group_ok h) gs \<Longrightarrow> length out \<le> isize_max \<Longrightarrow>
    pack_items h (map group_item gs) out = Inr out' \<Longrightarrow>
    out' = out @ concat (map (group_bytes h) gs) \<and> length out' \<le> isize_max"
proof (induction gs arbitrary: out)
  case (Cons g gs)
  then obtain o1 where o1: "pack_all h (snd g) out = Inr o1"
    and rest: "pack_items h (map group_item gs) o1 = Inr out'"
    by (auto simp: bind_eq_Inr)
  have "stored_all (byte_order h) (snd g) = Some (group_bytes h g)"
    using Cons.prems(1) stored_all_readable [of "fst g" "snd g"]
    by (simp add: group_ok_def group_bytes_def)
  with o1 have "o1 = out @ group_bytes h g" "length o1 \<le> isize_max"
    using pack_all_eq_Inr [OF assms Cons.prems(2)] by auto
  then show ?case using Cons.IH [OF _ _ rest] Cons.prems(1) by auto
qed simp

lemma unpack_entries_groups:
  assumes "host_ok h"
  shows "list_all (group_ok h) gs \<Longrightarrow>
    data = pre @ concat (map (group_bytes h) gs) @ rest \<Longrightarrow> length data \<le> isize_max \<Longrightarrow>
    unpack_entries h data (map group_schema gs) (of_nat (length pre)) result =
      Inr (result @ map group_result gs, of_nat (length (pre @ concat (map (group_bytes h) gs))))"
proof (induction gs arbitrary: pre result)
  case (Cons g gs)
  obtain body where body: "element_body h (fst g) = Some body"
    using Cons.prems(1) by (auto simp: group_ok_def)
  have grp: "unpack_group h data (fst g) (of_nat (length (snd g))) (of_nat (length pre)) =
      Inr (snd g, of_nat (length (pre @ group_bytes h g)))"
    using Cons.prems body unfolding group_bytes_def [of h g]
    by (intro unpack_group_stored [where rest = "concat (map (group_bytes h) gs) @ rest"])
      (auto simp: group_ok_def group_bytes_def [of h g])
  have one: "of_nat (length (snd g)) = (1 :: usize) \<longleftrightarrow> length (snd g) = 1"
    using Cons.prems(1) unat_of_nat_usize [of "length (snd g)"]
    by (auto simp: group_ok_def dest: arg_cong [where f = unat])
  have "unpack_entries h data (map group_schema gs) (of_nat (length (pre @ group_bytes h g)))
      (result @ [group_result g]) =
    Inr ((result @ [group_result g]) @ map group_result gs,
      of_nat (length ((pre @ group_bytes h g) @ concat (map (group_bytes h) gs))))"
    using Cons.prems by (intro Cons.IH) auto
  moreover have "extract_string h (py_str (fst g)) = Inr (fst g)"
    and "extract_usize h (PyInt (int (length (snd g)))) = Inr (of_nat (length (snd g)))"
    using Cons.prems(1) by (simp_all add: group_ok_def host_string [OF assms] host_usize [OF assms])
  ultimately show ?case
    using grp one
    by (cases "length (snd g) = 1")
      (simp_all add: group_schema_def [of g] group_result_def [of g] py_item_def
        del: length_greater_0_conv)
qed simp

lemma pack_unpack_mixed:
  assumes "host_ok h" "list_all (group_ok h) gs"
    and "pack_mixed h (map group_item gs) = Inr bs" "length (bs @ rest) \<le> isize_max"
  shows "unpack_mixed_counted h (bs @ rest) (map group_schema gs) =
     Inr (map group_result gs, slice_len bs)"
proof -
  have "bs = concat (map (group_bytes h) gs)"
    using pack_items_groups [OF assms(1,2), of "[]" bs] assms(3) by (simp add: pack_mixed_def)
  then show ?thesis
    using unpack_entries_groups [OF assms(1,2), of "bs @ rest" "[]" rest "[]"] assms(4)
    by (simp add: unpack_mixed_counted_def slice_len_def)
qed

section \<open>Packed values fit a vector\<close>

lemma vec_extend_length: "vec_extend out bs = Inr out' \<Longrightarrow> length out' \<le> isize_max"
  by (auto simp: vec_extend_def split: if_splits)

lemma pack_value_length: "pack_value h v out = Inr out' \<Longrightarrow> length out' \<le> isize_max"
  by (cases v) (auto simp: bind_eq_Inr dest: vec_extend_length)

lemma pack_all_length: "pack_all h vs out = Inr out' \<Longrightarrow> length out \<le> isize_max \<Longrightarrow> length out' \<le> isize_max"
  by (induction vs arbitrary: out) (auto simp: bind_eq_Inr dest: pack_value_length)

lemma pack_items_length:
  "pack_items h vs out = Inr out' \<Longrightarrow> length out \<le> isize_max \<Longrightarrow> length out' \<le> isize_max"
proof (induction vs arbitrary: out)
  case (Cons v vs)
  then obtain out1 where
    "(case v of PyList sub \<Rightarrow> pack_all h sub out | _ \<Rightarrow> pack_value h v out) = Inr out1"
    and rest: "pack_items h vs out1 = Inr out'"
    by (auto simp: bind_eq_Inr)
  then have "length out1 \<le> isize_max"
    using Cons.prems(2)
    by (cases v) (auto simp: bind_eq_Inr dest: vec_extend_length pack_all_length)
  then show ?case using Cons.IH [OF rest] by simp
qed simp

lemma pack_mixed_length: "pack_mixed h items = Inr bs \<Longrightarrow> length bs \<le> isize_max"
  using pack_items_length [of h items "[]" bs] by (simp add: pack_mixed_def)

end
