(* ===== verification/CodecProps.thy ===== *)
theory CodecProps
  imports Codec
begin

text \<open>
  The properties of the value codec: round trips between packing and reading, the storage table, the
  outcome of malformed input, and the error conversions.
\<close>

text \<open>
  C10: Round trip of whole messages: whatever pack_mixed accepts for a list of groups, one nested list
  per tag of values of the type of that tag (strings below 4 GiB), unpack_mixed reads back from those
  bytes, also with other bytes behind them, by the schema of the pairs (tag, number of values): the
  same values, group by group (a group of one value as the value itself), and it reports exactly the
  packed length.
\<close>

theorem mixed_roundtrip:
  assumes "host_ok h" "list_all (group_ok h) gs"
    and "pack_mixed h (map group_item gs) = Inr bs" "length (bs @ rest) \<le> isize_max"
  shows "unpack_mixed_counted h (bs @ rest) (map group_schema gs) = Inr (map group_result gs, slice_len bs)"
  by (rule pack_unpack_mixed [OF assms])

theorem mixed_roundtrip_witness:
  "\<exists>bs. pack_mixed le_host [PyList [PyInt 5, PyInt (-7)], PyList [PyBool True]] = Inr bs \<and>
    unpack_mixed_counted le_host (bs @ [9])
      [PyTuple [py_str ''i64'', PyInt 2], PyTuple [py_str ''bool'', PyInt 1]] =
      Inr ([PyList [PyInt 5, PyInt (-7)], PyBool True], 17)"
proof -
  let ?gs = "[(''i64'', [PyInt 5, PyInt (-7)]), (''bool'', [PyBool True])]"
  have ok: "list_all (group_ok le_host) ?gs"
    by (simp add: group_ok_def element_body_def in_i64_def is_ascii_def)
  have pack: "pack_mixed le_host (map group_item ?gs) =
      Inr (to_ne_bytes LittleEndian (5 :: i64) @ to_ne_bytes LittleEndian (-7 :: i64) @ [1])"
    by (simp add: pack_mixed_def group_item_def cpython_def in_i64_def vec_extend_def isize_max_def)
  show ?thesis
    using mixed_roundtrip [OF cpython_ok ok pack, of "[9]"] pack
    by (simp add: group_item_def group_schema_def group_result_def slice_len_def isize_max_def)
qed

text \<open>
  C26: Round trip of one value: what pack_value appends for a bool, an int of 64 bits, a float or a
  string of less than 4 GiB without lone surrogates, unpack_one gives back by the matching tag,
  whatever bytes follow, and it consumes exactly the bytes written.
\<close>

theorem value_roundtrip:
  assumes "host_ok h" "readable tag v" "pack_value h v [] = Inr bs"
  shows "unpack_one h (bs @ rest) tag = Inr (v, slice_len bs)"
  by (rule pack_unpack_one [OF assms])

theorem value_roundtrip_witness:
  "\<exists>bs. pack_value le_host (PyStr [0xE9]) [] = Inr bs \<and>
    unpack_one le_host (bs @ [9]) ''str'' = Inr (PyStr [0xE9], 6)"
proof -
  let ?bs = "to_ne_bytes LittleEndian (2 :: u32) @ [0xC3, 0xA9]"
  have enc: "utf8_encode [0xE9] = [0xC3, 0xA9]"
    by (simp add: utf8_encode_def utf8_encode_char_def)
  have "pack_value le_host (PyStr [0xE9]) [] = Inr ?bs"
    by (simp add: cpython_def is_scalar_def enc vec_extend_def isize_max_def slice_len_def)
  then show ?thesis
    using value_roundtrip [OF cpython_ok, of "''str''" "PyStr [0xE9]" LittleEndian False ?bs]
    by (simp add: is_scalar_def enc slice_len_def)
qed

text \<open>
  C34: Packing follows the storage table: pack_value succeeds exactly on the values that have a
  stored form (an int that fits 64 bits, a string without lone surrogates, any bool, float, bytes or
  bytearray) and appends exactly that form; on anything else it raises, and it never panics while the
  vector stays below isize::MAX bytes.
\<close>

theorem pack_follows_table:
  assumes "host_ok h" "\<forall>bs. stored (byte_order h) v = Some bs \<longrightarrow> length out + length bs \<le> isize_max"
  shows "case stored (byte_order h) v of
      Some bs \<Rightarrow> pack_value h v out = Inr (out @ bs)
    | None \<Rightarrow> \<exists>x. pack_value h v out = py_raise x"
  using pack_value_stored [OF assms(1)] pack_value_not_stored [OF assms(1)] assms(2)
  by (auto simp: vec_extend_def split: option.splits)

theorem pack_follows_table_witness:
  "(\<exists>x. pack_value le_host (PyInt (2 ^ 63)) [] = py_raise x) \<and>
    pack_value le_host (PyBool True) [7] = Inr [7, 1]"
  using pack_follows_table [OF cpython_ok, of LittleEndian False "PyInt (2 ^ 63)" "[]"]
    pack_follows_table [OF cpython_ok, of LittleEndian False "PyBool True" "[7]"]
  by (simp add: in_i64_def isize_max_def)

text \<open>
  C19: Reading arbitrary bytes is safe: for any data a slice can hold, any tag and any schema object,
  unpack_one and unpack_mixed_counted return a value or raise a Python exception; they never panic,
  in any build profile, and never report more bytes consumed than there are.
\<close>

theorem unpack_safe:
  assumes "length data \<le> isize_max"
  shows "(case unpack_one h data tag of Inl e \<Rightarrow> \<exists>x. e = Raise x | Inr (v, n) \<Rightarrow> unat n \<le> length data) \<and>
    (case unpack_mixed_counted h data schema of
       Inl e \<Rightarrow> \<exists>x. e = Raise x | Inr (vs, n) \<Rightarrow> unat n \<le> length data)"
proof
  show "case unpack_one h data tag of Inl e \<Rightarrow> \<exists>x. e = Raise x | Inr (v, n) \<Rightarrow> unat n \<le> length data"
    using handled_unpack_one [of h data tag] unpack_one_bounds [of h data tag]
    by (cases "unpack_one h data tag") (auto simp: handled_Inl)
  show "case unpack_mixed_counted h data schema of
       Inl e \<Rightarrow> \<exists>x. e = Raise x | Inr (vs, n) \<Rightarrow> unat n \<le> length data"
    using unpack_mixed_within [OF assms, of h schema]
    by (auto simp: within_def split: sum.splits)
qed

theorem unpack_safe_witness:
  "case unpack_mixed_counted le_host [1, 2, 3] [PyTuple [py_str ''u8'', PyInt 9]] of
     Inl e \<Rightarrow> \<exists>x. e = Raise x | Inr (vs, n) \<Rightarrow> unat n \<le> length [1, 2, 3 :: u8]"
proof -
  have "length [1, 2, 3 :: u8] \<le> isize_max" by (simp add: isize_max_def)
  from conjunct2 [OF unpack_safe [OF this, of le_host "''u8''" "[PyTuple [py_str ''u8'', PyInt 9]]"]]
  show ?thesis .
qed

text \<open>
  C28: The two readers agree: reading an element of a schema at a cursor gives the value and the
  number of bytes that unpack_one gives on the remaining bytes with the same tag, and fails exactly
  when it fails.
\<close>

theorem readers_agree:
  assumes "length data \<le> isize_max" "unat c \<le> length data" "element_body h tag = Some body"
  shows "case unpack_one h (drop (unat c) data) tag of
      Inr (v, n) \<Rightarrow> body data c = Inr (v, c + n)
    | Inl _ \<Rightarrow> \<exists>msg. body data c = py_raise (PyValueError msg)"
  using element_agrees [OF assms]
  by (auto simp: agrees_def shm_err_InvalidArg split: sum.splits)

theorem readers_agree_witness:
  "read_bool le_host [7, 0] 1 = Inr (PyBool False, 2)"
proof -
  have "element_body le_host ''bool'' = Some (read_bool le_host)" by (simp add: element_body_def)
  then show ?thesis
    using readers_agree [of "[7, 0]" 1 le_host "''bool''" "read_bool le_host"]
    by (simp add: isize_max_def unpack_one_def)
qed

text \<open>
  C40: A str read from arbitrary bytes is well formed: whatever the payload, the result consists of
  Unicode scalar values, at most one per payload byte, invalid sequences having been replaced; and
  when the payload is the UTF-8 encoding of scalar values, the result is exactly those.
\<close>

theorem str_read_wellformed:
  assumes "unpack_one h data ''str'' = Inr (v, n)"
  shows "\<exists>cs payload. v = PyStr cs \<and> payload = window 4 (unat n - 4) data \<and> 4 + length payload = unat n \<and>
    list_all is_scalar cs \<and> length cs \<le> length payload \<and>
    (\<forall>ds. list_all is_scalar ds \<longrightarrow> payload = utf8_encode ds \<longrightarrow> cs = ds)"
proof -
  let ?len = "str_len h (take 4 data)"
  have eq: "unpack_one h data ''str'' =
      (if length data < 4 then invalid_arg ''not enough data to read str length prefix''
       else if length data < unat (4 + ?len) then
         not_enough ''str payload'' (unat (4 + ?len)) (length data)
       else Inr (PyStr (from_utf8_lossy (window 4 (unat ?len) data)), 4 + ?len))"
    by (simp add: unpack_one_def split del: if_split) (simp only: Let_def str_len_def)
  have ok: "\<not> length data < 4" "\<not> length data < unat (4 + ?len)"
    using assms unfolding eq not_enough_def by (metis shm_err_not_Inr(1))+
  then have "Inr (PyStr (from_utf8_lossy (window 4 (unat ?len) data)), 4 + ?len) = (Inr (v, n) :: fault + (py \<times> usize))"
    using assms unfolding eq by (simp only: if_False)
  then have n: "n = 4 + ?len" and v: "v = PyStr (from_utf8_lossy (window 4 (unat ?len) data))"
    by (simp_all only: sum.inject prod.inject)
  have fits: "unat (4 + ?len) \<le> length data" using ok(2) by (rule leI)
  have "unat n - 4 = unat ?len" unfolding n unat_4_str_len by simp
  then have pay: "window 4 (unat n - 4) data = window 4 (unat ?len) data" by simp
  have len: "4 + length (window 4 (unat ?len) data) = unat n"
    using fits unfolding n unat_4_str_len by simp
  let ?p = "window 4 (unat n - 4) data"
  show ?thesis
  proof (intro exI conjI allI impI)
    show "v = PyStr (from_utf8_lossy ?p)" unfolding pay by (rule v)
    show "?p = ?p" ..
    show "4 + length ?p = unat n" unfolding pay by (rule len)
    show "list_all is_scalar (from_utf8_lossy ?p)" by (rule from_utf8_lossy_scalar)
    show "length (from_utf8_lossy ?p) \<le> length ?p" by (rule length_from_utf8_lossy)
    show "from_utf8_lossy ?p = ds" if "list_all is_scalar ds" "?p = utf8_encode ds" for ds
      unfolding that(2) by (rule from_utf8_lossy_encode [OF that(1)])
  qed
qed

theorem str_read_wellformed_witness:
  "\<exists>cs. unpack_one le_host (to_ne_bytes LittleEndian (2 :: u32) @ [0xFF, 0x41]) ''str'' = Inr (PyStr cs, 6) \<and>
    list_all is_scalar cs \<and> length cs \<le> 2"
proof -
  have "unpack_one le_host (to_ne_bytes LittleEndian (2 :: u32) @ [0xFF, 0x41]) ''str'' =
      Inr (PyStr (from_utf8_lossy [0xFF, 0x41]), 6)"
    using unpack_one_prefixed [of 2 "[0xFF, 0x41]" le_host] by simp
  from str_read_wellformed [OF this] this show ?thesis by (auto simp: window_def)
qed

text \<open>
  A str whose length prefix is cut to 32 bits is misread: for a string of 4 GiB or more of
  ASCII, what pack_value stores reads back as its first (length mod 2^32) characters.
\<close>

theorem str_prefix_truncates:
  assumes "host_ok h" "list_all (\<lambda>c. c < 128) cs" "2 ^ 32 \<le> length cs" "4 + length cs \<le> isize_max"
  shows "\<exists>bs n. pack_value h (PyStr cs) [] = Inr bs \<and>
    unpack_one h bs ''str'' = Inr (PyStr (take (length cs mod 2 ^ 32) cs), n)"
proof -
  have sc: "list_all is_scalar cs"
    using assms(2) by (auto simp: list_all_iff is_scalar_def)
  have enc: "utf8_encode cs = map of_nat cs" by (rule utf8_encode_ascii [OF assms(2)])
  let ?w = "of_nat (length cs) :: u32"
  have w: "unat ?w = length cs mod 2 ^ 32" by (simp add: unat_of_nat take_bit_eq_mod)
  have "stored (byte_order h) (PyStr cs) = Some (to_ne_bytes (byte_order h) ?w @ map of_nat cs)"
    using sc enc by simp
  then have pack: "pack_value h (PyStr cs) [] = Inr (to_ne_bytes (byte_order h) ?w @ map of_nat cs)"
    using pack_value_stored [OF assms(1), of "PyStr cs" _ "[]"] assms(4) by (simp add: vec_extend_def)
  have "list_all is_scalar (take n cs)" "list_all (\<lambda>c. c < 128) (take n cs)" for n
    using sc assms(2) by (auto simp: list_all_iff dest: in_set_takeD)
  then have "from_utf8_lossy (take (unat ?w) (map of_nat cs)) = take (length cs mod 2 ^ 32) cs"
    unfolding w take_map utf8_encode_ascii [symmetric] using from_utf8_lossy_encode utf8_encode_ascii
    by metis
  moreover have "unat ?w \<le> length (map of_nat cs :: u8 list)" unfolding w by simp
  ultimately show ?thesis using pack unpack_one_prefixed [of ?w "map of_nat cs" h] by auto
qed

theorem str_prefix_truncates_witness:
  "\<exists>cs bs n. length cs = 2 ^ 32 \<and> pack_value le_host (PyStr cs) [] = Inr bs \<and>
    unpack_one le_host bs ''str'' = Inr (PyStr [], n)"
proof -
  obtain us :: "unit list" where us: "length us = 2 ^ 32" using Ex_list_of_length by blast
  let ?cs = "map (\<lambda>_. 65 :: codepoint) us"
  have "list_all (\<lambda>c. c < 128) ?cs" by (simp add: list_all_iff)
  moreover have len: "length ?cs = 2 ^ 32" using us by simp
  ultimately obtain bs n where "pack_value le_host (PyStr ?cs) [] = Inr bs"
    "unpack_one le_host bs ''str'' = Inr (PyStr (take (length ?cs mod 2 ^ 32) ?cs), n)"
    using str_prefix_truncates [OF cpython_ok, of ?cs LittleEndian False] by (auto simp: isize_max_def)
  then show ?thesis using len by (intro exI [of _ ?cs] exI [of _ bs] exI [of _ n]) simp
qed

end
