(* ===== verification/Memory.thy ===== *)
theory Memory
  imports Host
begin

text \<open>
  The mapped region: a byte array addressed by offsets from the pointer the mapping returned. Every
  raw access states its bounds; outside the region the language gives no meaning to it (\<open>UB\<close>).
  The locale \<open>field\<close> is the interface of an atomic or plain integer kept at a fixed offset.
\<close>

type_synonym memory = "u8 list"

definition load_u8 :: "nat \<Rightarrow> memory \<Rightarrow> fault + u8" where
  "load_u8 off m = (if off < length m then Inr (m ! off) else Inl (UB ''read outside the mapping''))"

definition store_u8 :: "nat \<Rightarrow> u8 \<Rightarrow> memory \<Rightarrow> fault + memory" where
  "store_u8 off b m =
     (if off < length m then Inr (m[off := b]) else Inl (UB ''write outside the mapping''))"

text \<open>\<open>slice::from_raw_parts\<close>, \<open>ptr::copy_nonoverlapping\<close> and \<open>ptr::write_bytes\<close>.\<close>

definition raw_slice :: "nat \<Rightarrow> nat \<Rightarrow> memory \<Rightarrow> fault + u8 list" where
  "raw_slice off n m =
     (if off + n \<le> length m then Inr (window off n m) else Inl (UB ''slice outside the mapping''))"

definition copy_in :: "nat \<Rightarrow> u8 list \<Rightarrow> memory \<Rightarrow> fault + memory" where
  "copy_in off bs m =
     (if off + length bs \<le> length m then Inr (overwrite off bs m)
      else Inl (UB ''copy outside the mapping''))"

definition usize_at :: "host \<Rightarrow> nat \<Rightarrow> memory \<Rightarrow> usize" where
  "usize_at h off m = from_ne_bytes (byte_order h) (window off 8 m)"

definition load_usize :: "host \<Rightarrow> nat \<Rightarrow> memory \<Rightarrow> fault + usize" where
  "load_usize h off m =
     (if off + 8 \<le> length m then Inr (usize_at h off m) else Inl (UB ''read outside the mapping''))"

definition store_usize :: "host \<Rightarrow> nat \<Rightarrow> usize \<Rightarrow> memory \<Rightarrow> fault + memory" where
  "store_usize h off v m =
     (if off + 8 \<le> length m then Inr (overwrite off (to_ne_bytes (byte_order h) v) m)
      else Inl (UB ''write outside the mapping''))"

definition i32_at :: "host \<Rightarrow> nat \<Rightarrow> memory \<Rightarrow> i32" where
  "i32_at h off m = from_ne_bytes (byte_order h) (window off 4 m)"

definition load_i32 :: "host \<Rightarrow> nat \<Rightarrow> memory \<Rightarrow> fault + i32" where
  "load_i32 h off m =
     (if off + 4 \<le> length m then Inr (i32_at h off m) else Inl (UB ''read outside the mapping''))"

definition store_i32 :: "host \<Rightarrow> nat \<Rightarrow> i32 \<Rightarrow> memory \<Rightarrow> fault + memory" where
  "store_i32 h off v m =
     (if off + 4 \<le> length m then Inr (overwrite off (to_ne_bytes (byte_order h) v) m)
      else Inl (UB ''write outside the mapping''))"

section \<open>The interface of a stored integer\<close>

locale field =
  fixes off width :: nat
    and load :: "memory \<Rightarrow> fault + 'a"
    and store :: "'a \<Rightarrow> memory \<Rightarrow> fault + memory"
    and val :: "memory \<Rightarrow> 'a"
    and upd :: "'a \<Rightarrow> memory \<Rightarrow> memory"
  assumes load_val: "off + width \<le> length m \<Longrightarrow> load m = Inr (val m)"
    and store_upd: "off + width \<le> length m \<Longrightarrow> store v m = Inr (upd v m)"
    and val_upd: "off + width \<le> length m \<Longrightarrow> val (upd v m) = v"
    and val_cong: "window off width m = window off width m' \<Longrightarrow> val m = val m'"
    and upd_length: "off + width \<le> length m \<Longrightarrow> length (upd v m) = length m"
    and upd_frame: "off + width \<le> length m \<Longrightarrow> o2 + n \<le> off \<or> off + width \<le> o2 \<Longrightarrow>
      window o2 n (upd v m) = window o2 n m"
begin

lemma val_overwrite:
  "off + width \<le> o2 \<or> o2 + length bs \<le> off \<Longrightarrow> o2 + length bs \<le> length m \<Longrightarrow>
   val (overwrite o2 bs m) = val m"
  by (rule val_cong) auto

lemma val_list_update: "i < off \<or> off + width \<le> i \<Longrightarrow> val (m[i := b]) = val m"
  by (rule val_cong)
    (auto simp: window_def drop_update_swap drop_update_cancel take_update_swap list_update_beyond)

lemma nth_upd:
  assumes "off + width \<le> length m" "i < off \<or> off + width \<le> i" "i < length m"
  shows "upd v m ! i = m ! i"
proof -
  have "window i 1 (upd v m) = window i 1 m"
    using assms by (intro upd_frame) auto
  then show ?thesis
    using assms(3) nth_window [of 0 1 i m] nth_window [of 0 1 i "upd v m"] upd_length [OF assms(1)]
    by simp
qed

end

locale two_fields = f1: field off1 width1 load1 store1 val1 upd1 +
  f2: field off2 width2 load2 store2 val2 upd2
  for off1 width1 load1 store1 and val1 :: "memory \<Rightarrow> 'a" and upd1
    and off2 width2 load2 store2 and val2 :: "memory \<Rightarrow> 'b" and upd2 +
  assumes disjoint: "off1 + width1 \<le> off2"
begin

lemma val1_upd2: "off2 + width2 \<le> length m \<Longrightarrow> val1 (upd2 v m) = val1 m"
  using disjoint by (intro f1.val_cong f2.upd_frame) auto

lemma val2_upd1: "off1 + width1 \<le> length m \<Longrightarrow> val2 (upd1 v m) = val2 m"
  using disjoint by (intro f2.val_cong f1.upd_frame) auto

end

section \<open>The model provides it\<close>

definition usize_upd :: "host \<Rightarrow> nat \<Rightarrow> usize \<Rightarrow> memory \<Rightarrow> memory" where
  "usize_upd h off v m = overwrite off (to_ne_bytes (byte_order h) v) m"

definition i32_upd :: "host \<Rightarrow> nat \<Rightarrow> i32 \<Rightarrow> memory \<Rightarrow> memory" where
  "i32_upd h off v m = overwrite off (to_ne_bytes (byte_order h) v) m"

lemma usize_field:
  "field off 8 (load_usize h off) (store_usize h off) (usize_at h off) (usize_upd h off)"
  by unfold_locales
    (auto simp: load_usize_def store_usize_def usize_at_def usize_upd_def)

lemma i32_field:
  "field off 4 (load_i32 h off) (store_i32 h off) (i32_at h off) (i32_upd h off)"
  by unfold_locales
    (auto simp: load_i32_def store_i32_def i32_at_def i32_upd_def)

interpretation usize_f: field off 8
  "load_usize h off" "store_usize h off" "usize_at h off" "usize_upd h off"
  for h off
  by (rule usize_field)

interpretation i32_f: field off 4
  "load_i32 h off" "store_i32 h off" "i32_at h off" "i32_upd h off"
  for h off
  by (rule i32_field)

end
