(* ===== verification/Spsc.thy ===== *)
theory Spsc
  imports Codec Memory
begin

text \<open>
  The ring buffer of \<open>src/spsc.rs\<close>, operation by operation, on the bytes of the mapped region:
  \<open>head\<close> at offset 0, \<open>tail\<close> at 8, \<open>capacity\<close> at 16, data from 24. The loads and stores of the
  atomics are single steps on the region; positions are 64-bit words that wrap.
\<close>

definition spsc_header_size :: usize where
  "spsc_header_size = 24"

record spsc_ring =
  map_size :: usize

section \<open>Construction\<close>

definition is_power_of_two :: "usize \<Rightarrow> bool" where
  "is_power_of_two w \<longleftrightarrow> list_ex (\<lambda>k. w = 2 ^ k) [0..<64]"

text \<open>
  The least power of two not below the argument. Where none fits into the type a checked build
  panics and an unchecked one returns 0.
\<close>

definition next_power_of_two :: "host \<Rightarrow> usize \<Rightarrow> fault + usize" where
  "next_power_of_two h w =
     (case find (\<lambda>k. w \<le> 2 ^ k) [0..<64] of
        Some k \<Rightarrow> Inr (2 ^ k)
      | None \<Rightarrow> if overflow_checks h then Inl (Panic ''attempt to add with overflow'') else Inr 0)"

definition spsc_new :: "host \<Rightarrow> usize \<Rightarrow> bool \<Rightarrow> memory \<Rightarrow> (fault + unit) \<times> memory" where
  "spsc_new h msize is_creator =
     (if msize \<le> spsc_header_size then
        sdo (invalid_arg (''map_size must be > '' @ show_usize spsc_header_size @
          '' bytes (spsc header)''))
      else if is_creator then
        sbind (sdo (usub h msize spsc_header_size)) (\<lambda>cap.
        if \<not> is_power_of_two cap then
          sbind (sdo (next_power_of_two h cap)) (\<lambda>up.
          sdo (invalid_arg (''data capacity ('' @ show_usize cap @
            '') must be a power of two; try '' @ show_usize (up div 2) @ '' or '' @ show_usize up)))
        else
          sbind (supd (store_usize h 0 0)) (\<lambda>_.
          sbind (supd (store_usize h 8 0)) (\<lambda>_.
          supd (store_usize h 16 cap))))
      else sreturn ())"

definition from_ptr :: "usize \<Rightarrow> spsc_ring" where
  "from_ptr msize = \<lparr>map_size = msize\<rparr>"

section \<open>Access to the header and the data\<close>

definition load_head :: "host \<Rightarrow> memory \<Rightarrow> (fault + usize) \<times> memory" where
  "load_head h = sget (load_usize h 0)"

definition load_tail :: "host \<Rightarrow> memory \<Rightarrow> (fault + usize) \<times> memory" where
  "load_tail h = sget (load_usize h 8)"

definition store_head :: "host \<Rightarrow> usize \<Rightarrow> memory \<Rightarrow> (fault + unit) \<times> memory" where
  "store_head h v = supd (store_usize h 0 v)"

definition store_tail :: "host \<Rightarrow> usize \<Rightarrow> memory \<Rightarrow> (fault + unit) \<times> memory" where
  "store_tail h v = supd (store_usize h 8 v)"

definition capacity :: "host \<Rightarrow> memory \<Rightarrow> (fault + usize) \<times> memory" where
  "capacity h = sget (load_usize h 16)"

definition data_off :: "usize \<Rightarrow> nat" where
  "data_off idx = unat spsc_header_size + unat idx"

fun write_loop :: "host \<Rightarrow> usize \<Rightarrow> usize \<Rightarrow> nat \<Rightarrow> u8 list \<Rightarrow> memory \<Rightarrow> (fault + unit) \<times> memory" where
  "write_loop h pos msk i [] = sreturn ()"
| "write_loop h pos msk i (byte # src) =
     sbind (sdo (uadd h pos (of_nat i))) (\<lambda>s.
     sbind (supd (store_u8 (data_off (s AND msk)) byte)) (\<lambda>_.
     write_loop h pos msk (Suc i) src))"

definition write_bytes :: "host \<Rightarrow> usize \<Rightarrow> u8 list \<Rightarrow> usize \<Rightarrow> memory \<Rightarrow> (fault + unit) \<times> memory" where
  "write_bytes h pos src cap =
     sbind (sdo (usub h cap 1)) (\<lambda>msk. write_loop h pos msk 0 src)"

fun read_loop ::
    "host \<Rightarrow> usize \<Rightarrow> usize \<Rightarrow> nat \<Rightarrow> nat \<Rightarrow> u8 list \<Rightarrow> memory \<Rightarrow> (fault + u8 list) \<times> memory" where
  "read_loop h pos msk i 0 dst = sreturn dst"
| "read_loop h pos msk i (Suc n) dst =
     sbind (sdo (uadd h pos (of_nat i))) (\<lambda>s.
     sbind (sget (load_u8 (data_off (s AND msk)))) (\<lambda>byte.
     read_loop h pos msk (Suc i) n (dst @ [byte])))"

text \<open>\<open>read_bytes\<close> fills a buffer of the given length.\<close>

definition read_bytes :: "host \<Rightarrow> usize \<Rightarrow> nat \<Rightarrow> usize \<Rightarrow> memory \<Rightarrow> (fault + u8 list) \<times> memory" where
  "read_bytes h pos len cap =
     sbind (sdo (usub h cap 1)) (\<lambda>msk. read_loop h pos msk 0 len [])"

section \<open>Push and pop\<close>

definition push_payload :: "host \<Rightarrow> py \<Rightarrow> fault + u8 list" where
  "push_payload h data =
     (case data of PyList items \<Rightarrow> pack_all h items [] | _ \<Rightarrow> pack_value h data [])"

definition push :: "host \<Rightarrow> spsc_ring \<Rightarrow> py \<Rightarrow> memory \<Rightarrow> (fault + bool) \<times> memory" where
  "push h r data =
     sbind (sdo (push_payload h data)) (\<lambda>payload.
     sbind (sdo (uadd h 4 (slice_len payload))) (\<lambda>frame_len.
     sbind (capacity h) (\<lambda>cap.
     if cap < frame_len then
       sdo (invalid_arg (''message too large: frame_len='' @ show_usize frame_len @
         '' > capacity='' @ show_usize cap @ ''                  (map_size='' @
         show_usize (map_size r) @ '')''))
     else
       sbind (load_head h) (\<lambda>head.
       sbind (load_tail h) (\<lambda>tail.
       let used = tail - head in
       sbind (sdo (uadd h used frame_len)) (\<lambda>needed.
       if cap < needed then sreturn False
       else
         let len_bytes = to_ne_bytes (byte_order h) (ucast (slice_len payload) :: u32) in
         sbind (write_bytes h tail len_bytes cap) (\<lambda>_.
         sbind (sdo (uadd h tail 4)) (\<lambda>pos.
         sbind (write_bytes h pos payload cap) (\<lambda>_.
         sbind (store_tail h (tail + frame_len)) (\<lambda>_.
         sreturn True))))))))))"

definition pop :: "host \<Rightarrow> string option \<Rightarrow> memory \<Rightarrow> (fault + py option) \<times> memory" where
  "pop h tag =
     sbind (load_head h) (\<lambda>head.
     sbind (load_tail h) (\<lambda>tail.
     if head = tail then sreturn None
     else
       sbind (capacity h) (\<lambda>cap.
       sbind (read_bytes h head 4 cap) (\<lambda>len_bytes.
       let payload_len = ucast (from_ne_bytes (byte_order h) len_bytes :: u32) :: usize in
       sbind (sdo (uadd h head 4)) (\<lambda>pos.
       sbind (read_bytes h pos (unat payload_len) cap) (\<lambda>payload.
       sbind (sdo (uadd h 4 payload_len)) (\<lambda>frame_len.
       sbind (store_head h (head + frame_len)) (\<lambda>_.
       case tag of
         None \<Rightarrow> sreturn (Some (PyBytes payload))
       | Some t \<Rightarrow> sbind (sdo (unpack_one h payload t)) (\<lambda>(v, _). sreturn (Some v))))))))))"

definition pop_mixed :: "host \<Rightarrow> py list \<Rightarrow> memory \<Rightarrow> (fault + py list option) \<times> memory" where
  "pop_mixed h schema =
     sbind (load_head h) (\<lambda>head.
     sbind (load_tail h) (\<lambda>tail.
     if head = tail then sreturn None
     else
       sbind (capacity h) (\<lambda>cap.
       sbind (read_bytes h head 4 cap) (\<lambda>len_bytes.
       let payload_len = ucast (from_ne_bytes (byte_order h) len_bytes :: u32) :: usize in
       sbind (sdo (uadd h head 4)) (\<lambda>pos.
       sbind (read_bytes h pos (unat payload_len) cap) (\<lambda>payload.
       sbind (sdo (uadd h 4 payload_len)) (\<lambda>frame_len.
       sbind (store_head h (head + frame_len)) (\<lambda>_.
       sbind (sdo (unpack_mixed_counted h payload schema)) (\<lambda>(result, _).
       sreturn (Some result))))))))))"

section \<open>Queries\<close>

definition used :: "host \<Rightarrow> memory \<Rightarrow> (fault + usize) \<times> memory" where
  "used h = sbind (load_head h) (\<lambda>head. sbind (load_tail h) (\<lambda>tail. sreturn (tail - head)))"

definition free :: "host \<Rightarrow> memory \<Rightarrow> (fault + usize) \<times> memory" where
  "free h = sbind (capacity h) (\<lambda>cap. sbind (used h) (\<lambda>u. sreturn (saturating_sub cap u)))"

definition is_empty :: "host \<Rightarrow> memory \<Rightarrow> (fault + bool) \<times> memory" where
  "is_empty h = sbind (load_head h) (\<lambda>head. sbind (load_tail h) (\<lambda>tail. sreturn (head = tail)))"

definition is_full :: "host \<Rightarrow> memory \<Rightarrow> (fault + bool) \<times> memory" where
  "is_full h = sbind (used h) (\<lambda>u. sbind (capacity h) (\<lambda>cap. sreturn (cap \<le> u)))"

definition spsc_repr :: "host \<Rightarrow> memory \<Rightarrow> (fault + string) \<times> memory" where
  "spsc_repr h =
     sbind (capacity h) (\<lambda>cap. sbind (used h) (\<lambda>u. sbind (free h) (\<lambda>f.
     sreturn (''SpscRingBuffer(capacity='' @ show_usize cap @ '', used='' @ show_usize u @
       '', free='' @ show_usize f @ '')''))))"

end
