(* ===== verification/SpscQueue.thy ===== *)
theory SpscQueue
  imports Spsc
begin

text \<open>
  The ring buffer as a queue of messages. \<open>ring_put\<close> and \<open>ring_get\<close> are what the byte loops
  compute; \<open>spsc_inv h k m q\<close> says that the region \<open>m\<close> holds exactly the messages \<open>q\<close>; push and pop are
  shown to keep it, whatever the positions, also across the wrap-around of the 64-bit counters.
\<close>

section \<open>The byte loops\<close>

fun ring_put :: "nat \<Rightarrow> nat \<Rightarrow> u8 list \<Rightarrow> memory \<Rightarrow> memory" where
  "ring_put c p [] m = m"
| "ring_put c p (b # bs) m = ring_put c (Suc p) bs (m[24 + p mod c := b])"

definition ring_get :: "nat \<Rightarrow> nat \<Rightarrow> nat \<Rightarrow> memory \<Rightarrow> u8 list" where
  "ring_get c p n m = map (\<lambda>j. m ! (24 + (p + j) mod c)) [0..<n]"

lemma length_ring_put [simp]: "length (ring_put c p bs m) = length m"
  by (induction bs arbitrary: p m) auto

lemma length_ring_get [simp]: "length (ring_get c p n m) = n"
  by (simp add: ring_get_def)

lemma ring_put_append:
  "ring_put c p (xs @ ys) m = ring_put c (p + length xs) ys (ring_put c p xs m)"
  by (induction xs arbitrary: p m) auto

lemma ring_put_mod: "p mod c = q mod c \<Longrightarrow> ring_put c p bs m = ring_put c q bs m"
proof (induction bs arbitrary: p q m)
  case (Cons b bs)
  have "Suc p mod c = Suc q mod c"
    using mod_add_cong [OF Cons.prems refl, of 1] by simp
  then have "ring_put c (Suc p) bs m' = ring_put c (Suc q) bs m'" for m'
    by (rule Cons.IH)
  then show ?case by (simp only: ring_put.simps Cons.prems)
qed simp

lemma ring_get_mod:
  assumes "p mod c = q mod c"
  shows "ring_get c p n m = ring_get c q n m"
  unfolding ring_get_def using mod_add_cong [OF assms refl] by (intro map_cong refl) metis

lemma ring_get_append: "ring_get c p (n + k) m = ring_get c p n m @ ring_get c (p + n) k m"
  by (rule nth_equalityI) (auto simp: ring_get_def nth_append)

lemma mod_neq:
  assumes "(a :: nat) < b" "b < a + c"
  shows "a mod c \<noteq> b mod c"
proof
  assume "a mod c = b mod c"
  then have "c dvd b - a"
    using assms(1) by (metis less_imp_le_nat mod_eq_dvd_iff_nat)
  then show False using assms by (auto dest: dvd_imp_le)
qed

lemma nth_ring_put_out:
  "(\<And>j. j < length bs \<Longrightarrow> i \<noteq> 24 + (p + j) mod c) \<Longrightarrow> ring_put c p bs m ! i = m ! i"
proof (induction bs arbitrary: p m)
  case (Cons b bs)
  have "ring_put c (Suc p) bs (m[24 + p mod c := b]) ! i = m[24 + p mod c := b] ! i"
    using Cons.prems [of "Suc j" for j] by (intro Cons.IH) auto
  then show ?case using Cons.prems [of 0] by simp
qed simp

lemma nth_ring_put_in:
  assumes "0 < c" "24 + c \<le> length m"
  shows "length bs \<le> c \<Longrightarrow> j < length bs \<Longrightarrow> ring_put c p bs m ! (24 + (p + j) mod c) = bs ! j"
  using assms(2)
proof (induction bs arbitrary: p j m)
  case (Cons b bs)
  show ?case
  proof (cases j)
    case 0
    have "ring_put c (Suc p) bs (m[24 + p mod c := b]) ! (24 + p mod c) =
        m[24 + p mod c := b] ! (24 + p mod c)"
    proof (rule nth_ring_put_out)
      fix j assume "j < length bs"
      then have "p mod c \<noteq> (Suc p + j) mod c"
        using Cons.prems(1) by (intro mod_neq) auto
      then show "24 + p mod c \<noteq> 24 + (Suc p + j) mod c" by simp
    qed
    moreover have "24 + p mod c < length m"
      using Cons.prems(3) assms(1) by (meson add_less_cancel_left mod_less_divisor order_less_le_trans)
    ultimately show ?thesis using 0 by simp
  next
    case (Suc i)
    then show ?thesis using Cons.IH [of i "m[24 + p mod c := b]" "Suc p"] Cons.prems by simp
  qed
qed simp

lemma ring_get_put:
  assumes "0 < c" "24 + c \<le> length m" "length bs \<le> c"
  shows "ring_get c p (length bs) (ring_put c p bs m) = bs"
  by (rule nth_equalityI) (simp_all add: ring_get_def nth_ring_put_in [OF assms])

lemma ring_get_put_before:
  assumes "n + length bs \<le> c"
  shows "ring_get c p n (ring_put c (p + n) bs m) = ring_get c p n m"
  unfolding ring_get_def
proof (rule map_cong [OF refl])
  fix j assume "j \<in> set [0..<n]"
  then have "(p + j) mod c \<noteq> (p + n + i) mod c" if "i < length bs" for i
    using assms that by (intro mod_neq) auto
  then show "ring_put c (p + n) bs m ! (24 + (p + j) mod c) = m ! (24 + (p + j) mod c)"
    by (intro nth_ring_put_out) auto
qed

lemma usize_at_ring_put [simp]:
  "off + 8 \<le> 24 \<Longrightarrow> usize_at h off (ring_put c p bs m) = usize_at h off m"
  by (induction bs arbitrary: p m) (simp_all add: usize_f.val_list_update)

lemma ring_get_usize_upd [simp]:
  assumes "off + 8 \<le> 24" "24 + c \<le> length m" "0 < c"
  shows "ring_get c p n (usize_upd h off v m) = ring_get c p n m"
  unfolding ring_get_def
proof (rule map_cong [OF refl])
  fix j
  have "(p + j) mod c < c" using assms(3) by simp
  then have "24 + (p + j) mod c < length m" using assms(2) by linarith
  then show "usize_upd h off v m ! (24 + (p + j) mod c) = m ! (24 + (p + j) mod c)"
    using assms by (intro usize_f.nth_upd) auto
qed

section \<open>The loops of the code compute them\<close>

lemma unat_and_mask:
  assumes "k < 64"
  shows "unat (w AND (2 ^ k - 1) :: usize) = unat w mod 2 ^ k"
proof -
  have "w AND (2 ^ k - 1) = take_bit k w"
    by (simp add: take_bit_eq_mask mask_eq_exp_minus_1)
  then have "unat (w AND (2 ^ k - 1)) = take_bit k (unat w)"
    by (simp only: unsigned_take_bit_eq)
  then show ?thesis by (simp only: take_bit_eq_mod)
qed

lemma unat_pow2: "k < 64 \<Longrightarrow> unat (2 ^ k :: usize) = 2 ^ k"
proof -
  assume "k < 64"
  then have "(2 :: nat) ^ k < 2 ^ 64" by (intro power_strict_increasing) auto
  then show ?thesis using unat_of_nat_usize [of "2 ^ k"] by simp
qed

lemma mod_pow2_64:
  assumes "k < 64"
  shows "n mod 2 ^ 64 mod 2 ^ k = n mod (2 :: nat) ^ k"
  using assms by (intro mod_mod_cancel le_imp_power_dvd) simp

lemma unat_add_of_nat_mod:
  assumes "k < 64"
  shows "unat (p + of_nat i :: usize) mod 2 ^ k = (unat p + i) mod 2 ^ k"
proof -
  have "unat (p + of_nat i) = (unat p + i mod 2 ^ 64) mod 2 ^ 64"
    by (simp add: unat_word_ariths unat_of_nat take_bit_eq_mod)
  also have "\<dots> = (unat p + i) mod 2 ^ 64" by (rule mod_add_right_eq)
  finally show ?thesis using mod_pow2_64 [OF assms] by simp
qed

lemma data_off_mask:
  "k < 64 \<Longrightarrow> data_off ((p + of_nat i) AND (2 ^ k - 1)) = 24 + (unat p + i) mod 2 ^ k"
  by (simp add: data_off_def spsc_header_size_def unat_and_mask unat_add_of_nat_mod)

text \<open>
  \<open>sums_ok h p n\<close>: the additions \<open>p + i\<close> for \<open>i < n\<close> do not panic. In an unchecked build they never do.
\<close>

definition sums_ok :: "host \<Rightarrow> usize \<Rightarrow> nat \<Rightarrow> bool" where
  "sums_ok h p n \<longleftrightarrow> overflow_checks h \<longrightarrow> unat p + n \<le> 2 ^ 64"

lemma uadd_sums_ok:
  assumes "sums_ok h p n" "i < n" "n < 2 ^ 64"
  shows "uadd h p (of_nat i) = Inr (p + of_nat i)"
  using assms unat_of_nat_usize [of i] by (auto simp: sums_ok_def uadd_def)

lemma mod_pow2_off:
  assumes "24 + 2 ^ k \<le> length m"
  shows "24 + p mod 2 ^ k < length (m :: memory)"
proof -
  have "p mod 2 ^ k < 2 ^ k" by simp
  then show ?thesis using assms by linarith
qed

lemma write_loop_ring_put:
  assumes "k < 64" "24 + 2 ^ k \<le> length m" "sums_ok h pos (i + length src)" "i + length src < 2 ^ 64"
  shows "write_loop h pos (2 ^ k - 1) i src m = (Inr (), ring_put (2 ^ k) (unat pos + i) src m)"
  using assms(2-)
proof (induction src arbitrary: i m)
  case Nil
  then show ?case by (simp add: sreturn_def)
next
  case (Cons b src)
  have "uadd h pos (of_nat i) = Inr (pos + of_nat i)"
    using Cons.prems by (intro uadd_sums_ok [OF Cons.prems(2)]) auto
  moreover have "store_u8 (data_off ((pos + of_nat i) AND (2 ^ k - 1))) b m =
      Inr (m[24 + (unat pos + i) mod 2 ^ k := b])"
    using mod_pow2_off [OF Cons.prems(1)] by (simp add: data_off_mask [OF assms(1)] store_u8_def)
  ultimately show ?case
    using Cons.IH [of "m[24 + (unat pos + i) mod 2 ^ k := b]" "Suc i"] Cons.prems
    by (simp add: sbind_supd_Inr)
qed

lemma read_loop_ring_get:
  assumes "k < 64" "24 + 2 ^ k \<le> length m" "sums_ok h pos (i + n)" "i + n < 2 ^ 64"
  shows "read_loop h pos (2 ^ k - 1) i n dst m = (Inr (dst @ ring_get (2 ^ k) (unat pos + i) n m), m)"
  using assms(3,4)
proof (induction n arbitrary: i dst)
  case 0
  then show ?case by (simp add: sreturn_def ring_get_def)
next
  case (Suc n)
  have "uadd h pos (of_nat i) = Inr (pos + of_nat i)"
    using Suc.prems by (intro uadd_sums_ok [OF Suc.prems(1)]) auto
  moreover have "load_u8 (data_off ((pos + of_nat i) AND (2 ^ k - 1))) m =
      Inr (m ! (24 + (unat pos + i) mod 2 ^ k))"
    using mod_pow2_off [OF assms(2)] by (simp add: data_off_mask [OF assms(1)] load_u8_def)
  ultimately show ?case
    using Suc.IH [of "Suc i"] Suc.prems ring_get_append [of "2 ^ k" "unat pos + i" 1 n m]
    by (simp add: sbind_sget_Inr ring_get_def)
qed

lemma write_bytes_ring_put:
  assumes "k < 64" "24 + 2 ^ k \<le> length m" "sums_ok h pos (length src)" "length src < 2 ^ 64"
  shows "write_bytes h pos src (2 ^ k) m = (Inr (), ring_put (2 ^ k) (unat pos) src m)"
proof -
  have "usub h (2 ^ k) 1 = Inr (2 ^ k - 1)"
    using assms(1) by (intro usub_no_underflow) (simp add: word_le_nat_alt unat_pow2)
  then show ?thesis
    using write_loop_ring_put [of k m h pos 0 src] assms by (simp add: write_bytes_def)
qed

lemma read_bytes_ring_get:
  assumes "k < 64" "24 + 2 ^ k \<le> length m" "sums_ok h pos n" "n < 2 ^ 64"
  shows "read_bytes h pos n (2 ^ k) m = (Inr (ring_get (2 ^ k) (unat pos) n m), m)"
proof -
  have "usub h (2 ^ k) 1 = Inr (2 ^ k - 1)"
    using assms(1) by (intro usub_no_underflow) (simp add: word_le_nat_alt unat_pow2)
  then show ?thesis
    using read_loop_ring_get [of k m h pos 0 n "[]"] assms by (simp add: read_bytes_def)
qed

section \<open>One push, one pop\<close>

lemma sbind_load_head [res_simps]:
  "24 \<le> length m \<Longrightarrow> sbind (load_head h) g m = g (usize_at h 0 m) m"
  by (simp add: load_head_def sbind_sget_Inr usize_f.load_val)

lemma sbind_load_tail [res_simps]:
  "24 \<le> length m \<Longrightarrow> sbind (load_tail h) g m = g (usize_at h 8 m) m"
  by (simp add: load_tail_def sbind_sget_Inr usize_f.load_val)

lemma sbind_capacity [res_simps]:
  "24 \<le> length m \<Longrightarrow> sbind (capacity h) g m = g (usize_at h 16 m) m"
  by (simp add: capacity_def sbind_sget_Inr usize_f.load_val)

lemma sbind_store_tail [res_simps]:
  "24 \<le> length m \<Longrightarrow> sbind (store_tail h v) g m = g () (usize_upd h 8 v m)"
  by (simp add: store_tail_def sbind_supd_Inr usize_f.store_upd)

lemma sbind_store_head [res_simps]:
  "24 \<le> length m \<Longrightarrow> sbind (store_head h v) g m = g () (usize_upd h 0 v m)"
  by (simp add: store_head_def sbind_supd_Inr usize_f.store_upd)

lemmas ring_access = sbind_load_head sbind_load_tail sbind_capacity sbind_store_tail sbind_store_head

text \<open>The layout a creator sets up: a power-of-two capacity that the region can hold.\<close>

definition ring_layout :: "host \<Rightarrow> memory \<Rightarrow> nat \<Rightarrow> bool" where
  "ring_layout h m k \<longleftrightarrow> k \<le> 62 \<and> usize_at h 16 m = 2 ^ k \<and> 24 + 2 ^ k \<le> length m"

lemma ring_layout_D:
  assumes "ring_layout h m k"
  shows "k < 64" "24 \<le> length m" "24 + 2 ^ k \<le> length m" "usize_at h 16 m = 2 ^ k"
    "unat (2 ^ k :: usize) = 2 ^ k" "(2 :: nat) ^ k \<le> 2 ^ 62"
  using assms unat_pow2 [of k] power_increasing [of k 62 "2 :: nat"]
  by (auto simp: ring_layout_def)

definition push_mem :: "host \<Rightarrow> nat \<Rightarrow> u8 list \<Rightarrow> memory \<Rightarrow> memory" where
  "push_mem h k p m =
     usize_upd h 8 (usize_at h 8 m + of_nat (4 + length p))
       (ring_put (2 ^ k) (unat (usize_at h 8 m))
         (to_ne_bytes (byte_order h) (of_nat (length p) :: u32) @ p) m)"

lemma frame_len_usize:
  assumes "4 + length p < 2 ^ 64"
  shows "uadd h 4 (slice_len p) = Inr (of_nat (4 + length p))"
    and "unat (of_nat (4 + length p) :: usize) = 4 + length p"
proof -
  have "unat (slice_len p) = length p"
    using assms by (simp add: slice_len_def unat_of_nat_usize)
  then have "uadd h 4 (slice_len p) = Inr (4 + slice_len p)"
    using assms by simp
  then show "uadd h 4 (slice_len p) = Inr (of_nat (4 + length p))"
    by (simp add: slice_len_def)
  show "unat (of_nat (4 + length p) :: usize) = 4 + length p"
    using assms by (rule unat_of_nat_usize)
qed

lemma write_frame:
  assumes "k < 64" "24 + 2 ^ k \<le> length m" "length p < 2 ^ 64" "length lb = 4"
    and "overflow_checks h \<longrightarrow> unat tail + 4 + length p < 2 ^ 64"
  shows "sbind (write_bytes h tail lb (2 ^ k)) (\<lambda>_.
      sbind (sdo (uadd h tail 4)) (\<lambda>pos. sbind (write_bytes h pos p (2 ^ k)) g)) m =
    g () (ring_put (2 ^ k) (unat tail) (lb @ p) m)"
proof -
  let ?m1 = "ring_put (2 ^ k) (unat tail) lb m"
  have w1: "write_bytes h tail lb (2 ^ k) m = (Inr (), ?m1)"
    using assms by (intro write_bytes_ring_put) (auto simp: sums_ok_def)
  have u: "uadd h tail 4 = Inr (tail + 4)"
    using assms(5) by (auto simp: uadd_def)
  have "sums_ok h (tail + 4) (length p)"
    using assms(5) unat_add_usize [of tail 4] by (auto simp: sums_ok_def)
  then have w2: "write_bytes h (tail + 4) p (2 ^ k) ?m1 =
      (Inr (), ring_put (2 ^ k) (unat (tail + 4)) p ?m1)"
    using assms by (intro write_bytes_ring_put) auto
  have "ring_put (2 ^ k) (unat (tail + 4)) p ?m1 = ring_put (2 ^ k) (unat tail + 4) p ?m1"
    using unat_add_of_nat_mod [OF assms(1), of tail 4] by (intro ring_put_mod) simp
  also have "\<dots> = ring_put (2 ^ k) (unat tail) (lb @ p) m"
    by (simp add: ring_put_append assms(4))
  finally have "ring_put (2 ^ k) (unat (tail + 4)) p ?m1 = ring_put (2 ^ k) (unat tail) (lb @ p) m" .
  with w1 u w2 show ?thesis by (simp add: sbind_Inr)
qed

lemma push_run:
  assumes lay: "ring_layout h m k" and pay: "push_payload h v = Inr p"
    and room: "unat (usize_at h 8 m - usize_at h 0 m) + 4 + length p \<le> 2 ^ k"
    and ovf: "overflow_checks h \<longrightarrow> unat (usize_at h 8 m) + 4 + length p < 2 ^ 64"
  shows "push h r v m = (Inr True, push_mem h k p m)"
proof -
  note k = ring_layout_D [OF lay]
  let ?used = "usize_at h 8 m - usize_at h 0 m"
  have len: "4 + length p < 2 ^ 64" using room k(6) by simp
  note fl = frame_len_usize(1) [OF len, of h] frame_len_usize(2) [OF len]
  have big: "\<not> (2 ^ k < (of_nat (4 + length p) :: usize))"
    using room k(5) unfolding word_less_nat_alt fl(2) by simp
  have sum: "unat ?used + unat (of_nat (4 + length p) :: usize) < 2 ^ 64"
    using room k(6) unfolding fl(2) by simp
  have full: "\<not> (2 ^ k < ?used + of_nat (4 + length p))"
    using room k(5) unfolding word_less_nat_alt unat_add_usize [OF sum] fl(2) by simp
  have m': "24 \<le> length (ring_put (2 ^ k) (unat (usize_at h 8 m))
      (to_ne_bytes (byte_order h) (of_nat (length p) :: u32) @ p) m)"
    using k(2) by simp
  show ?thesis
    unfolding push_def pay sbind_sdo_Inr fl(1) sbind_capacity [OF k(2)] k(4) sbind_load_head [OF k(2)]
      sbind_load_tail [OF k(2)] Let_def uadd_no_overflow [OF sum] if_not_P [OF big] if_not_P [OF full]
      ucast_slice_len
    by (subst write_frame [OF k(1,3)])
      (use len ovf in \<open>simp_all add: sbind_store_tail [OF m'] sreturn_def push_mem_def\<close>)
qed

lemma push_full_run:
  assumes lay: "ring_layout h m k" and pay: "push_payload h v = Inr p"
    and one: "4 + length p \<le> 2 ^ k" and used: "unat (usize_at h 8 m - usize_at h 0 m) \<le> 2 ^ k"
    and no_room: "2 ^ k < unat (usize_at h 8 m - usize_at h 0 m) + 4 + length p"
  shows "push h r v m = (Inr False, m)"
proof -
  note k = ring_layout_D [OF lay]
  let ?used = "usize_at h 8 m - usize_at h 0 m"
  have len: "4 + length p < 2 ^ 64" using one k(6) by simp
  note fl = frame_len_usize(1) [OF len, of h] frame_len_usize(2) [OF len]
  have big: "\<not> (2 ^ k < (of_nat (4 + length p) :: usize))"
    using one k(5) unfolding word_less_nat_alt fl(2) by simp
  have sum: "unat ?used + unat (of_nat (4 + length p) :: usize) < 2 ^ 64"
    using one used k(6) unfolding fl(2) by simp
  have full: "2 ^ k < ?used + of_nat (4 + length p)"
    using no_room k(5) unfolding word_less_nat_alt unat_add_usize [OF sum] fl(2) by simp
  show ?thesis
    unfolding push_def pay sbind_sdo_Inr fl(1) sbind_capacity [OF k(2)] k(4) sbind_load_head [OF k(2)]
      sbind_load_tail [OF k(2)] Let_def uadd_no_overflow [OF sum] if_not_P [OF big] if_P [OF full]
    by (simp add: sreturn_def)
qed

definition too_large :: "usize \<Rightarrow> usize \<Rightarrow> nat \<Rightarrow> fault + 'a" where
  "too_large msize cap n =
     invalid_arg (''message too large: frame_len='' @ show_usize (of_nat (4 + n)) @
       '' > capacity='' @ show_usize cap @ ''                  (map_size='' @ show_usize msize @ '')'')"

lemma push_too_large_run:
  assumes lay: "ring_layout h m k" and pay: "push_payload h v = Inr p"
    and len: "length p \<le> isize_max" and large: "2 ^ k < 4 + length p"
  shows "push h r v m = (too_large (map_size r) (2 ^ k) (length p), m)"
proof -
  note k = ring_layout_D [OF lay]
  have len: "4 + length p < 2 ^ 64" using len by (simp add: isize_max_def)
  note fl = frame_len_usize(1) [OF len, of h] frame_len_usize(2) [OF len]
  have big: "2 ^ k < (of_nat (4 + length p) :: usize)"
    using large k(5) unfolding word_less_nat_alt fl(2) by simp
  show ?thesis
    unfolding push_def pay sbind_sdo_Inr fl(1) sbind_capacity [OF k(2)] k(4) if_P [OF big]
    by (simp add: sdo_def too_large_def)
qed

lemma too_large_raises: "\<exists>msg. too_large msize cap n = py_raise (PyValueError msg)"
  by (simp add: too_large_def shm_err_InvalidArg)

text \<open>The part pop and pop\_mixed share: take the next frame off the ring.\<close>

definition frame_size :: "host \<Rightarrow> nat \<Rightarrow> memory \<Rightarrow> nat" where
  "frame_size h k m =
     unat (from_ne_bytes (byte_order h) (ring_get (2 ^ k) (unat (usize_at h 0 m)) 4 m) :: u32)"

definition pop_mem :: "host \<Rightarrow> nat \<Rightarrow> memory \<Rightarrow> memory" where
  "pop_mem h k m = usize_upd h 0 (usize_at h 0 m + of_nat (4 + frame_size h k m)) m"

definition popped :: "host \<Rightarrow> nat \<Rightarrow> memory \<Rightarrow> u8 list" where
  "popped h k m = ring_get (2 ^ k) (unat (usize_at h 0 m) + 4) (frame_size h k m) m"

lemma frame_size_less: "frame_size h k m < 2 ^ 32"
  by (simp only: frame_size_def unat_u32_less)

lemma pop_frame_run:
  assumes lay: "ring_layout h m k" and ne: "usize_at h 0 m \<noteq> usize_at h 8 m"
    and ovf: "overflow_checks h \<longrightarrow> unat (usize_at h 0 m) + 4 + frame_size h k m < 2 ^ 64"
  shows "sbind (load_head h) (\<lambda>head.
     sbind (load_tail h) (\<lambda>tail.
     if head = tail then sreturn None
     else
       sbind (capacity h) (\<lambda>cap.
       sbind (read_bytes h head 4 cap) (\<lambda>len_bytes.
       let payload_len = ucast (from_ne_bytes (byte_order h) len_bytes :: u32) :: usize in
       sbind (sdo (uadd h head 4)) (\<lambda>pos.
       sbind (read_bytes h pos (unat payload_len) cap) (\<lambda>payload.
       sbind (sdo (uadd h 4 payload_len)) (\<lambda>frame_len.
       sbind (store_head h (head + frame_len)) (\<lambda>_. g payload)))))))) m =
    g (popped h k m) (pop_mem h k m)"
proof -
  note k = ring_layout_D [OF lay]
  let ?head = "usize_at h 0 m" and ?n = "frame_size h k m"
  let ?lb = "ring_get (2 ^ k) (unat ?head) 4 m"
  let ?w = "from_ne_bytes (byte_order h) ?lb :: u32"
  have r1: "read_bytes h ?head 4 (2 ^ k) m = (Inr ?lb, m)"
    using ovf by (intro read_bytes_ring_get [OF k(1,3)]) (auto simp: sums_ok_def)
  have u: "uadd h ?head 4 = Inr (?head + 4)"
    using ovf by (auto simp: uadd_def)
  have "sums_ok h (?head + 4) ?n"
    using ovf unat_add_usize [of ?head 4] by (auto simp: sums_ok_def)
  then have "read_bytes h (?head + 4) ?n (2 ^ k) m =
      (Inr (ring_get (2 ^ k) (unat (?head + 4)) ?n m), m)"
    using frame_size_less [of h k m] by (intro read_bytes_ring_get [OF k(1,3)]) auto
  moreover have "ring_get (2 ^ k) (unat (?head + 4)) ?n m = popped h k m"
    unfolding popped_def using unat_add_of_nat_mod [OF k(1), of ?head 4]
    by (intro ring_get_mod) simp
  ultimately have r2: "read_bytes h (?head + 4) (unat ?w) (2 ^ k) m = (Inr (popped h k m), m)"
    by (simp add: frame_size_def)
  have f: "uadd h 4 (ucast ?w) = Inr (4 + ucast ?w)"
    using unat_u32_less [of ?w] by simp
  have s: "(4 + ucast ?w :: usize) = of_nat (4 + ?n)"
    using prefix_len_usize [OF frame_size_less, of h k m] by (simp add: frame_size_def)
  show ?thesis
    unfolding sbind_load_head [OF k(2)] sbind_load_tail [OF k(2)] if_not_P [OF ne]
      sbind_capacity [OF k(2)] k(4) sbind_Inr [where f = "read_bytes h ?head 4 (2 ^ k)", OF r1]
      Let_def unat_ucast_u32 u sbind_sdo_Inr
      sbind_Inr [where f = "read_bytes h (?head + 4) (unat ?w) (2 ^ k)", OF r2]
      f s sbind_store_head [OF k(2)] pop_mem_def ..
qed

lemma pop_run:
  assumes "ring_layout h m k" "usize_at h 0 m \<noteq> usize_at h 8 m"
    and "overflow_checks h \<longrightarrow> unat (usize_at h 0 m) + 4 + frame_size h k m < 2 ^ 64"
  shows "pop h None m = (Inr (Some (PyBytes (popped h k m))), pop_mem h k m)"
    and "pop h (Some t) m =
      (bind (unpack_one h (popped h k m) t) (\<lambda>(v, _). Inr (Some v)), pop_mem h k m)"
    and "pop_mixed h schema m =
      (bind (unpack_mixed_counted h (popped h k m) schema) (\<lambda>(vs, _). Inr (Some vs)), pop_mem h k m)"
  unfolding pop_def pop_mixed_def pop_frame_run [OF assms]
  by (auto simp: sreturn_def sbind_def sdo_def bind_def split: sum.splits)

lemma pop_empty_run:
  assumes "24 \<le> length m" "usize_at h 0 m = usize_at h 8 m"
  shows "pop h tag m = (Inr None, m)" "pop_mixed h schema m = (Inr None, m)"
  using assms by (simp_all add: pop_def pop_mixed_def ring_access sreturn_def)

section \<open>The region holds a queue of messages\<close>

definition frame :: "host \<Rightarrow> u8 list \<Rightarrow> u8 list" where
  "frame h p = to_ne_bytes (byte_order h) (of_nat (length p) :: u32) @ p"

definition frames :: "host \<Rightarrow> u8 list list \<Rightarrow> u8 list" where
  "frames h q = concat (map (frame h) q)"

lemma length_frame [simp]: "length (frame h p) = 4 + length p"
  by (simp add: frame_def)

lemma frames_simps [simp]:
  "frames h [] = []" "frames h (p # q) = frame h p @ frames h q"
  "frames h (q @ r) = frames h q @ frames h r"
  by (simp_all add: frames_def)

lemma length_frames: "length (frames h q) = sum_list (map (\<lambda>p. 4 + length p) q)"
  by (induction q) simp_all

definition spsc_inv :: "host \<Rightarrow> nat \<Rightarrow> memory \<Rightarrow> u8 list list \<Rightarrow> bool" where
  "spsc_inv h k m q \<longleftrightarrow>
     ring_layout h m k \<and>
     length (frames h q) \<le> 2 ^ k \<and>
     unat (usize_at h 8 m - usize_at h 0 m) = length (frames h q) \<and>
     ring_get (2 ^ k) (unat (usize_at h 0 m)) (length (frames h q)) m = frames h q \<and>
     list_all (\<lambda>p. length p < 2 ^ 32) q"

lemma spsc_inv_D:
  assumes "spsc_inv h k m q"
  shows "ring_layout h m k" "length (frames h q) \<le> 2 ^ k"
    "unat (usize_at h 8 m - usize_at h 0 m) = length (frames h q)"
    "ring_get (2 ^ k) (unat (usize_at h 0 m)) (length (frames h q)) m = frames h q"
    "list_all (\<lambda>p. length p < 2 ^ 32) q"
  using assms by (simp_all add: spsc_inv_def)

lemma spsc_inv_empty_iff:
  assumes "spsc_inv h k m q"
  shows "usize_at h 0 m = usize_at h 8 m \<longleftrightarrow> q = []"
proof -
  have "usize_at h 0 m = usize_at h 8 m \<longleftrightarrow> unat (usize_at h 8 m - usize_at h 0 m) = 0"
    by (auto simp: unat_eq_0)
  also have "\<dots> \<longleftrightarrow> length (frames h q) = 0" by (simp only: spsc_inv_D(3) [OF assms])
  also have "\<dots> \<longleftrightarrow> q = []" by (cases q) auto
  finally show ?thesis .
qed

lemma tail_position:
  assumes "k < 64" "unat (tail - head) = n"
  shows "unat (tail :: usize) mod 2 ^ k = (unat head + n) mod 2 ^ k"
proof -
  have "tail = head + of_nat n" using assms(2) by auto
  then show ?thesis using unat_add_of_nat_mod [OF assms(1)] by simp
qed

interpretation head_tail: two_fields
  0 8 "load_usize h 0" "store_usize h 0" "usize_at h 0" "usize_upd h 0"
  8 8 "load_usize h 8" "store_usize h 8" "usize_at h 8" "usize_upd h 8"
  for h
  by unfold_locales simp

interpretation tail_cap: two_fields
  8 8 "load_usize h 8" "store_usize h 8" "usize_at h 8" "usize_upd h 8"
  16 8 "load_usize h 16" "store_usize h 16" "usize_at h 16" "usize_upd h 16"
  for h
  by unfold_locales simp

interpretation head_cap: two_fields
  0 8 "load_usize h 0" "store_usize h 0" "usize_at h 0" "usize_upd h 0"
  16 8 "load_usize h 16" "store_usize h 16" "usize_at h 16" "usize_upd h 16"
  for h
  by unfold_locales simp

lemmas header_fields = head_tail.val1_upd2 head_tail.val2_upd1 tail_cap.val1_upd2 tail_cap.val2_upd1
  head_cap.val1_upd2 head_cap.val2_upd1 usize_f.val_upd usize_f.upd_length

text \<open>
  Bytes may be written behind the tail while there is room, and the tail moved over them once they are a
  frame: the two halves of a push, which a consumer may see apart.
\<close>

lemma free_space_inv:
  assumes inv: "spsc_inv h k m q" and room: "length (frames h q) + i + length bs \<le> 2 ^ k"
  shows "spsc_inv h k (ring_put (2 ^ k) (unat (usize_at h 8 m) + i) bs m) q"
proof -
  note I = spsc_inv_D [OF inv]
  note k = ring_layout_D [OF I(1)]
  let ?head = "usize_at h 0 m" and ?n = "length (frames h q)"
  let ?m = "ring_put (2 ^ k) (unat (usize_at h 8 m) + i) bs m"
  have eq: "?m = ring_put (2 ^ k) (unat ?head + (?n + i)) bs m"
    using mod_add_cong [OF tail_position [OF k(1) I(3)] refl, of i]
    by (intro ring_put_mod) (simp add: add.assoc)
  have "ring_get (2 ^ k) (unat ?head) (?n + i) ?m = ring_get (2 ^ k) (unat ?head) (?n + i) m"
    unfolding eq using room by (intro ring_get_put_before) simp
  then have "ring_get (2 ^ k) (unat ?head) ?n ?m = ring_get (2 ^ k) (unat ?head) ?n m"
    by (simp add: ring_get_append)
  then show ?thesis using I by (simp add: spsc_inv_def ring_layout_def)
qed

lemma publish_inv:
  assumes inv: "spsc_inv h k m q" and small: "length p < 2 ^ 32"
    and room: "length (frames h q) + 4 + length p \<le> 2 ^ k"
    and there: "ring_get (2 ^ k) (unat (usize_at h 8 m)) (4 + length p) m = frame h p"
  shows "spsc_inv h k (usize_upd h 8 (usize_at h 8 m + of_nat (4 + length p)) m) (q @ [p])"
proof -
  note I = spsc_inv_D [OF inv]
  note k = ring_layout_D [OF I(1)]
  let ?head = "usize_at h 0 m" and ?tail = "usize_at h 8 m" and ?n = "length (frames h q)"
  let ?m2 = "usize_upd h 8 (?tail + of_nat (4 + length p)) m"
  have hdr: "usize_at h 0 ?m2 = ?head" "usize_at h 8 ?m2 = ?tail + of_nat (4 + length p)"
    "usize_at h 16 ?m2 = 2 ^ k" "length ?m2 = length m"
    using k by (simp_all add: header_fields)
  have "unat (?tail - ?head) + unat (of_nat (4 + length p) :: usize) = ?n + 4 + length p"
    and "?n + 4 + length p < 2 ^ 64"
    using I(3) room k(6) frame_len_usize(2) [of p] by simp_all
  then have "unat (usize_at h 8 ?m2 - usize_at h 0 ?m2) = ?n + 4 + length p"
    unfolding hdr using unat_add_usize [of "?tail - ?head" "of_nat (4 + length p)"]
    by (simp add: algebra_simps)
  moreover have "ring_get (2 ^ k) (unat ?head) (?n + (4 + length p)) ?m2 = frames h (q @ [p])"
  proof -
    have "ring_get (2 ^ k) (unat ?head + ?n) (4 + length p) m = frame h p"
      using there ring_get_mod [OF tail_position [OF k(1) I(3)]] by metis
    then show ?thesis
      using I(4) k(3) by (simp add: ring_get_append)
  qed
  ultimately show ?thesis
    using I small room hdr k by (simp add: spsc_inv_def ring_layout_def add.assoc)
qed

lemma push_mem_inv:
  assumes inv: "spsc_inv h k m q" and small: "length p < 2 ^ 32"
    and room: "length (frames h q) + 4 + length p \<le> 2 ^ k"
  shows "spsc_inv h k (push_mem h k p m) (q @ [p])"
proof -
  note k = ring_layout_D [OF spsc_inv_D(1) [OF inv]]
  let ?m1 = "ring_put (2 ^ k) (unat (usize_at h 8 m)) (frame h p) m"
  have "spsc_inv h k ?m1 q"
    using free_space_inv [OF inv, of 0 "frame h p"] room by simp
  moreover have "ring_get (2 ^ k) (unat (usize_at h 8 m)) (4 + length p) ?m1 = frame h p"
    using ring_get_put [of "2 ^ k" m "frame h p" "unat (usize_at h 8 m)"] room k(3) by simp
  ultimately show ?thesis
    using publish_inv [of h k ?m1 q p] small room by (simp add: push_mem_def frame_def)
qed

lemma pop_mem_inv:
  assumes inv: "spsc_inv h k m (p # q)"
  shows "frame_size h k m = length p" "popped h k m = p" "spsc_inv h k (pop_mem h k m) q"
proof -
  note I = spsc_inv_D [OF inv]
  note k = ring_layout_D [OF I(1)]
  let ?head = "usize_at h 0 m" and ?tail = "usize_at h 8 m" and ?n = "length (frames h q)"
  let ?get = "\<lambda>o2 n. ring_get (2 ^ k) (unat ?head + o2) n m"
  have "?get 0 4 @ ?get 4 (length p) @ ?get (4 + length p) ?n =
      ?get 0 (4 + (length p + ?n))"
    by (simp add: ring_get_append add.assoc)
  also have "\<dots> = to_ne_bytes (byte_order h) (of_nat (length p) :: u32) @ p @ frames h q"
    using I(4) by (simp add: frame_def add.assoc)
  finally have parts: "?get 0 4 = to_ne_bytes (byte_order h) (of_nat (length p) :: u32)"
    "?get 4 (length p) = p" "?get (4 + length p) ?n = frames h q"
    by simp_all
  show size: "frame_size h k m = length p"
    using parts(1) I(5) by (simp add: frame_size_def unat_of_nat_u32)
  show "popped h k m = p"
    using parts(2) by (simp add: popped_def size)
  let ?m2 = "pop_mem h k m"
  have m2: "?m2 = usize_upd h 0 (?head + of_nat (4 + length p)) m"
    by (simp add: pop_mem_def size)
  have hdr: "usize_at h 0 ?m2 = ?head + of_nat (4 + length p)" "usize_at h 8 ?m2 = ?tail"
    "usize_at h 16 ?m2 = 2 ^ k" "length ?m2 = length m"
    using k by (simp_all add: m2 header_fields)
  have "?tail - ?head = of_nat (unat (?tail - ?head))" by simp
  also have "\<dots> = of_nat (4 + length p + ?n)" unfolding I(3) by simp
  finally have "?tail - ?head = of_nat (4 + length p + ?n)" .
  then have "usize_at h 8 ?m2 - usize_at h 0 ?m2 = of_nat ?n"
    unfolding hdr by (simp add: algebra_simps)
  moreover have "?n < 2 ^ 64" using I(2) k(6) by simp
  ultimately have "unat (usize_at h 8 ?m2 - usize_at h 0 ?m2) = ?n"
    using unat_of_nat_usize by simp
  moreover have "ring_get (2 ^ k) (unat (usize_at h 0 ?m2)) ?n ?m2 = frames h q"
  proof -
    have "ring_get (2 ^ k) (unat (?head + of_nat (4 + length p))) ?n m = frames h q"
      using parts(3) ring_get_mod [OF unat_add_of_nat_mod [OF k(1)]] by metis
    then show ?thesis using k(3) unfolding hdr by (simp add: m2)
  qed
  ultimately show "spsc_inv h k ?m2 q"
    using I hdr k by (simp add: spsc_inv_def ring_layout_def)
qed

section \<open>Construction sets up the empty queue\<close>

lemma is_power_of_two_iff: "is_power_of_two w \<longleftrightarrow> (\<exists>k<64. w = 2 ^ k)"
  by (auto simp: is_power_of_two_def list_ex_iff)

lemma spsc_new_creator:
  assumes "unat msize = 24 + 2 ^ k" "k \<le> 62" "unat msize \<le> length m"
  shows "\<exists>m'. spsc_new h msize True m = (Inr (), m') \<and> spsc_inv h k m' [] \<and> length m' = length m \<and>
    usize_at h 0 m' = 0"
proof -
  have len: "24 + 2 ^ k \<le> length m" using assms by simp
  have big: "\<not> msize \<le> spsc_header_size"
    using assms(1) by (simp add: word_le_nat_alt spsc_header_size_def)
  have cap: "msize - spsc_header_size = 2 ^ k"
  proof -
    have "unat (msize - spsc_header_size) = 2 ^ k"
      using assms(1) by (simp add: spsc_header_size_def unat_sub word_le_nat_alt)
    then show ?thesis using assms(2) unat_pow2 [of k] by (simp only: word_unat_eq_iff)
  qed
  have pow: "is_power_of_two (2 ^ k)"
    using assms(2) unfolding is_power_of_two_iff by (intro exI [of _ k]) simp
  let ?m = "usize_upd h 16 (2 ^ k) (usize_upd h 8 0 (usize_upd h 0 0 m))"
  have "spsc_new h msize True m = (Inr (), ?m)"
    using big len pow
    by (simp add: spsc_new_def cap usub_no_underflow word_le_nat_alt not_le
        sbind_supd_Inr usize_f.store_upd usize_f.upd_length supd_def)
  moreover have "spsc_inv h k ?m []"
    using len assms(2) by (simp add: spsc_inv_def ring_layout_def header_fields ring_get_def)
  moreover have "usize_at h 0 ?m = 0" "length ?m = length m"
    using len by (simp_all add: header_fields)
  ultimately show ?thesis by blast
qed

lemma push_payload_bytes:
  "length p < 2 ^ 32 \<Longrightarrow> push_payload h (PyBytes p) = Inr p"
  by (simp add: push_payload_def vec_extend_def isize_max_def)

lemma push_payload_length: "push_payload h v = Inr p \<Longrightarrow> length p \<le> isize_max"
  by (cases v) (auto simp: push_payload_def simp del: pack_value.simps dest: pack_value_length pack_all_length)

end
