(* ===== verification/Transition.thy ===== *)
theory Transition
  imports Prelude
begin

text \<open>
  State machines given by their initial states and a step relation: the reachable states, and the
  interface of an invariant (locale \<open>invariant_system\<close>) and of an implementation that follows a
  specification call by call (locale \<open>simulation\<close>).
\<close>

inductive reach :: "('s \<Rightarrow> bool) \<Rightarrow> ('s \<Rightarrow> 's \<Rightarrow> bool) \<Rightarrow> 's \<Rightarrow> bool"
  for start :: "'s \<Rightarrow> bool" and step :: "'s \<Rightarrow> 's \<Rightarrow> bool" where
  reach_start: "start s \<Longrightarrow> reach start step s"
| reach_step: "reach start step s \<Longrightarrow> step s t \<Longrightarrow> reach start step t"

locale invariant_system =
  fixes start :: "'s \<Rightarrow> bool"
    and step :: "'s \<Rightarrow> 's \<Rightarrow> bool"
    and inv :: "'s \<Rightarrow> bool"
  assumes inv_start: "start s \<Longrightarrow> inv s"
    and inv_step: "inv s \<Longrightarrow> step s t \<Longrightarrow> inv t"
begin

lemma reach_inv: "reach start step s \<Longrightarrow> inv s"
  by (induction rule: reach.induct) (auto intro: inv_start inv_step)

end

section \<open>Following a specification\<close>

text \<open>
  A run of calls on the implementation, where \<open>None\<close> is a call that never returns, and on the
  specification, where every call answers.
\<close>

fun run_calls :: "('o \<Rightarrow> 's \<Rightarrow> ('r \<times> 's) option) \<Rightarrow> 'o list \<Rightarrow> 's \<Rightarrow> ('r list \<times> 's) option" where
  "run_calls call [] s = Some ([], s)"
| "run_calls call (x # xs) s =
     (case call x s of
        None \<Rightarrow> None
      | Some (r, s1) \<Rightarrow>
          (case run_calls call xs s1 of None \<Rightarrow> None | Some (rs, s2) \<Rightarrow> Some (r # rs, s2)))"

fun run_spec :: "('o \<Rightarrow> 'a \<Rightarrow> 'r \<times> 'a) \<Rightarrow> 'o list \<Rightarrow> 'a \<Rightarrow> 'r list \<times> 'a" where
  "run_spec spec [] a = ([], a)"
| "run_spec spec (x # xs) a =
     (let (r, a1) = spec x a; (rs, a2) = run_spec spec xs a1 in (r # rs, a2))"

lemma run_spec_append:
  "run_spec spec (xs @ ys) a =
    (fst (run_spec spec xs a) @ fst (run_spec spec ys (snd (run_spec spec xs a))),
     snd (run_spec spec ys (snd (run_spec spec xs a))))"
  by (induction xs arbitrary: a) (auto simp: Let_def split: prod.splits)

text \<open>
  An implementation whose calls follow the specification within limits: the relation may depend on the calls
  that are still to come, so that it can keep account of what they use up. Without such limits it is a
  plain simulation.
\<close>

locale limited_simulation =
  fixes call :: "'o \<Rightarrow> 's \<Rightarrow> ('r \<times> 's) option"
    and spec :: "'o \<Rightarrow> 'a \<Rightarrow> 'r \<times> 'a"
    and rel :: "'o list \<Rightarrow> 's \<Rightarrow> 'a \<Rightarrow> bool"
  assumes limited_call_sim: "rel (x # xs) s a \<Longrightarrow>
      \<exists>s'. call x s = Some (fst (spec x a), s') \<and> rel xs s' (snd (spec x a))"
begin

lemma limited_run_sim:
  "rel (xs @ ys) s a \<Longrightarrow>
   \<exists>s'. run_calls call xs s = Some (fst (run_spec spec xs a), s') \<and> rel ys s' (snd (run_spec spec xs a))"
proof (induction xs arbitrary: s a)
  case (Cons x xs)
  obtain s1 where s1: "call x s = Some (fst (spec x a), s1)" "rel (xs @ ys) s1 (snd (spec x a))"
    using limited_call_sim [of x "xs @ ys"] Cons.prems by auto
  then show ?case
    using Cons.IH [OF s1(2)] by (auto simp: Let_def split: prod.splits)
qed simp

end

locale simulation =
  fixes call :: "'o \<Rightarrow> 's \<Rightarrow> ('r \<times> 's) option"
    and spec :: "'o \<Rightarrow> 'a \<Rightarrow> 'r \<times> 'a"
    and rel :: "'s \<Rightarrow> 'a \<Rightarrow> bool"
  assumes call_sim: "rel s a \<Longrightarrow> \<exists>s'. call x s = Some (fst (spec x a), s') \<and> rel s' (snd (spec x a))"

sublocale simulation \<subseteq> unlimited: limited_simulation call spec "\<lambda>_. rel"
  by unfold_locales (rule call_sim)

context simulation
begin

lemma run_sim:
  "rel s a \<Longrightarrow>
   \<exists>s'. run_calls call xs s = Some (fst (run_spec spec xs a), s') \<and> rel s' (snd (run_spec spec xs a))"
  by (rule unlimited.limited_run_sim)

end

text \<open>Calls that always answer, whatever they answer, run as the specification does.\<close>

lemma run_calls_total: "run_calls (\<lambda>x s. Some (call x s)) xs s = Some (run_spec call xs s)"
  by (induction xs arbitrary: s) (auto simp: Let_def split: prod.splits)

section \<open>A call made of accesses\<close>

text \<open>
  A call of one side, cut into its accesses of the shared state: \<open>access p\<close> makes the next access at the
  program point \<open>p\<close> and moves on, \<open>finished p\<close> is the result at a final one. \<open>run_alone\<close> makes at most the
  given number of accesses with nobody in between. \<open>rest p\<close> is what the code still computes from \<open>p\<close>; a
  call that \<open>resumable\<close> describes runs to exactly that.
\<close>

fun run_alone ::
    "('p \<Rightarrow> 's \<Rightarrow> ('e + 'p) \<times> 's) \<Rightarrow> ('p \<Rightarrow> 'r option) \<Rightarrow> nat \<Rightarrow> 'p \<Rightarrow> 's \<Rightarrow> (('e + 'r) \<times> 's) option" where
  "run_alone access finished 0 p s = map_option (\<lambda>r. (Inr r, s)) (finished p)"
| "run_alone access finished (Suc n) p s =
     (case finished p of
        Some r \<Rightarrow> Some (Inr r, s)
      | None \<Rightarrow>
          (case access p s of
             (Inl e, s) \<Rightarrow> Some (Inl e, s)
           | (Inr p, s) \<Rightarrow> run_alone access finished n p s))"

text \<open>The same call when every access finds the state that others have left it, the \<open>i\<close>-th of the list.\<close>

fun run_among :: "('p \<Rightarrow> 's \<Rightarrow> ('e + 'p) \<times> 's) \<Rightarrow> ('p \<Rightarrow> 'r option) \<Rightarrow> 's list \<Rightarrow> 'p \<Rightarrow> ('e + 'r) option" where
  "run_among access finished [] p = map_option Inr (finished p)"
| "run_among access finished (s # ss) p =
     (case finished p of
        Some r \<Rightarrow> Some (Inr r)
      | None \<Rightarrow>
          (case access p s of
             (Inl e, _) \<Rightarrow> Some (Inl e)
           | (Inr p, _) \<Rightarrow> run_among access finished ss p))"

locale resumable =
  fixes access :: "'p \<Rightarrow> 's \<Rightarrow> ('e + 'p) \<times> 's"
    and finished :: "'p \<Rightarrow> 'r option"
    and rest :: "'p \<Rightarrow> 's \<Rightarrow> ('e + 'r) \<times> 's"
    and ok :: "'p \<Rightarrow> bool"
    and left :: "'p \<Rightarrow> nat"
  assumes rest_finished: "finished p = Some r \<Longrightarrow> rest p s = (Inr r, s)"
    and rest_access: "finished p = None \<Longrightarrow> ok p \<Longrightarrow> rest p s = sbind (access p) rest s"
    and left_pos: "finished p = None \<Longrightarrow> ok p \<Longrightarrow> 0 < left p"
    and ok_access: "finished p = None \<Longrightarrow> ok p \<Longrightarrow> access p s = (Inr q, t) \<Longrightarrow> ok q \<and> left q < left p"
begin

lemma run_is_rest: "ok p \<Longrightarrow> left p \<le> n \<Longrightarrow> run_alone access finished n p s = Some (rest p s)"
proof (induction n arbitrary: p s)
  case 0
  then show ?case using left_pos [of p] by (cases "finished p") (auto simp: rest_finished)
next
  case (Suc n)
  show ?case
  proof (cases "finished p")
    case (Some r)
    then show ?thesis by (simp add: rest_finished)
  next
    case None
    note step = ok_access [OF None Suc.prems(1), of s] and rest = rest_access [OF None Suc.prems(1), of s]
    show ?thesis
    proof (cases "access p s")
      case (Pair res t)
      show ?thesis
      proof (cases res)
        case (Inl e)
        then show ?thesis using None Pair rest by (simp add: sbind_Inl)
      next
        case (Inr q)
        then have "run_alone access finished n q t = Some (rest q t)"
          using step [of q t] Pair Suc.prems by (intro Suc.IH) auto
        then show ?thesis using None Pair Inr rest by (simp add: sbind_Inr)
      qed
    qed
  qed
qed

text \<open>The bound holds whatever the others do.\<close>

lemma run_among_ends: "ok p \<Longrightarrow> left p \<le> length ss \<Longrightarrow> \<exists>r. run_among access finished ss p = Some r"
proof (induction ss arbitrary: p)
  case Nil
  then show ?case using left_pos [of p] by (cases "finished p") auto
next
  case (Cons s ss)
  show ?case
  proof (cases "finished p")
    case None
    show ?thesis
    proof (cases "access p s")
      case (Pair res t)
      then show ?thesis
        using None ok_access [OF None Cons.prems(1), of s] Cons.prems(2) Cons.IH by (cases res) fastforce+
    qed
  qed simp
qed

end

end
