(* ===== verification/SpscSpec.thy ===== *)
theory SpscSpec
  imports SpscQueue Transition
begin

text \<open>
  What a ring buffer promises: a bounded queue of payloads. \<open>queue_call\<close> is that specification for every
  method of the class and every argument, with the exceptions that packing and decoding raise; every
  call on a ring that holds a queue is shown to follow it, within the limits of the format (frames of
  less than 4 GiB) and, in a build that checks overflow, of the 64-bit positions.
\<close>

section \<open>The queries\<close>

lemma ring_used:
  assumes "spsc_inv h k m q"
  shows "used h m = (Inr (of_nat (length (frames h q))), m)"
proof -
  note I = spsc_inv_D [OF assms]
  have "(of_nat (unat (usize_at h 8 m - usize_at h 0 m)) :: usize) = of_nat (length (frames h q))"
    using I(3) by (rule arg_cong)
  then show ?thesis
    using ring_layout_D(2) [OF I(1)] by (simp add: used_def ring_access sreturn_def)
qed

lemma length_frames_usize:
  assumes "spsc_inv h k m q"
  shows "unat (of_nat (length (frames h q)) :: usize) = length (frames h q)"
  using spsc_inv_D(2) [OF assms] ring_layout_D(6) [OF spsc_inv_D(1) [OF assms]]
  by (intro unat_of_nat_usize) simp

lemma ring_free:
  assumes "spsc_inv h k m q"
  shows "free h m = (Inr (of_nat (2 ^ k - length (frames h q))), m)"
proof -
  note I = spsc_inv_D [OF assms] and L = ring_layout_D [OF spsc_inv_D(1) [OF assms]]
  have le: "2 ^ k - length (frames h q) < 2 ^ 64" using L(6) by simp
  have "unat (saturating_sub (2 ^ k) (of_nat (length (frames h q))) :: usize) = 2 ^ k - length (frames h q)"
    unfolding unat_saturating_sub length_frames_usize [OF assms] L(5) ..
  then have "saturating_sub (2 ^ k) (of_nat (length (frames h q))) = (of_nat (2 ^ k - length (frames h q)) :: usize)"
    unfolding word_unat_eq_iff unat_of_nat_usize [OF le] .
  then show ?thesis
    using L(2,4) ring_used [OF assms] by (simp add: free_def ring_access sbind_Inr sreturn_def)
qed

lemma ring_queries:
  assumes "spsc_inv h k m q"
  shows "capacity h m = (Inr (2 ^ k), m) \<and>
    used h m = (Inr (of_nat (length (frames h q))), m) \<and>
    free h m = (Inr (of_nat (2 ^ k - length (frames h q))), m) \<and>
    is_empty h m = (Inr (q = []), m) \<and>
    is_full h m = (Inr (length (frames h q) = 2 ^ k), m)"
proof -
  note I = spsc_inv_D [OF assms] and L = ring_layout_D [OF spsc_inv_D(1) [OF assms]]
  have "is_empty h m = (Inr (q = []), m)"
    using L(2) spsc_inv_empty_iff [OF assms] by (simp add: is_empty_def ring_access sreturn_def)
  moreover have "(2 ^ k \<le> (of_nat (length (frames h q)) :: usize)) = (length (frames h q) = 2 ^ k)"
    unfolding word_le_nat_alt length_frames_usize [OF assms] L(5) using I(2) by auto
  then have "is_full h m = (Inr (length (frames h q) = 2 ^ k), m)"
    using L(2,4) ring_used [OF assms] by (simp add: is_full_def ring_access sbind_Inr sreturn_def)
  moreover have "capacity h m = (Inr (2 ^ k), m)"
    using L(2,4) by (simp add: capacity_def sget_def usize_f.load_val)
  ultimately show ?thesis using ring_used [OF assms] ring_free [OF assms] by simp
qed

section \<open>The specification\<close>

datatype ring_op =
    Push py
  | Pop "string option"
  | PopMixed "py list"
  | Used
  | Capacity
  | Free
  | IsEmpty
  | IsFull
  | RingRepr

datatype ring_val =
    Pushed bool
  | Popped "py option"
  | PoppedMixed "py list option"
  | Amount usize
  | Flag bool
  | Shown string

type_synonym ring_answer = "fault + ring_val"

fun ring_call :: "host \<Rightarrow> spsc_ring \<Rightarrow> ring_op \<Rightarrow> memory \<Rightarrow> ring_answer \<times> memory" where
  "ring_call h r (Push v) = sbind (push h r v) (\<lambda>b. sreturn (Pushed b))"
| "ring_call h r (Pop tag) = sbind (pop h tag) (\<lambda>x. sreturn (Popped x))"
| "ring_call h r (PopMixed schema) = sbind (pop_mixed h schema) (\<lambda>xs. sreturn (PoppedMixed xs))"
| "ring_call h r Used = sbind (used h) (\<lambda>n. sreturn (Amount n))"
| "ring_call h r Capacity = sbind (capacity h) (\<lambda>n. sreturn (Amount n))"
| "ring_call h r Free = sbind (free h) (\<lambda>n. sreturn (Amount n))"
| "ring_call h r IsEmpty = sbind (is_empty h) (\<lambda>b. sreturn (Flag b))"
| "ring_call h r IsFull = sbind (is_full h) (\<lambda>b. sreturn (Flag b))"
| "ring_call h r RingRepr = sbind (spsc_repr h) (\<lambda>s. sreturn (Shown s))"

definition queue_bytes :: "u8 list list \<Rightarrow> nat" where
  "queue_bytes q = sum_list (map (\<lambda>p. 4 + length p) q)"

text \<open>What a pop makes of the payload it has taken off.\<close>

definition answer_pop :: "host \<Rightarrow> string option \<Rightarrow> u8 list \<Rightarrow> ring_answer" where
  "answer_pop h tag p =
     (case tag of
        None \<Rightarrow> Inr (Popped (Some (PyBytes p)))
      | Some t \<Rightarrow> bind (unpack_one h p t) (\<lambda>(x, _). Inr (Popped (Some x))))"

definition answer_pop_mixed :: "host \<Rightarrow> py list \<Rightarrow> u8 list \<Rightarrow> ring_answer" where
  "answer_pop_mixed h schema p =
     bind (unpack_mixed_counted h p schema) (\<lambda>(xs, _). Inr (PoppedMixed (Some xs)))"

text \<open>The queue of a ring of the capacity \<open>c\<close>, in a mapping of \<open>msize\<close> bytes.\<close>

fun queue_call ::
    "host \<Rightarrow> usize \<Rightarrow> nat \<Rightarrow> ring_op \<Rightarrow> u8 list list \<Rightarrow> ring_answer \<times> u8 list list" where
  "queue_call h msize c (Push v) q =
     (case push_payload h v of
        Inl e \<Rightarrow> (Inl e, q)
      | Inr p \<Rightarrow>
          if c < 4 + length p then (too_large msize (of_nat c) (length p), q)
          else if c < queue_bytes q + 4 + length p then (Inr (Pushed False), q)
          else (Inr (Pushed True), q @ [p]))"
| "queue_call h msize c (Pop tag) [] = (Inr (Popped None), [])"
| "queue_call h msize c (Pop tag) (p # q) = (answer_pop h tag p, q)"
| "queue_call h msize c (PopMixed schema) [] = (Inr (PoppedMixed None), [])"
| "queue_call h msize c (PopMixed schema) (p # q) = (answer_pop_mixed h schema p, q)"
| "queue_call h msize c Used q = (Inr (Amount (of_nat (queue_bytes q))), q)"
| "queue_call h msize c Capacity q = (Inr (Amount (of_nat c)), q)"
| "queue_call h msize c Free q = (Inr (Amount (of_nat (c - queue_bytes q))), q)"
| "queue_call h msize c IsEmpty q = (Inr (Flag (q = [])), q)"
| "queue_call h msize c IsFull q = (Inr (Flag (queue_bytes q = c)), q)"
| "queue_call h msize c RingRepr q =
     (Inr (Shown (''SpscRingBuffer(capacity='' @ show_usize (of_nat c) @ '', used='' @
       show_usize (of_nat (queue_bytes q)) @ '', free='' @ show_usize (of_nat (c - queue_bytes q)) @ '')'')), q)"

section \<open>First in, first out\<close>

text \<open>
  The payloads that a run of calls has put in, and what the calls that took one off answered, each with
  its call.
\<close>

fun accepted :: "host \<Rightarrow> ring_op list \<Rightarrow> ring_answer list \<Rightarrow> u8 list list" where
  "accepted h (Push v # xs) (Inr (Pushed True) # rs) =
     (case push_payload h v of Inl e \<Rightarrow> accepted h xs rs | Inr p \<Rightarrow> p # accepted h xs rs)"
| "accepted h (x # xs) (r # rs) = accepted h xs rs"
| "accepted h xs rs = []"

fun takes_off :: "ring_op \<Rightarrow> ring_answer \<Rightarrow> bool" where
  "takes_off (Pop tag) r = (r \<noteq> Inr (Popped None))"
| "takes_off (PopMixed schema) r = (r \<noteq> Inr (PoppedMixed None))"
| "takes_off x r = False"

definition removals :: "ring_op list \<Rightarrow> ring_answer list \<Rightarrow> (ring_op \<times> ring_answer) list" where
  "removals xs rs = filter (\<lambda>(x, r). takes_off x r) (zip xs rs)"

fun decodes :: "host \<Rightarrow> ring_op \<times> ring_answer \<Rightarrow> u8 list \<Rightarrow> bool" where
  "decodes h (Pop tag, r) p = (r = answer_pop h tag p)"
| "decodes h (PopMixed schema, r) p = (r = answer_pop_mixed h schema p)"
| "decodes h (x, r) p = False"

lemma accepted_other: "r \<noteq> Inr (Pushed True) \<Longrightarrow> accepted h (x # xs) (r # rs) = accepted h xs rs"
  by (cases "(h, x # xs, r # rs)" rule: accepted.cases) simp_all

lemma too_large_Inr [simp]: "too_large msize c n \<noteq> Inr x"
  by (simp add: too_large_def shm_err_def)

lemma removals_Cons: "removals (x # xs) (r # rs) = (if takes_off x r then (x, r) # removals xs rs else removals xs rs)"
  by (simp add: removals_def)

lemma answers_take_off [simp]:
  "answer_pop h tag p \<noteq> Inr (Popped None)" "answer_pop_mixed h schema p \<noteq> Inr (PoppedMixed None)"
  by (auto simp: answer_pop_def answer_pop_mixed_def bind_eq_Inr split: option.splits)

lemma queue_fifo:
  "run_spec (queue_call h msize c) xs q = (rs, q') \<Longrightarrow>
   \<exists>ps. q @ accepted h xs rs = ps @ q' \<and> list_all2 (decodes h) (removals xs rs) ps"
proof (induction xs arbitrary: q rs)
  case Nil
  then show ?case by (simp add: removals_def)
next
  case (Cons x xs)
  obtain r q1 where r: "queue_call h msize c x q = (r, q1)" by fastforce
  obtain rs1 where run: "run_spec (queue_call h msize c) xs q1 = (rs1, q')" and rs: "rs = r # rs1"
    using Cons.prems r by (auto simp: Let_def split: prod.splits)
  obtain ps where ps: "q1 @ accepted h xs rs1 = ps @ q'" "list_all2 (decodes h) (removals xs rs1) ps"
    using Cons.IH [OF run] by blast
  consider (push) v where "x = Push v" | (pop) tag where "x = Pop tag" | (mixed) schema where "x = PopMixed schema"
    | (query) "x \<in> {Used, Capacity, Free, IsEmpty, IsFull, RingRepr}"
    by (cases x) auto
  then show ?case
  proof cases
    case push
    then show ?thesis
      using r ps by (auto simp: rs removals_Cons accepted_other split: sum.splits if_splits)
  next
    case pop
    then show ?thesis
      using r ps by (cases q) (auto simp: rs removals_Cons intro!: exI [of _ "hd q # ps"])
  next
    case mixed
    then show ?thesis
      using r ps by (cases q) (auto simp: rs removals_Cons intro!: exI [of _ "hd q # ps"])
  next
    case query
    then show ?thesis using r ps by (auto simp: rs removals_Cons)
  qed
qed

section \<open>Limits\<close>

text \<open>
  \<open>offered\<close>: the bytes by which a call may move the tail. The format limits a payload to less than 4 GiB,
  which a ring of at most 4 GiB enforces by itself; a build that checks overflow limits the positions.
\<close>

fun offered :: "host \<Rightarrow> nat \<Rightarrow> ring_op \<Rightarrow> nat" where
  "offered h c (Push v) =
     (case push_payload h v of Inl e \<Rightarrow> 0 | Inr p \<Rightarrow> if c < 4 + length p then 0 else 4 + length p)"
| "offered h c x = 0"

definition within_limits :: "host \<Rightarrow> nat \<Rightarrow> ring_op list \<Rightarrow> bool" where
  "within_limits h c xs \<longleftrightarrow>
     list_all (\<lambda>x. offered h c x < 4 + 2 ^ 32) xs \<and>
     (overflow_checks h \<longrightarrow> sum_list (map (offered h c) xs) < 2 ^ 64)"

lemma offered_le: "offered h c x \<le> c"
  by (cases x) (auto split: sum.splits)

lemma within_limits_small: "c \<le> 2 ^ 32 \<Longrightarrow> \<not> overflow_checks h \<Longrightarrow> within_limits h c xs"
  by (auto simp: within_limits_def list_all_iff intro!: le_less_trans [OF offered_le])

section \<open>Every call follows the specification\<close>

text \<open>
  In a build that checks overflow the positions have not wrapped and what the calls to come may push
  still fits below 2^64.
\<close>

definition ring_holds :: "host \<Rightarrow> nat \<Rightarrow> ring_op list \<Rightarrow> memory \<Rightarrow> u8 list list \<Rightarrow> bool" where
  "ring_holds h k xs m q \<longleftrightarrow>
     spsc_inv h k m q \<and> list_all (\<lambda>x. offered h (2 ^ k) x < 4 + 2 ^ 32) xs \<and>
     (overflow_checks h \<longrightarrow> unat (usize_at h 0 m) + length (frames h q) = unat (usize_at h 8 m) \<and>
        unat (usize_at h 8 m) + sum_list (map (offered h (2 ^ k)) xs) < 2 ^ 64)"

lemma queue_bytes_frames: "queue_bytes q = length (frames h q)"
  by (simp add: queue_bytes_def length_frames)

lemma push_holds:
  assumes "ring_holds h k (Push v # xs) m q"
  shows "\<exists>m'. ring_call h (from_ptr msize) (Push v) m = (fst (queue_call h msize (2 ^ k) (Push v) q), m') \<and>
    ring_holds h k xs m' (snd (queue_call h msize (2 ^ k) (Push v) q))"
proof -
  have inv: "spsc_inv h k m q" using assms by (simp add: ring_holds_def)
  note I = spsc_inv_D [OF inv]
  note L = ring_layout_D [OF I(1)]
  have rest: "ring_holds h k xs m q" using assms by (auto simp: ring_holds_def)
  show ?thesis
  proof (cases "push_payload h v")
    case (Inl e)
    then have "push h (from_ptr msize) v m = (Inl e, m)" by (simp add: push_def)
    then show ?thesis using rest Inl by (simp add: sbind_Inl)
  next
    case (Inr p)
    consider (large) "2 ^ k < 4 + length p"
      | (full) "4 + length p \<le> 2 ^ k" "2 ^ k < length (frames h q) + 4 + length p"
      | (room) "4 + length p \<le> 2 ^ k" "length (frames h q) + 4 + length p \<le> 2 ^ k"
      by linarith
    then show ?thesis
    proof cases
      case large
      have "push h (from_ptr msize) v m = (too_large msize (2 ^ k) (length p), m)"
        using push_too_large_run [OF I(1) Inr push_payload_length [OF Inr] large, of "from_ptr msize"]
        by (simp add: from_ptr_def)
      then show ?thesis using rest Inr large by (simp add: too_large_def shm_err_def sbind_Inl)
    next
      case full
      have run: "push h (from_ptr msize) v m = (Inr False, m)"
        using full I by (intro push_full_run [OF I(1) Inr]) simp_all
      show ?thesis
        using rest Inr full
        by (simp add: queue_bytes_frames [of _ h] sreturn_def sbind_Inr [where f = "push h (from_ptr msize) v", OF run])
    next
      case room
      have off: "offered h (2 ^ k) (Push v) = 4 + length p" using Inr room(1) by simp
      have small: "length p < 2 ^ 32" using assms off by (simp add: ring_holds_def del: offered.simps)
      have ovf: "overflow_checks h \<longrightarrow> unat (usize_at h 8 m) + (4 + length p) < 2 ^ 64"
        using assms off by (auto simp: ring_holds_def simp del: offered.simps)
      have run: "push h (from_ptr msize) v m = (Inr True, push_mem h k p m)"
        using room(2) ovf I by (intro push_run [OF I(1) Inr]) simp_all
      have inv': "spsc_inv h k (push_mem h k p m) (q @ [p])"
        by (rule push_mem_inv [OF inv small room(2)])
      have tail: "usize_at h 0 (push_mem h k p m) = usize_at h 0 m"
        "usize_at h 8 (push_mem h k p m) = usize_at h 8 m + of_nat (4 + length p)"
        using L(2) by (simp_all add: push_mem_def header_fields)
      have "unat (usize_at h 8 (push_mem h k p m)) = unat (usize_at h 8 m) + (4 + length p)" if "overflow_checks h"
        using ovf that frame_len_usize(2) [of p] unat_add_usize [of "usize_at h 8 m" "of_nat (4 + length p)"]
        by (simp add: tail)
      then have "ring_holds h k xs (push_mem h k p m) (q @ [p])"
        using assms inv' tail(1) off by (auto simp: ring_holds_def simp del: offered.simps)
      then show ?thesis
        using Inr room
        by (simp add: queue_bytes_frames [of _ h] sreturn_def sbind_Inr [where f = "push h (from_ptr msize) v", OF run])
    qed
  qed
qed

lemma pop_holds:
  assumes "ring_holds h k (x # xs) m q" "x = Pop tag \<or> x = PopMixed schema"
  shows "\<exists>m'. ring_call h r x m = (fst (queue_call h msize (2 ^ k) x q), m') \<and>
    ring_holds h k xs m' (snd (queue_call h msize (2 ^ k) x q))"
proof -
  have inv: "spsc_inv h k m q" and rest: "ring_holds h k xs m q"
    using assms by (auto simp: ring_holds_def)
  note L = ring_layout_D [OF spsc_inv_D(1) [OF inv]]
  show ?thesis
  proof (cases q)
    case Nil
    then have "usize_at h 0 m = usize_at h 8 m" using spsc_inv_empty_iff [OF inv] by simp
    then show ?thesis
      using assms(2) rest Nil pop_empty_run [OF L(2)] by (auto simp: sbind_Inr sreturn_def)
  next
    case (Cons p q')
    note P = pop_mem_inv [OF inv [unfolded Cons]]
    have ne: "usize_at h 0 m \<noteq> usize_at h 8 m" using spsc_inv_empty_iff [OF inv] Cons by simp
    have ovf: "overflow_checks h \<longrightarrow> unat (usize_at h 0 m) + 4 + frame_size h k m < 2 ^ 64"
      using rest Cons P(1) by (auto simp: ring_holds_def)
    note run = pop_run [OF spsc_inv_D(1) [OF inv] ne ovf, unfolded P(2)]
    have head: "usize_at h 8 (pop_mem h k m) = usize_at h 8 m"
      "usize_at h 0 (pop_mem h k m) = usize_at h 0 m + of_nat (4 + length p)"
      using L(2) P(1) by (simp_all add: pop_mem_def header_fields)
    have "4 + length p < 2 ^ 64" using spsc_inv_D(2) [OF inv] L(6) Cons by simp
    then have "unat (usize_at h 0 (pop_mem h k m)) = unat (usize_at h 0 m) + (4 + length p)" if "overflow_checks h"
      using ovf that frame_len_usize(2) [of p] unat_add_usize [of "usize_at h 0 m" "of_nat (4 + length p)"]
      by (simp add: head(2) P(1))
    then have "ring_holds h k xs (pop_mem h k m) q'"
      using rest P(3) head(1) Cons by (auto simp: ring_holds_def)
    then show ?thesis
      using assms(2) run Cons
      by (auto simp: answer_pop_def answer_pop_mixed_def sbind_def sreturn_def bind_def
          split: option.splits sum.splits)
  qed
qed

lemma query_holds:
  assumes "ring_holds h k (x # xs) m q" "x \<in> {Used, Capacity, Free, IsEmpty, IsFull, RingRepr}"
  shows "ring_call h r x m = (fst (queue_call h msize (2 ^ k) x q), m)"
    "snd (queue_call h msize (2 ^ k) x q) = q"
proof -
  have inv: "spsc_inv h k m q" using assms(1) by (simp add: ring_holds_def)
  note Q = ring_queries [OF inv]
  have c: "(of_nat (2 ^ k) :: usize) = 2 ^ k" by simp
  show "ring_call h r x m = (fst (queue_call h msize (2 ^ k) x q), m)"
    using assms(2) Q unfolding spsc_repr_def
    by (auto simp: queue_bytes_frames [of _ h] sbind_Inr sreturn_def c spsc_repr_def)
  show "snd (queue_call h msize (2 ^ k) x q) = q" using assms(2) by auto
qed

interpretation ring: limited_simulation
  "\<lambda>x m. Some (ring_call h (from_ptr msize) x m)" "queue_call h msize (2 ^ k)" "ring_holds h k"
  for h msize k
proof
  fix x xs m q
  assume holds: "ring_holds h k (x # xs) m q"
  then have rest: "ring_holds h k xs m q" if "x \<in> {Used, Capacity, Free, IsEmpty, IsFull, RingRepr}"
    using that by (auto simp: ring_holds_def)
  consider (push) v where "x = Push v" | (pop) tag schema where "x = Pop tag \<or> x = PopMixed schema"
    | (query) "x \<in> {Used, Capacity, Free, IsEmpty, IsFull, RingRepr}"
    by (cases x) auto
  then have "\<exists>m'. ring_call h (from_ptr msize) x m = (fst (queue_call h msize (2 ^ k) x q), m') \<and>
      ring_holds h k xs m' (snd (queue_call h msize (2 ^ k) x q))"
  proof cases
    case push
    then show ?thesis using push_holds holds by blast
  next
    case pop
    then show ?thesis using pop_holds [OF holds] by blast
  next
    case query
    then show ?thesis using query_holds [OF holds query] rest by metis
  qed
  then show "\<exists>m'. Some (ring_call h (from_ptr msize) x m) =
      Some (fst (queue_call h msize (2 ^ k) x q), m') \<and>
      ring_holds h k xs m' (snd (queue_call h msize (2 ^ k) x q))"
    by simp
qed

lemma ring_run:
  assumes "ring_holds h k (xs @ ys) m q"
  shows "\<exists>m'. run_spec (ring_call h (from_ptr msize)) xs m = (fst (run_spec (queue_call h msize (2 ^ k)) xs q), m') \<and>
    ring_holds h k ys m' (snd (run_spec (queue_call h msize (2 ^ k)) xs q))"
  using ring.limited_run_sim [OF assms, of msize] by (auto simp: run_calls_total)

lemma ring_holds_new:
  assumes "spsc_inv h k m []" "usize_at h 0 m = 0" "within_limits h (2 ^ k) xs"
  shows "ring_holds h k xs m []"
  using assms spsc_inv_empty_iff [OF assms(1)] by (simp add: ring_holds_def within_limits_def)

end
