(* ===== verification/SpscProps.thy ===== *)
theory SpscProps
  imports SpscSpec
begin

text \<open>
  The properties of the ring buffer: the queue it is, the outcome of every operation on every branch, and
  where its assumptions are needed.
\<close>

section \<open>A small ring\<close>

text \<open>A region of 24 + 16 bytes, as a creator leaves it, and one with two messages in it.\<close>

definition ring16 :: memory where
  "ring16 = snd (spsc_new le_host 40 True (replicate 40 0))"

lemma ring16_new: "spsc_new le_host 40 True (replicate 40 0) = (Inr (), ring16)"
  and ring16_inv: "spsc_inv le_host 4 ring16 []"
  and ring16_length: "length ring16 = 40"
  using spsc_new_creator [of 40 4 "replicate 40 0" le_host] by (auto simp: ring16_def)

definition ring16_two :: memory where
  "ring16_two = push_mem le_host 4 [7, 8] (push_mem le_host 4 [1] ring16)"

lemma ring16_two_inv: "spsc_inv le_host 4 ring16_two [[1], [7, 8]]"
  using push_mem_inv [OF push_mem_inv [OF ring16_inv, of "[1]"], of "[7, 8]"]
  by (simp add: ring16_two_def length_frames)

text \<open>
  Sixteen bytes: a message that fits, one larger than the ring, a value that cannot be packed, a message
  that does not fit now, a pop with a tag that does not match, a list that a schema reads back.
\<close>

definition demo_calls :: "ring_op list" where
  "demo_calls =
     [Push (PyBytes [1, 2, 3]), Push (PyBytes (replicate 13 0)), Push (PyTuple []), Push (PyBytes (replicate 6 0)),
      Used, Pop (Some ''int''), IsEmpty, Push (PyList [PyBool True, PyBool False]),
      PopMixed [PyTuple [py_str ''bool'', PyInt 2]], Pop None]"

lemma demo_calls_answers:
  "\<exists>x y. fst (run_spec (queue_call le_host 40 16) demo_calls []) =
     [Inr (Pushed True), too_large 40 16 13, py_raise x, Inr (Pushed False), Inr (Amount 7), py_raise y,
      Inr (Flag True), Inr (Pushed True), Inr (PoppedMixed (Some [PyList [PyBool True, PyBool False]])),
      Inr (Popped None)]"
proof -
  have "\<exists>x. push_payload le_host (PyTuple []) = py_raise x"
    by (simp add: push_payload_def shm_err_def)
  then obtain x where x: "push_payload le_host (PyTuple []) = py_raise x" ..
  have "\<exists>y. answer_pop le_host (Some ''int'') [1, 2, 3] = py_raise y"
    by (simp add: answer_pop_def unpack_one_def not_enough_def shm_err_def)
  then obtain y where y: "answer_pop le_host (Some ''int'') [1, 2, 3] = py_raise y" ..
  have l: "push_payload le_host (PyList [PyBool True, PyBool False]) = Inr [1, 0]"
    by (simp add: push_payload_def vec_extend_def isize_max_def)
  let ?gs = "[(''bool'', [PyBool True, PyBool False])]"
  have "list_all (group_ok le_host) ?gs"
    by (simp add: group_ok_def element_body_def is_ascii_def)
  moreover have "pack_mixed le_host (map group_item ?gs) = Inr [1, 0]"
    by (simp add: pack_mixed_def group_item_def vec_extend_def isize_max_def)
  ultimately have "unpack_mixed_counted le_host [1, 0] [PyTuple [py_str ''bool'', PyInt 2]] =
      Inr ([PyList [PyBool True, PyBool False]], slice_len [1, 0])"
    using pack_unpack_mixed [OF cpython_ok, where gs = ?gs and bs = "[1, 0]" and rest = "[]"]
    by (simp add: group_schema_def group_result_def isize_max_def)
  then have m: "answer_pop_mixed le_host [PyTuple [py_str ''bool'', PyInt 2]] [1, 0] =
      Inr (PoppedMixed (Some [PyList [PyBool True, PyBool False]]))"
    by (simp add: answer_pop_mixed_def)
  show ?thesis
    by (intro exI [of _ x] exI [of _ y])
      (simp add: demo_calls_def x y l m push_payload_bytes queue_bytes_def)
qed

section \<open>Properties\<close>

text \<open>
  C1: The ring is a bounded first-in first-out queue of payloads. On a segment that its creator has just
  set up, with a capacity of 2^k bytes (k at most 62), any sequence of calls of any of the methods (push of
  any value, pop with any tag, pop_mixed, the queries, repr) gives exactly the answers of a bounded
  queue of 2^k bytes, a frame costing 4 bytes more than its payload: also where push raises because a
  value cannot be packed or is larger than the ring, and where decoding a message fails. And the calls
  that took a message off answered, in order, with the decoded payloads of a prefix of those accepted.
  The limits: no payload of 4 GiB or more that the ring has the capacity for (a ring of at most
  4 GiB has none), and, only in a build that checks overflow, less than 2^64 bytes pushed in all.
\<close>

theorem spsc_fifo:
  assumes "unat msize = 24 + 2 ^ k" "k \<le> 62" "unat msize \<le> length m" "within_limits h (2 ^ k) xs"
  shows "\<exists>m0 m1 rs q ps. spsc_new h msize True m = (Inr (), m0) \<and>
    run_spec (ring_call h (from_ptr msize)) xs m0 = (rs, m1) \<and>
    run_spec (queue_call h msize (2 ^ k)) xs [] = (rs, q) \<and>
    accepted h xs rs = ps @ q \<and> list_all2 (decodes h) (removals xs rs) ps"
proof -
  obtain m0 where m0: "spsc_new h msize True m = (Inr (), m0)" "spsc_inv h k m0 []" "usize_at h 0 m0 = 0"
    using spsc_new_creator [OF assms(1-3)] by blast
  have "ring_holds h k (xs @ []) m0 []" using ring_holds_new [OF m0(2,3) assms(4)] by simp
  from ring_run [OF this, of msize] obtain m1 where
    run: "run_spec (ring_call h (from_ptr msize)) xs m0 = (fst (run_spec (queue_call h msize (2 ^ k)) xs []), m1)"
    by blast
  obtain rs q where spec: "run_spec (queue_call h msize (2 ^ k)) xs [] = (rs, q)" by fastforce
  from queue_fifo [OF this] show ?thesis using m0(1) run spec by fastforce
qed

theorem spsc_fifo_witness:
  "\<exists>m0 m1 x y. spsc_new le_host 40 True (replicate 40 0) = (Inr (), m0) \<and>
    run_spec (ring_call le_host (from_ptr 40)) demo_calls m0 =
      ([Inr (Pushed True), too_large 40 16 13, py_raise x, Inr (Pushed False), Inr (Amount 7), py_raise y,
        Inr (Flag True), Inr (Pushed True), Inr (PoppedMixed (Some [PyList [PyBool True, PyBool False]])),
        Inr (Popped None)], m1)"
proof -
  have "within_limits le_host (2 ^ 4) demo_calls" by (rule within_limits_small) simp_all
  from spsc_fifo [OF _ _ _ this, of 40 "replicate 40 0"] obtain m0 m1 rs q where
    "spsc_new le_host 40 True (replicate 40 0) = (Inr (), m0)"
    "run_spec (ring_call le_host (from_ptr 40)) demo_calls m0 = (rs, m1)"
    "run_spec (queue_call le_host 40 16) demo_calls [] = (rs, q)"
    by auto
  with demo_calls_answers show ?thesis by (metis fst_conv)
qed

text \<open>
  C17: What push does on every branch, on a ring that holds the messages q, for values that pack to
  less than 4 GiB (and, in a build that checks overflow, while the tail stays below 2^64): a value
  that cannot be packed is reported and nothing changes; a frame larger than the capacity is a
  ValueError; a frame that does not fit now answers False and leaves the region as it was; otherwise
  the answer is True and the ring holds q followed by the packed value.
\<close>

theorem push_outcome:
  assumes "spsc_inv h k m q"
    and "\<forall>p. push_payload h v = Inr p \<longrightarrow> length p < 2 ^ 32 \<and>
      (overflow_checks h \<longrightarrow> unat (usize_at h 8 m) + 4 + length p < 2 ^ 64)"
  shows "case push_payload h v of
      Inl e \<Rightarrow> push h r v m = (Inl e, m)
    | Inr p \<Rightarrow>
        if 2 ^ k < 4 + length p then \<exists>msg. push h r v m = (py_raise (PyValueError msg), m)
        else if 2 ^ k < length (frames h q) + 4 + length p then push h r v m = (Inr False, m)
        else \<exists>m'. push h r v m = (Inr True, m') \<and> spsc_inv h k m' (q @ [p])"
proof (cases "push_payload h v")
  case (Inl e)
  then show ?thesis by (simp add: push_def)
next
  case (Inr p)
  note I = spsc_inv_D [OF assms(1)]
  have small: "length p < 2 ^ 32" "length p \<le> isize_max"
    and ovf: "overflow_checks h \<longrightarrow> unat (usize_at h 8 m) + 4 + length p < 2 ^ 64"
    using assms(2) Inr by (auto simp: isize_max_def)
  consider "2 ^ k < 4 + length p"
    | "4 + length p \<le> 2 ^ k" "2 ^ k < length (frames h q) + 4 + length p"
    | "4 + length p \<le> 2 ^ k" "length (frames h q) + 4 + length p \<le> 2 ^ k"
    by linarith
  then show ?thesis
  proof cases
    case 1
    then show ?thesis using Inr push_too_large_run [OF I(1) Inr small(2)] too_large_raises by simp
  next
    case 2
    then have "push h r v m = (Inr False, m)"
      using I by (intro push_full_run [OF I(1) Inr]) simp_all
    then show ?thesis using Inr 2 by simp
  next
    case 3
    then have "push h r v m = (Inr True, push_mem h k p m)"
      using I ovf by (intro push_run [OF I(1) Inr]) simp_all
    then show ?thesis using Inr 3 push_mem_inv [OF assms(1) small(1) 3(2)] by simp
  qed
qed

theorem push_outcome_witness:
  "\<exists>m'. push le_host (from_ptr 40) (PyBytes [1, 2, 3]) ring16_two = (Inr False, m') \<and>
    m' = ring16_two"
  using push_outcome [OF ring16_two_inv, of "PyBytes [1, 2, 3]" "from_ptr 40"]
  by (simp add: push_payload_bytes)

text \<open>
  C18: What pop and pop_mixed do: on an empty ring both answer None and change nothing; otherwise (in
  a build that checks overflow, while the frames stay below position 2^64) the oldest message p is
  taken off, whatever happens next: without a tag it is returned as bytes, with a tag or a schema the
  outcome is that of decoding p, and when the decoding fails the message is gone all the same.
\<close>

theorem pop_outcome:
  assumes "spsc_inv h k m q"
    and "overflow_checks h \<longrightarrow> unat (usize_at h 0 m) + length (frames h q) < 2 ^ 64"
  shows "case q of
      [] \<Rightarrow> pop h tag m = (Inr None, m) \<and> pop_mixed h schema m = (Inr None, m)
    | p # q' \<Rightarrow> \<exists>m'. spsc_inv h k m' q' \<and>
        pop h tag m =
          (case tag of
             None \<Rightarrow> Inr (Some (PyBytes p))
           | Some t \<Rightarrow> bind (unpack_one h p t) (\<lambda>(v, _). Inr (Some v)), m') \<and>
        pop_mixed h schema m =
          (bind (unpack_mixed_counted h p schema) (\<lambda>(vs, _). Inr (Some vs)), m')"
proof (cases q)
  case Nil
  have "usize_at h 0 m = usize_at h 8 m" using spsc_inv_empty_iff [OF assms(1)] Nil by simp
  then show ?thesis
    using pop_empty_run ring_layout_D(2) [OF spsc_inv_D(1) [OF assms(1)]] Nil by simp
next
  case (Cons p q')
  note inv = assms(1) [unfolded Cons]
  note P = pop_mem_inv [OF inv]
  have "usize_at h 0 m \<noteq> usize_at h 8 m" using spsc_inv_empty_iff [OF inv] by simp
  moreover have "overflow_checks h \<longrightarrow> unat (usize_at h 0 m) + 4 + frame_size h k m < 2 ^ 64"
    using assms(2) Cons P(1) by auto
  ultimately have "pop h tag m =
      (case tag of
         None \<Rightarrow> Inr (Some (PyBytes p))
       | Some t \<Rightarrow> bind (unpack_one h p t) (\<lambda>(v, _). Inr (Some v)), pop_mem h k m)"
    and "pop_mixed h schema m =
      (bind (unpack_mixed_counted h p schema) (\<lambda>(vs, _). Inr (Some vs)), pop_mem h k m)"
    using pop_run [OF spsc_inv_D(1) [OF inv]] P(2) by (auto split: option.splits)
  then show ?thesis using P(3) Cons by auto
qed

theorem pop_outcome_witness:
  "\<exists>m'. spsc_inv le_host 4 m' [[7, 8]] \<and>
    pop le_host (Some ''int'') ring16_two =
      (bind (unpack_one le_host [1] ''int'') (\<lambda>(v, _). Inr (Some v)), m')"
  using pop_outcome [OF ring16_two_inv, of "Some ''int''"] by auto

text \<open>
  C33: The queries tell the state of the queue: used is the number of bytes of the frames in it, free
  what is left of the capacity, is_empty whether there is no message and is_full whether the frames
  fill the buffer, also when the 64-bit positions have wrapped.
\<close>

theorem queries_exact:
  assumes "spsc_inv h k m q"
  shows "capacity h m = (Inr (2 ^ k), m) \<and>
    used h m = (Inr (of_nat (length (frames h q))), m) \<and>
    free h m = (Inr (of_nat (2 ^ k - length (frames h q))), m) \<and>
    is_empty h m = (Inr (q = []), m) \<and>
    is_full h m = (Inr (length (frames h q) = 2 ^ k), m)"
  by (rule ring_queries [OF assms])

theorem queries_exact_witness:
  "used le_host ring16_two = (Inr 11, ring16_two) \<and> free le_host ring16_two = (Inr 5, ring16_two)"
  using queries_exact [OF ring16_two_inv] by simp

lemma spsc_new_cases:
  assumes "unat msize = length m" "length m \<le> isize_max"
  shows "if \<exists>k. length m = 24 + 2 ^ k
    then \<exists>k m'. spsc_new h msize True m = (Inr (), m') \<and> spsc_inv h k m' [] \<and> length m = 24 + 2 ^ k
    else \<exists>msg. spsc_new h msize True m = (py_raise (PyValueError msg), m)"
proof (cases "\<exists>k. length m = 24 + 2 ^ k")
  case True
  then obtain k where k: "length m = 24 + 2 ^ k" by blast
  have "(2 :: nat) ^ k < 2 ^ 63" using k assms(2) by (simp add: isize_max_def)
  then have "k < 63" by (rule power_less_imp_less_exp [rotated]) simp
  then have "k \<le> 62" by simp
  then have "\<exists>m'. spsc_new h msize True m = (Inr (), m') \<and> spsc_inv h k m' []"
    using spsc_new_creator [of msize k m h] assms(1) k by auto
  then show ?thesis using True k by auto
next
  case False
  show ?thesis
  proof (cases "msize \<le> spsc_header_size")
    case True
    then show ?thesis using False by (simp add: spsc_new_def sdo_def shm_err_InvalidArg)
  next
    case big: False
    let ?cap = "msize - spsc_header_size"
    have le: "spsc_header_size \<le> msize" using big by simp
    have cap: "unat ?cap = length m - 24"
      using le assms(1) by (simp add: unat_sub spsc_header_size_def)
    have "unat spsc_header_size < unat msize" using big by (simp only: word_less_nat_alt [symmetric] not_le)
    then have l24: "24 < length m" using assms(1) by (simp add: spsc_header_size_def)
    have npow: "\<not> is_power_of_two ?cap"
    proof
      assume "is_power_of_two ?cap"
      then obtain j where "j < 64" "?cap = 2 ^ j" by (auto simp: is_power_of_two_iff)
      then have "length m - 24 = 2 ^ j" using cap unat_pow2 [of j] by simp
      then show False using False l24 by (metis less_imp_le le_add_diff_inverse)
    qed
    have "unat ?cap \<le> unat (2 ^ 63 :: usize)"
      using cap assms(2) unat_pow2 [of 63] by (simp add: isize_max_def)
    then have fits: "?cap \<le> 2 ^ 63" by (simp only: word_le_nat_alt)
    have "(63 :: nat) \<in> set [0..<64]" by simp
    then have "find (\<lambda>k. ?cap \<le> 2 ^ k) [0..<64] \<noteq> None"
      unfolding find_None_iff using fits by blast
    then obtain up where "next_power_of_two h ?cap = Inr up"
      by (auto simp: next_power_of_two_def)
    then show ?thesis
      using False big le npow by (simp add: spsc_new_def usub_no_underflow sdo_def shm_err_InvalidArg)
  qed
qed

text \<open>
  A creator gets a ring exactly when the data capacity is a power of two: on a region of the
  given size, the construction succeeds and sets up the empty queue if the size is 24 + 2^k for some
  k, and otherwise is a ValueError that writes nothing; it never panics.
\<close>

theorem spsc_new_decides:
  assumes "unat msize = length m" "length m \<le> isize_max"
  shows "if \<exists>k. length m = 24 + 2 ^ k
    then \<exists>k m'. spsc_new h msize True m = (Inr (), m') \<and> spsc_inv h k m' [] \<and> length m = 24 + 2 ^ k
    else \<exists>msg. spsc_new h msize True m = (py_raise (PyValueError msg), m)"
  by (rule spsc_new_cases [OF assms])

theorem spsc_new_decides_witness:
  "\<exists>msg. spsc_new le_host 48 True (replicate 48 0) = (py_raise (PyValueError msg), replicate 48 0)"
proof -
  have "(48 :: nat) \<noteq> 24 + 2 ^ k" for k
  proof
    assume "(48 :: nat) = 24 + 2 ^ k"
    then have "(2 :: nat) ^ k = 24" by simp
    moreover have "(2 :: nat) ^ k \<le> 2 ^ 4 \<or> (2 :: nat) ^ 5 \<le> 2 ^ k"
      using power_increasing [of k 4 "2 :: nat"] power_increasing [of 5 k "2 :: nat"] by linarith
    ultimately show False by auto
  qed
  then show ?thesis
    using spsc_new_decides [of 48 "replicate 48 0" le_host] by (simp add: isize_max_def)
qed

text \<open>
  C37: The 32-bit length prefix loses messages of 4 GiB and more: on an empty ring large enough, push
  accepts such a payload, but the next pop returns only its first (length mod 2^32) bytes.
\<close>

theorem push_truncates_length:
  assumes "spsc_inv h k m []" "\<not> overflow_checks h"
    and "2 ^ 32 \<le> length p" "4 + length p \<le> 2 ^ k"
  shows "\<exists>m1 m2. push h r (PyBytes p) m = (Inr True, m1) \<and>
    pop h None m1 = (Inr (Some (PyBytes (take (length p mod 2 ^ 32) p))), m2)"
proof -
  note I = spsc_inv_D [OF assms(1)]
  note L = ring_layout_D [OF I(1)]
  let ?tail = "usize_at h 8 m" and ?m1 = "push_mem h k p m"
  let ?frame = "to_ne_bytes (byte_order h) (of_nat (length p) :: u32) @ p"
  let ?mid = "ring_put (2 ^ k) (unat ?tail) ?frame m"
  have len: "length p \<le> isize_max" using assms(4) L(6) by (simp add: isize_max_def)
  have pay: "push_payload h (PyBytes p) = Inr p"
    using len by (simp add: push_payload_def vec_extend_def)
  have push: "push h r (PyBytes p) m = (Inr True, ?m1)"
    using assms I by (intro push_run [OF I(1) pay]) simp_all
  have ht: "usize_at h 0 m = ?tail" using spsc_inv_empty_iff [OF assms(1)] by simp
  have m1: "?m1 = usize_upd h 8 (?tail + of_nat (4 + length p)) ?mid"
    by (simp add: push_mem_def)
  have l: "24 \<le> length ?mid" "24 + 2 ^ k \<le> length ?mid" using L by simp_all
  have lay: "ring_layout h ?m1 k"
    using I(1) l by (simp add: ring_layout_def m1 header_fields)
  have head: "usize_at h 0 ?m1 = ?tail" and tail: "usize_at h 8 ?m1 = ?tail + of_nat (4 + length p)"
    using l(1) ht by (simp_all add: m1 header_fields)
  have "unat (of_nat (4 + length p) :: usize) = 4 + length p"
    using assms(4) L(6) by (intro unat_of_nat_usize) simp
  then have "(of_nat (4 + length p) :: usize) \<noteq> 0"
    by (metis add_eq_0_iff_both_eq_0 unat_0 zero_neq_numeral)
  then have ne: "usize_at h 0 ?m1 \<noteq> usize_at h 8 ?m1" unfolding head tail by simp
  have "ring_get (2 ^ k) (unat ?tail) (4 + length p) ?mid = ?frame"
    using assms(4) L(3) by (subst ring_get_put [symmetric]) simp_all
  then have all: "ring_get (2 ^ k) (unat ?tail) (4 + length p) ?m1 = ?frame"
    using l(2) by (simp add: m1)
  then have parts: "ring_get (2 ^ k) (unat ?tail) 4 ?m1 = to_ne_bytes (byte_order h) (of_nat (length p) :: u32)"
    "ring_get (2 ^ k) (unat ?tail + 4) (length p) ?m1 = p"
    by (simp_all add: ring_get_append)
  have size: "frame_size h k ?m1 = length p mod 2 ^ 32"
    unfolding frame_size_def head parts(1) by (simp add: unat_of_nat take_bit_eq_mod)
  have le: "length p mod 2 ^ 32 \<le> length p" by simp
  have "popped h k ?m1 = take (length p mod 2 ^ 32) (ring_get (2 ^ k) (unat ?tail + 4) (length p) ?m1)"
    unfolding popped_def head size using le by (simp add: ring_get_def take_map)
  then have "pop h None ?m1 = (Inr (Some (PyBytes (take (length p mod 2 ^ 32) p))), pop_mem h k ?m1)"
    using pop_run(1) [OF lay ne] assms(2) parts(2) by simp
  then show ?thesis using push by blast
qed

theorem push_truncates_length_witness:
  "\<exists>(p :: u8 list) m m1 m2. length p = 2 ^ 32 \<and> push le_host (from_ptr 40) (PyBytes p) m = (Inr True, m1) \<and>
    pop le_host None m1 = (Inr (Some (PyBytes [])), m2)"
proof -
  obtain p :: "u8 list" where p: "length p = 2 ^ 32" using Ex_list_of_length by blast
  obtain m :: memory where m: "length m = 24 + 2 ^ 33" using Ex_list_of_length by blast
  have "unat (24 + 2 ^ 33 :: usize) = 24 + 2 ^ 33" by simp
  then obtain m0 where "spsc_inv le_host 33 m0 []"
    using spsc_new_creator [of "24 + 2 ^ 33" 33 m le_host] m by auto
  then show ?thesis
    using push_truncates_length [of le_host 33 m0 p "from_ptr 40"] p by fastforce
qed

text \<open>
  C38: An opener trusts the header it finds: constructing a ring on an existing segment accepts any
  bytes, and when the capacity in them sends the head past the end of the region, pop reads outside
  the mapping.
\<close>

theorem opener_trusts_header:
  assumes "24 < unat msize" "length m = unat msize"
    and "usize_at h 16 m = 2 ^ k" "k < 64" "usize_at h 0 m \<noteq> usize_at h 8 m"
    and "length m \<le> 24 + unat (usize_at h 0 m) mod 2 ^ k"
  shows "spsc_new h msize False m = (Inr (), m) \<and> (\<exists>u. pop h tag m = (Inl (UB u), m))"
proof -
  have "\<not> unat msize \<le> unat spsc_header_size"
    using assms(1) by (simp add: spsc_header_size_def)
  then have "spsc_new h msize False m = (Inr (), m)"
    by (simp add: spsc_new_def word_le_nat_alt sreturn_def)
  moreover have len: "24 \<le> length m" using assms(1,2) by simp
  let ?head = "usize_at h 0 m"
  have u: "uadd h ?head 0 = Inr ?head"
    using unat_less_usize [of ?head] by (simp add: uadd_def)
  have "(1 :: usize) \<le> 2 ^ k" using unat_pow2 [OF assms(4)] by (simp add: word_le_nat_alt)
  then have msk: "usub h (2 ^ k) 1 = Inr (2 ^ k - 1)" by simp
  have "load_u8 (data_off (?head AND (2 ^ k - 1))) m = Inl (UB ''read outside the mapping'')"
    using assms(6) data_off_mask [OF assms(4), of ?head 0] by (simp add: load_u8_def not_less)
  then have "read_bytes h ?head 4 (2 ^ k) m = (Inl (UB ''read outside the mapping''), m)"
    using read_loop.simps(2) [of h ?head "2 ^ k - 1" 0 3 "[]"] u
    by (simp add: read_bytes_def msk sbind_sget_Inl del: read_loop.simps)
  then have "pop h tag m = (Inl (UB ''read outside the mapping''), m)"
    using assms(3,5) len by (simp add: pop_def ring_access sbind_Inl)
  ultimately show ?thesis by blast
qed

text \<open>Header fields of a region, for the examples.\<close>

definition with_header :: "host \<Rightarrow> usize \<Rightarrow> usize \<Rightarrow> usize \<Rightarrow> memory \<Rightarrow> memory" where
  "with_header h head tail cap m = usize_upd h 16 cap (usize_upd h 8 tail (usize_upd h 0 head m))"

lemma with_header_fields:
  assumes "24 \<le> length m"
  shows "usize_at h 0 (with_header h head tail cap m) = head"
    "usize_at h 8 (with_header h head tail cap m) = tail"
    "usize_at h 16 (with_header h head tail cap m) = cap"
    "length (with_header h head tail cap m) = length m"
  using assms by (simp_all add: with_header_def header_fields)

definition bad_header :: memory where
  "bad_header = with_header le_host 100 0 (2 ^ 40) (replicate 40 0)"

lemma bad_header_fields:
  "usize_at le_host 0 bad_header = 100" "usize_at le_host 8 bad_header = 0"
  "usize_at le_host 16 bad_header = 2 ^ 40" "length bad_header = 40"
  unfolding bad_header_def by (simp_all add: with_header_fields)

theorem opener_trusts_header_witness:
  "spsc_new le_host 40 False bad_header = (Inr (), bad_header) \<and>
    (\<exists>u. pop le_host None bad_header = (Inl (UB u), bad_header))"
  by (rule opener_trusts_header [of 40 bad_header le_host 40])
    (simp_all add: bad_header_fields)

section \<open>Builds that check overflow\<close>

lemma write_loop_overflow:
  assumes "overflow_checks h" "k < 64" "24 + 2 ^ k \<le> length m"
    and "unat pos + i \<le> 2 ^ 64" "2 ^ 64 < unat pos + i + length bs" "i + length bs < 2 ^ 64"
  shows "\<exists>m'. write_loop h pos (2 ^ k - 1) i bs m = (Inl (Panic ''attempt to add with overflow''), m')"
  using assms(3-)
proof (induction bs arbitrary: i m)
  case (Cons b bs)
  have ui: "unat (of_nat i :: usize) = i" using Cons.prems(4) by (intro unat_of_nat_usize) simp
  show ?case
  proof (cases "unat pos + i = 2 ^ 64")
    case True
    then have "uadd h pos (of_nat i) = Inl (Panic ''attempt to add with overflow'')"
      using assms(1) ui by (simp add: uadd_def)
    then show ?thesis by auto
  next
    case False
    then have u: "uadd h pos (of_nat i) = Inr (pos + of_nat i)"
      using Cons.prems(2) ui by (simp add: uadd_def)
    let ?o = "data_off ((pos + of_nat i) AND (2 ^ k - 1))"
    have "?o < length m"
      unfolding data_off_mask [OF assms(2)] by (rule mod_pow2_off [OF Cons.prems(1)])
    then have st: "store_u8 ?o b m = Inr (m[?o := b])" by (simp add: store_u8_def)
    obtain m' where "write_loop h pos (2 ^ k - 1) (Suc i) bs (m[?o := b]) =
        (Inl (Panic ''attempt to add with overflow''), m')"
      using Cons.IH [of "m[?o := b]" "Suc i"] Cons.prems False by auto
    then show ?thesis using u st by (simp add: sbind_supd_Inr)
  qed
qed simp

text \<open>
  C39: The positions are meant to wrap, but in a build that checks overflow (the default of a debug
  profile) a push that fits panics once the tail is within 3 bytes of 2^64, with part of the length
  prefix written and the tail not moved.
\<close>

theorem push_panics_near_wrap:
  assumes "spsc_inv h k m q" "overflow_checks h" "2 ^ 64 - 4 < unat (usize_at h 8 m)"
    and "push_payload h v = Inr p" "length (frames h q) + 4 + length p \<le> 2 ^ k"
  shows "\<exists>m'. push h r v m = (Inl (Panic ''attempt to add with overflow''), m')"
proof -
  note I = spsc_inv_D [OF assms(1)]
  note L = ring_layout_D [OF I(1)]
  let ?tail = "usize_at h 8 m" and ?used = "usize_at h 8 m - usize_at h 0 m"
  let ?lb = "to_ne_bytes (byte_order h) (ucast (slice_len p) :: u32)"
  have room: "unat ?used + 4 + length p \<le> 2 ^ k" using assms(5) I(3) by simp
  have len: "4 + length p < 2 ^ 64" using room L(6) by simp
  note fl = frame_len_usize(1) [OF len, of h] frame_len_usize(2) [OF len]
  have big: "\<not> (2 ^ k < (of_nat (4 + length p) :: usize))"
    using room L(5) unfolding word_less_nat_alt fl(2) by simp
  have sum: "unat ?used + unat (of_nat (4 + length p) :: usize) < 2 ^ 64"
    using room L(6) unfolding fl(2) by simp
  have full: "\<not> (2 ^ k < ?used + of_nat (4 + length p))"
    using room L(5) unfolding word_less_nat_alt unat_add_usize [OF sum] fl(2) by simp
  have "(1 :: usize) \<le> 2 ^ k" using L(5) by (simp add: word_le_nat_alt)
  then have msk: "usub h (2 ^ k) 1 = Inr (2 ^ k - 1)" by simp
  have "\<exists>m'. write_loop h ?tail (2 ^ k - 1) 0 ?lb m = (Inl (Panic ''attempt to add with overflow''), m')"
    using unat_less_usize [of ?tail] assms(3)
    by (intro write_loop_overflow [OF assms(2) L(1,3)]) simp_all
  then obtain m' where "write_bytes h ?tail ?lb (2 ^ k) m = (Inl (Panic ''attempt to add with overflow''), m')"
    by (auto simp: write_bytes_def msk)
  then have "push h r v m = (Inl (Panic ''attempt to add with overflow''), m')"
    unfolding push_def assms(4) sbind_sdo_Inr fl(1) sbind_capacity [OF L(2)] L(4)
      sbind_load_head [OF L(2)] sbind_load_tail [OF L(2)] Let_def if_not_P [OF big]
      uadd_no_overflow [OF sum] if_not_P [OF full]
    by (simp add: sbind_Inl)
  then show ?thesis by blast
qed

definition late_ring :: memory where
  "late_ring = with_header (cpython LittleEndian True) (- 2) (- 2) 16 (replicate 40 0)"

lemma late_ring_fields:
  "usize_at (cpython LittleEndian True) 0 late_ring = - 2"
  "usize_at (cpython LittleEndian True) 8 late_ring = - 2"
  "usize_at (cpython LittleEndian True) 16 late_ring = 16" "length late_ring = 40"
  unfolding late_ring_def by (simp_all add: with_header_fields)

lemma late_ring_inv: "spsc_inv (cpython LittleEndian True) 4 late_ring []"
  by (simp add: spsc_inv_def ring_layout_def late_ring_fields ring_get_def)

theorem push_panics_near_wrap_witness:
  "\<exists>m'. push (cpython LittleEndian True) (from_ptr 40) (PyBytes [1]) late_ring =
    (Inl (Panic ''attempt to add with overflow''), m')"
  by (rule push_panics_near_wrap [OF late_ring_inv, where p = "[1]"])
    (simp_all add: push_payload_bytes late_ring_fields)

end
