(* ===== verification/SpscConc.thy ===== *)
theory SpscConc
  imports SpscQueue Transition
begin

text \<open>
  The ring buffer under concurrent use: one producer inside \<open>push\<close> and one consumer inside \<open>pop\<close>,
  interleaved at single accesses of the region: the loads and stores of head and tail, and every byte
  the copy loops read or write. This theory cuts the two calls into their accesses and shows that each side
  alone is the function of \<open>Spsc\<close>; \<open>SpscSys\<close> lets the two run together.
\<close>

section \<open>The producer\<close>

text \<open>
  The program points of a push of the packed payload \<open>p\<close>, each named after its next access:
  \<open>PCap\<close> the capacity, \<open>PHead\<close> the head, \<open>PTail\<close> the tail, \<open>PWrite\<close> byte \<open>i\<close> of the frame or, after the
  last one, the store of the tail.
\<close>

datatype prod_pc =
    PIdle
  | PCap "u8 list"
  | PHead "u8 list" usize
  | PTail "u8 list" usize usize
  | PWrite "u8 list" usize usize nat
  | PDone bool

definition len_prefix :: "host \<Rightarrow> u8 list \<Rightarrow> u8 list" where
  "len_prefix h p = to_ne_bytes (byte_order h) (ucast (slice_len p) :: u32)"

definition write_slot :: "host \<Rightarrow> usize \<Rightarrow> usize \<Rightarrow> nat \<Rightarrow> u8 \<Rightarrow> memory \<Rightarrow> (fault + unit) \<times> memory" where
  "write_slot h cap pos i b =
     sbind (sdo (usub h cap 1)) (\<lambda>msk.
     sbind (sdo (uadd h pos (of_nat i))) (\<lambda>s.
     supd (store_u8 (data_off (s AND msk)) b)))"

fun prod_access :: "host \<Rightarrow> spsc_ring \<Rightarrow> prod_pc \<Rightarrow> memory \<Rightarrow> (fault + prod_pc) \<times> memory" where
  "prod_access h r (PCap p) =
     sbind (sdo (uadd h 4 (slice_len p))) (\<lambda>frame_len.
     sbind (capacity h) (\<lambda>cap.
     if cap < frame_len then
       sdo (invalid_arg (''message too large: frame_len='' @ show_usize frame_len @
         '' > capacity='' @ show_usize cap @ ''                  (map_size='' @
         show_usize (map_size r) @ '')''))
     else sreturn (PHead p cap)))"
| "prod_access h r (PHead p cap) = sbind (load_head h) (\<lambda>head. sreturn (PTail p cap head))"
| "prod_access h r (PTail p cap head) =
     sbind (load_tail h) (\<lambda>tail.
     sbind (sdo (uadd h (tail - head) (4 + slice_len p))) (\<lambda>needed.
     sreturn (if cap < needed then PDone False else PWrite p cap tail 0)))"
| "prod_access h r (PWrite p cap tail i) =
     (if i < 4 then
        sbind (write_slot h cap tail i (len_prefix h p ! i)) (\<lambda>_. sreturn (PWrite p cap tail (Suc i)))
      else
        sbind (sdo (uadd h tail 4)) (\<lambda>pos.
        if i < 4 + length p then
          sbind (write_slot h cap pos (i - 4) (p ! (i - 4))) (\<lambda>_. sreturn (PWrite p cap tail (Suc i)))
        else sbind (store_tail h (tail + (4 + slice_len p))) (\<lambda>_. sreturn (PDone True))))"
| "prod_access h r pc = sreturn pc"

fun prod_finished :: "prod_pc \<Rightarrow> bool option" where
  "prod_finished (PDone b) = Some b"
| "prod_finished pc = None"

section \<open>The consumer\<close>

text \<open>
  The program points of a pop: \<open>CHead\<close>, \<open>CTail\<close> and \<open>CCap\<close> load the header; \<open>CLen\<close> and \<open>CPay\<close> read the next
  byte of the prefix and of the payload, having read those in \<open>acc\<close>; after the last one \<open>CPay\<close> stores the
  head.
\<close>

datatype cons_pc =
    CIdle
  | CHead
  | CTail usize
  | CCap usize
  | CLen usize usize "u8 list"
  | CPay usize usize usize "u8 list"
  | CDone "u8 list option"

definition read_slot :: "host \<Rightarrow> usize \<Rightarrow> usize \<Rightarrow> nat \<Rightarrow> memory \<Rightarrow> (fault + u8) \<times> memory" where
  "read_slot h cap pos i =
     sbind (sdo (usub h cap 1)) (\<lambda>msk.
     sbind (sdo (uadd h pos (of_nat i))) (\<lambda>s.
     sget (load_u8 (data_off (s AND msk)))))"

definition after_len :: "host \<Rightarrow> usize \<Rightarrow> usize \<Rightarrow> u8 list \<Rightarrow> cons_pc" where
  "after_len h head cap acc =
     (if length acc < 4 then CLen head cap acc
      else CPay head cap (ucast (from_ne_bytes (byte_order h) acc :: u32)) [])"

fun cons_access :: "host \<Rightarrow> cons_pc \<Rightarrow> memory \<Rightarrow> (fault + cons_pc) \<times> memory" where
  "cons_access h CHead = sbind (load_head h) (\<lambda>head. sreturn (CTail head))"
| "cons_access h (CTail head) =
     sbind (load_tail h) (\<lambda>tail. sreturn (if head = tail then CDone None else CCap head))"
| "cons_access h (CCap head) = sbind (capacity h) (\<lambda>cap. sreturn (CLen head cap []))"
| "cons_access h (CLen head cap acc) =
     sbind (read_slot h cap head (length acc)) (\<lambda>b. sreturn (after_len h head cap (acc @ [b])))"
| "cons_access h (CPay head cap n acc) =
     sbind (sdo (uadd h head 4)) (\<lambda>pos.
     if length acc < unat n then
       sbind (read_slot h cap pos (length acc)) (\<lambda>b. sreturn (CPay head cap n (acc @ [b])))
     else
       sbind (sdo (uadd h 4 n)) (\<lambda>frame_len.
       sbind (store_head h (head + frame_len)) (\<lambda>_. sreturn (CDone (Some acc)))))"
| "cons_access h pc = sreturn pc"

fun cons_finished :: "cons_pc \<Rightarrow> u8 list option option" where
  "cons_finished (CDone r) = Some r"
| "cons_finished pc = None"

section \<open>The producer alone is push\<close>

text \<open>What \<open>push\<close> still does from a program point, over the copy loops of \<open>Spsc\<close>.\<close>

definition push_payload_from :: "host \<Rightarrow> u8 list \<Rightarrow> usize \<Rightarrow> usize \<Rightarrow> nat \<Rightarrow> memory \<Rightarrow> (fault + bool) \<times> memory" where
  "push_payload_from h p cap tail j =
     sbind (sdo (uadd h tail 4)) (\<lambda>pos.
     sbind (write_loop h pos (cap - 1) j (drop j p)) (\<lambda>_.
     sbind (store_tail h (tail + (4 + slice_len p))) (\<lambda>_. sreturn True)))"

definition push_frame_from :: "host \<Rightarrow> u8 list \<Rightarrow> usize \<Rightarrow> usize \<Rightarrow> nat \<Rightarrow> memory \<Rightarrow> (fault + bool) \<times> memory" where
  "push_frame_from h p cap tail i =
     (if i < 4 then
        sbind (write_loop h tail (cap - 1) i (drop i (len_prefix h p)))
          (\<lambda>_. push_payload_from h p cap tail 0)
      else push_payload_from h p cap tail (i - 4))"

definition push_tail_from :: "host \<Rightarrow> u8 list \<Rightarrow> usize \<Rightarrow> usize \<Rightarrow> memory \<Rightarrow> (fault + bool) \<times> memory" where
  "push_tail_from h p cap head =
     sbind (load_tail h) (\<lambda>tail.
     sbind (sdo (uadd h (tail - head) (4 + slice_len p))) (\<lambda>needed.
     if cap < needed then sreturn False else push_frame_from h p cap tail 0))"

fun push_from :: "host \<Rightarrow> spsc_ring \<Rightarrow> prod_pc \<Rightarrow> memory \<Rightarrow> (fault + bool) \<times> memory" where
  "push_from h r (PCap p) =
     sbind (sdo (uadd h 4 (slice_len p))) (\<lambda>frame_len.
     sbind (capacity h) (\<lambda>cap.
     if cap < frame_len then
       sdo (invalid_arg (''message too large: frame_len='' @ show_usize frame_len @
         '' > capacity='' @ show_usize cap @ ''                  (map_size='' @
         show_usize (map_size r) @ '')''))
     else sbind (load_head h) (\<lambda>head. push_tail_from h p cap head)))"
| "push_from h r (PHead p cap) = sbind (load_head h) (\<lambda>head. push_tail_from h p cap head)"
| "push_from h r (PTail p cap head) = push_tail_from h p cap head"
| "push_from h r (PWrite p cap tail i) = push_frame_from h p cap tail i"
| "push_from h r (PDone b) = sreturn b"
| "push_from h r PIdle = sreturn False"

fun prod_ok :: "prod_pc \<Rightarrow> bool" where
  "prod_ok PIdle = False"
| "prod_ok (PCap p) = (length p \<le> isize_max)"
| "prod_ok (PHead p cap) = (length p \<le> isize_max \<and> 1 \<le> cap)"
| "prod_ok (PTail p cap head) = (length p \<le> isize_max \<and> 1 \<le> cap)"
| "prod_ok (PWrite p cap tail i) = (i \<le> 4 + length p \<and> 1 \<le> cap)"
| "prod_ok (PDone b) = True"

fun prod_left :: "prod_pc \<Rightarrow> nat" where
  "prod_left PIdle = 0"
| "prod_left (PCap p) = 8 + length p"
| "prod_left (PHead p cap) = 7 + length p"
| "prod_left (PTail p cap head) = 6 + length p"
| "prod_left (PWrite p cap tail i) = 5 + length p - i"
| "prod_left (PDone b) = 0"

lemma length_len_prefix [simp]: "length (len_prefix h p) = 4"
  by (simp add: len_prefix_def)

lemma write_loop_slot:
  assumes "1 \<le> cap" "i < length src"
  shows "write_loop h pos (cap - 1) i (drop i src) =
    sbind (write_slot h cap pos i (src ! i)) (\<lambda>_. write_loop h pos (cap - 1) (Suc i) (drop (Suc i) src))"
  using assms by (intro ext)
    (simp add: Cons_nth_drop_Suc [symmetric] write_slot_def sbind_assoc)

lemma push_frame_access:
  assumes "1 \<le> cap" "i \<le> 4 + length p"
  shows "push_frame_from h p cap tail i m = sbind (prod_access h r (PWrite p cap tail i)) (push_from h r) m"
proof -
  consider "i < 3" | "i = 3" | "4 \<le> i" "i < 4 + length p" | "i = 4 + length p"
    using assms(2) by linarith
  then show ?thesis
  proof cases
    case 1
    then show ?thesis
      using write_loop_slot [OF assms(1), of i "len_prefix h p"]
      by (simp add: push_frame_from_def sbind_assoc)
  next
    case 2
    then show ?thesis
      using write_loop_slot [OF assms(1), of i "len_prefix h p"]
      by (simp add: push_frame_from_def sbind_assoc)
  next
    case 3
    then obtain j where "i = 4 + j" "j < length p" using le_Suc_ex [of 4 i] by auto
    then show ?thesis
      using write_loop_slot [OF assms(1), of j p]
      by (cases "uadd h tail 4") (simp_all add: push_frame_from_def push_payload_from_def sbind_assoc)
  next
    case 4
    then show ?thesis
      by (simp add: push_frame_from_def push_payload_from_def sbind_assoc)
  qed
qed


lemma prod_access_ok:
  assumes "prod_finished pc = None" "prod_ok pc" "prod_access h r pc m = (Inr pc', m')"
  shows "prod_ok pc' \<and> prod_left pc' < prod_left pc"
proof (cases pc)
  case (PCap p)
  then have "length p \<le> isize_max" "\<not> usize_at h 16 m < 4 + slice_len p" "pc' = PHead p (usize_at h 16 m)"
    using assms by (auto simp: sbind_eq_Inr sdo_def sget_def capacity_def load_usize_def uadd_def sreturn_def
        split: if_splits)
  moreover from this have "1 \<le> usize_at h 16 m"
    by (simp add: word_le_nat_alt word_less_nat_alt isize_max_def unat_add_usize not_less)
  ultimately show ?thesis using PCap by simp
qed (use assms in \<open>auto simp: sbind_eq_Inr sdo_def sreturn_def split: if_splits\<close>)

interpretation push_call: resumable "prod_access h r" prod_finished "push_from h r" prod_ok prod_left
  for h r
proof
  fix pc q s t b
  show "prod_finished pc = Some b \<Longrightarrow> push_from h r pc s = (Inr b, s)"
    by (cases pc) (simp_all add: sreturn_def)
  show "prod_finished pc = None \<Longrightarrow> prod_ok pc \<Longrightarrow> 0 < prod_left pc"
    by (cases pc) auto
  show "prod_finished pc = None \<Longrightarrow> prod_ok pc \<Longrightarrow> prod_access h r pc s = (Inr q, t) \<Longrightarrow>
      prod_ok q \<and> prod_left q < prod_left pc"
    by (rule prod_access_ok)
  show "push_from h r pc s = sbind (prod_access h r pc) (push_from h r) s"
    if "prod_finished pc = None" "prod_ok pc"
  proof (cases pc)
    case (PWrite p cap tail i)
    then show ?thesis using that by (simp add: push_frame_access [of cap i p h tail s r] del: prod_access.simps)
  next
    case (PCap p)
    show ?thesis unfolding PCap push_from.simps prod_access.simps sbind_assoc
      by (intro sbind_cong_state) (simp add: sbind_sdo_shm_err)
  qed (use that in \<open>auto simp: sbind_assoc push_tail_from_def intro!: sbind_cong_state\<close>)
qed


lemma write_bytes_loop: "1 \<le> cap \<Longrightarrow> write_bytes h pos src cap = write_loop h pos (cap - 1) 0 src"
  by (rule ext) (simp add: write_bytes_def)

lemma push_is_rest:
  assumes "push_payload h v = Inr p" "length p \<le> isize_max"
  shows "push h r v m = push_from h r (PCap p) m"
proof -
  have one: "1 \<le> cap" if "\<not> cap < 4 + slice_len p" for cap :: usize
    using that assms(2)
    by (simp add: word_le_nat_alt word_less_nat_alt isize_max_def unat_add_usize not_less)
  have fl: "uadd h 4 (slice_len p) = Inr (4 + slice_len p)"
    using assms(2) by (simp add: isize_max_def)
  show ?thesis
    unfolding push_def assms(1) sbind_sdo_Inr push_from.simps fl
    by (intro sbind_cong_state)
      (auto simp: one push_tail_from_def push_frame_from_def push_payload_from_def write_bytes_loop
        len_prefix_def Let_def intro!: sbind_cong_state)
qed

lemma push_alone:
  assumes "push_payload h v = Inr p" "length p \<le> isize_max" "8 + length p \<le> n"
  shows "run_alone (prod_access h r) prod_finished n (PCap p) m = Some (push h r v m)"
  using push_call.run_is_rest [of "PCap p" n h r m] assms by (simp add: push_is_rest)

section \<open>The consumer alone is pop\<close>

definition pop_payload_from ::
    "host \<Rightarrow> usize \<Rightarrow> usize \<Rightarrow> usize \<Rightarrow> u8 list \<Rightarrow> memory \<Rightarrow> (fault + u8 list option) \<times> memory" where
  "pop_payload_from h head cap n acc =
     sbind (sdo (uadd h head 4)) (\<lambda>pos.
     sbind (read_loop h pos (cap - 1) (length acc) (unat n - length acc) acc) (\<lambda>payload.
     sbind (sdo (uadd h 4 n)) (\<lambda>frame_len.
     sbind (store_head h (head + frame_len)) (\<lambda>_. sreturn (Some payload)))))"

definition pop_len_from ::
    "host \<Rightarrow> usize \<Rightarrow> usize \<Rightarrow> u8 list \<Rightarrow> memory \<Rightarrow> (fault + u8 list option) \<times> memory" where
  "pop_len_from h head cap acc =
     sbind (sdo (usub h cap 1)) (\<lambda>msk.
     sbind (read_loop h head msk (length acc) (4 - length acc) acc) (\<lambda>len_bytes.
     pop_payload_from h head cap (ucast (from_ne_bytes (byte_order h) len_bytes :: u32)) []))"

definition pop_tail_from :: "host \<Rightarrow> usize \<Rightarrow> memory \<Rightarrow> (fault + u8 list option) \<times> memory" where
  "pop_tail_from h head =
     sbind (load_tail h) (\<lambda>tail.
     if head = tail then sreturn None else sbind (capacity h) (\<lambda>cap. pop_len_from h head cap []))"

fun pop_from :: "host \<Rightarrow> cons_pc \<Rightarrow> memory \<Rightarrow> (fault + u8 list option) \<times> memory" where
  "pop_from h CHead = sbind (load_head h) (pop_tail_from h)"
| "pop_from h (CTail head) = pop_tail_from h head"
| "pop_from h (CCap head) = sbind (capacity h) (\<lambda>cap. pop_len_from h head cap [])"
| "pop_from h (CLen head cap acc) = pop_len_from h head cap acc"
| "pop_from h (CPay head cap n acc) = pop_payload_from h head cap n acc"
| "pop_from h (CDone r) = sreturn r"
| "pop_from h CIdle = sreturn None"

fun cons_ok :: "host \<Rightarrow> cons_pc \<Rightarrow> bool" where
  "cons_ok h CIdle = False"
| "cons_ok h (CLen head cap acc) = (length acc < 4)"
| "cons_ok h (CPay head cap n acc) =
     (length acc \<le> unat n \<and> unat n < 2 ^ 32 \<and> (overflow_checks h \<longrightarrow> 1 \<le> cap))"
| "cons_ok h pc = True"

fun cons_left :: "cons_pc \<Rightarrow> nat" where
  "cons_left CHead = 2 ^ 32 + 8"
| "cons_left (CTail head) = 2 ^ 32 + 7"
| "cons_left (CCap head) = 2 ^ 32 + 6"
| "cons_left (CLen head cap acc) = 2 ^ 32 + 5 - length acc"
| "cons_left (CPay head cap n acc) = 1 + (unat n - length acc)"
| "cons_left pc = 0"

lemma one_le_usize: "1 \<le> (w :: usize) \<longleftrightarrow> w \<noteq> 0"
  using unat_eq_0 [of w] by (auto simp: word_le_nat_alt Suc_le_eq)

lemma cons_access_ok:
  assumes "cons_finished pc = None" "cons_ok h pc" "cons_access h pc m = (Inr pc', m')"
  shows "cons_ok h pc' \<and> cons_left pc' < cons_left pc"
proof (cases pc)
  case (CLen head cap acc)
  obtain b where b: "read_slot h cap head (length acc) m = (Inr b, m')" "pc' = after_len h head cap (acc @ [b])"
    using assms(3) CLen by (auto simp: sbind_eq_Inr sreturn_def)
  have cap: "1 \<le> cap" if "overflow_checks h"
    using b(1) that
    by (auto simp: read_slot_def sbind_eq_Inr sdo_def usub_def one_le_usize split: if_splits)
  have u32: "unat (w :: u32) < 2 ^ 32" for w by (rule unat_u32_less)
  show ?thesis
    using CLen assms(2) b(2) cap u32 [of "from_ne_bytes (byte_order h) (acc @ [b])"]
    by (auto simp: after_len_def)
qed (use assms in \<open>auto simp: sbind_eq_Inr sdo_def sreturn_def split: if_splits\<close>)

lemma usub_one: "overflow_checks h \<longrightarrow> 1 \<le> cap \<Longrightarrow> usub h cap 1 = Inr (cap - 1)"
  by (auto simp: usub_def not_less)

lemma read_loop_slot:
  assumes "overflow_checks h \<longrightarrow> 1 \<le> cap" "length acc < n"
  shows "read_loop h pos (cap - 1) (length acc) (n - length acc) acc =
    sbind (read_slot h cap pos (length acc)) (\<lambda>b.
      read_loop h pos (cap - 1) (length (acc @ [b])) (n - length (acc @ [b])) (acc @ [b]))"
proof -
  have "n - length acc = Suc (n - Suc (length acc))" using assms(2) by simp
  then show ?thesis
    by (intro ext) (simp add: read_slot_def sbind_assoc usub_one [OF assms(1)])
qed

lemma pop_payload_access:
  assumes "cons_ok h (CPay head cap n acc)"
  shows "pop_payload_from h head cap n acc m = sbind (cons_access h (CPay head cap n acc)) (pop_from h) m"
  using assms read_loop_slot [of h cap acc "unat n"]
  by (cases "uadd h head 4"; cases "length acc < unat n")
    (simp_all add: pop_payload_from_def sbind_assoc)

lemma pop_len_access:
  assumes "length acc < 4"
  shows "pop_len_from h head cap acc m = sbind (cons_access h (CLen head cap acc)) (pop_from h) m"
proof (cases "usub h cap 1")
  case (Inl e)
  then show ?thesis by (simp add: pop_len_from_def read_slot_def sbind_assoc)
next
  case (Inr msk)
  then have c: "overflow_checks h \<longrightarrow> 1 \<le> cap" and msk: "msk = cap - 1"
    by (auto simp: usub_def one_le_usize split: if_splits)
  have "pop_from h (after_len h head cap (acc @ [b])) =
      sbind (read_loop h head (cap - 1) (length (acc @ [b])) (4 - length (acc @ [b])) (acc @ [b]))
        (\<lambda>len_bytes. pop_payload_from h head cap
          (ucast (from_ne_bytes (byte_order h) len_bytes :: u32)) [])" for b
    using assms Inr msk by (cases "length acc = 3") (auto simp: after_len_def pop_len_from_def)
  then show ?thesis
    using read_loop_slot [OF c assms, of head] Inr msk
    by (simp add: pop_len_from_def sbind_assoc)
qed

interpretation pop_call: resumable "cons_access h" cons_finished "pop_from h" "cons_ok h" cons_left
  for h
proof
  fix pc q s t b
  show "cons_finished pc = Some b \<Longrightarrow> pop_from h pc s = (Inr b, s)"
    by (cases pc) (simp_all add: sreturn_def)
  show "cons_finished pc = None \<Longrightarrow> cons_ok h pc \<Longrightarrow> 0 < cons_left pc"
    by (cases pc) auto
  show "cons_finished pc = None \<Longrightarrow> cons_ok h pc \<Longrightarrow> cons_access h pc s = (Inr q, t) \<Longrightarrow>
      cons_ok h q \<and> cons_left q < cons_left pc"
    by (rule cons_access_ok)
  show "pop_from h pc s = sbind (cons_access h pc) (pop_from h) s"
    if "cons_finished pc = None" "cons_ok h pc"
  proof (cases pc)
    case (CPay head cap n acc)
    then show ?thesis using that pop_payload_access [of h head cap n acc s] by (simp del: cons_access.simps)
  next
    case (CLen head cap acc)
    then show ?thesis using that pop_len_access [of acc h head cap s] by (simp del: cons_access.simps)
  qed (use that in \<open>auto simp: sbind_assoc pop_tail_from_def intro!: sbind_cong_state\<close>)
qed

lemma read_bytes_twice:
  "sbind (read_bytes h head 4 cap) (\<lambda>lb.
     sbind (sdo (uadd h head 4)) (\<lambda>pos. sbind (read_bytes h pos (n lb) cap) (g lb))) =
   sbind (sdo (usub h cap 1)) (\<lambda>msk. sbind (read_loop h head msk 0 4 []) (\<lambda>lb.
     sbind (sdo (uadd h head 4)) (\<lambda>pos. sbind (read_loop h pos (cap - 1) 0 (n lb) []) (g lb))))"
proof (cases "usub h cap 1")
  case (Inl e)
  then show ?thesis by (intro ext) (simp add: read_bytes_def sbind_assoc)
next
  case (Inr msk)
  then have "msk = cap - 1" by (simp add: usub_def split: if_splits)
  then show ?thesis using Inr by (intro ext) (simp add: read_bytes_def sbind_assoc)
qed

text \<open>Both pops decode what the shared part has taken off the ring.\<close>

lemma pop_is_rest:
  "pop h tag m = sbind (pop_from h CHead) (\<lambda>r.
     case r of None \<Rightarrow> sreturn None
     | Some payload \<Rightarrow>
         (case tag of None \<Rightarrow> sreturn (Some (PyBytes payload))
          | Some t \<Rightarrow> sbind (sdo (unpack_one h payload t)) (\<lambda>(v, _). sreturn (Some v)))) m"
  "pop_mixed h schema m = sbind (pop_from h CHead) (\<lambda>r.
     case r of None \<Rightarrow> sreturn None
     | Some payload \<Rightarrow>
         sbind (sdo (unpack_mixed_counted h payload schema)) (\<lambda>(result, _). sreturn (Some result))) m"
  unfolding pop_def pop_mixed_def pop_from.simps pop_tail_from_def pop_len_from_def pop_payload_from_def
    Let_def read_bytes_twice
  by (auto simp: sbind_assoc intro!: sbind_cong_state split: option.splits)

end
