(* ===== verification/SpscSys.thy ===== *)
theory SpscSys
  imports SpscConc
begin

text \<open>
  One producer and one consumer on one ring, their accesses interleaved in any order. The invariant says
  which messages the region holds at every moment and what each side may rely on between its accesses:
  the producer may have seen an old head, the bytes it writes lie behind the tail, and the consumer reads
  only bytes of the first message. Builds that check overflow are left out: there a push across the
  wrap-around of the positions panics.
\<close>

section \<open>The system\<close>

text \<open>
  A push of any packed message of less than 4 GiB and a pop may begin whenever their side is idle; a fault
  ends the call. \<open>sent\<close> and \<open>received\<close> record the messages published by a store of the tail and
  freed by one of the head.
\<close>

record spsc_sys =
  ring_mem :: memory
  producer :: prod_pc
  consumer :: cons_pc
  sent :: "u8 list list"
  received :: "u8 list list"

fun published :: "prod_pc \<Rightarrow> prod_pc \<Rightarrow> u8 list list" where
  "published (PWrite p cap tail i) (PDone True) = [p]"
| "published pc pc' = []"

fun taken :: "cons_pc \<Rightarrow> u8 list list" where
  "taken (CDone (Some p)) = [p]"
| "taken pc = []"

inductive spsc_step :: "host \<Rightarrow> spsc_ring \<Rightarrow> spsc_sys \<Rightarrow> spsc_sys \<Rightarrow> bool"
  for h :: host and r :: spsc_ring where
  begin_push: "producer s = PIdle \<Longrightarrow> length p < 2 ^ 32 \<Longrightarrow> spsc_step h r s (s\<lparr>producer := PCap p\<rparr>)"
| produce: "producer s \<noteq> PIdle \<Longrightarrow> prod_finished (producer s) = None \<Longrightarrow>
    prod_access h r (producer s) (ring_mem s) = (Inr pc, m) \<Longrightarrow>
    spsc_step h r s (s\<lparr>ring_mem := m, producer := pc, sent := sent s @ published (producer s) pc\<rparr>)"
| push_fault: "prod_access h r (producer s) (ring_mem s) = (Inl e, m) \<Longrightarrow>
    spsc_step h r s (s\<lparr>ring_mem := m, producer := PIdle\<rparr>)"
| end_push: "prod_finished (producer s) \<noteq> None \<Longrightarrow> spsc_step h r s (s\<lparr>producer := PIdle\<rparr>)"
| begin_pop: "consumer s = CIdle \<Longrightarrow> spsc_step h r s (s\<lparr>consumer := CHead\<rparr>)"
| consume: "consumer s \<noteq> CIdle \<Longrightarrow> cons_finished (consumer s) = None \<Longrightarrow>
    cons_access h (consumer s) (ring_mem s) = (Inr pc, m) \<Longrightarrow>
    spsc_step h r s (s\<lparr>ring_mem := m, consumer := pc, received := received s @ taken pc\<rparr>)"
| pop_fault: "cons_access h (consumer s) (ring_mem s) = (Inl e, m) \<Longrightarrow>
    spsc_step h r s (s\<lparr>ring_mem := m, consumer := CIdle\<rparr>)"
| end_pop: "cons_finished (consumer s) \<noteq> None \<Longrightarrow> spsc_step h r s (s\<lparr>consumer := CIdle\<rparr>)"

definition spsc_start :: "host \<Rightarrow> nat \<Rightarrow> spsc_sys \<Rightarrow> bool" where
  "spsc_start h k s \<longleftrightarrow> spsc_inv h k (ring_mem s) [] \<and> producer s = PIdle \<and> consumer s = CIdle \<and>
     sent s = [] \<and> received s = []"

section \<open>The invariant\<close>

text \<open>What the producer knows at a program point; \<open>n\<close> bytes of the ring are in use.\<close>

fun prod_inv :: "host \<Rightarrow> nat \<Rightarrow> memory \<Rightarrow> nat \<Rightarrow> prod_pc \<Rightarrow> bool" where
  "prod_inv h k m n (PCap p) = (length p < 2 ^ 32)"
| "prod_inv h k m n (PHead p cap) = (length p < 2 ^ 32 \<and> cap = 2 ^ k \<and> 4 + length p \<le> 2 ^ k)"
| "prod_inv h k m n (PTail p cap head) =
     (length p < 2 ^ 32 \<and> cap = 2 ^ k \<and> 4 + length p \<le> 2 ^ k \<and>
      n \<le> unat (usize_at h 8 m - head) \<and> unat (usize_at h 8 m - head) \<le> 2 ^ k)"
| "prod_inv h k m n (PWrite p cap tail i) =
     (length p < 2 ^ 32 \<and> cap = 2 ^ k \<and> n + 4 + length p \<le> 2 ^ k \<and> tail = usize_at h 8 m \<and>
      i \<le> 4 + length p \<and> ring_get (2 ^ k) (unat tail) i m = take i (frame h p))"
| "prod_inv h k m n pc = True"

text \<open>What the consumer knows; \<open>q\<close> are the messages in the ring.\<close>

fun cons_inv :: "host \<Rightarrow> nat \<Rightarrow> usize \<Rightarrow> u8 list list \<Rightarrow> cons_pc \<Rightarrow> bool" where
  "cons_inv h k hpos q (CTail head) = (head = hpos)"
| "cons_inv h k hpos q (CCap head) = (head = hpos \<and> q \<noteq> [])"
| "cons_inv h k hpos q (CLen head cap acc) =
     (head = hpos \<and> q \<noteq> [] \<and> cap = 2 ^ k \<and> length acc < 4 \<and>
      acc = take (length acc) (len_prefix h (hd q)))"
| "cons_inv h k hpos q (CPay head cap n acc) =
     (head = hpos \<and> q \<noteq> [] \<and> cap = 2 ^ k \<and> n = of_nat (length (hd q)) \<and>
      length acc \<le> length (hd q) \<and> acc = take (length acc) (hd q))"
| "cons_inv h k hpos q pc = True"

definition conc_inv :: "host \<Rightarrow> nat \<Rightarrow> spsc_sys \<Rightarrow> bool" where
  "conc_inv h k s \<longleftrightarrow>
     (\<exists>q. sent s = received s @ q \<and> spsc_inv h k (ring_mem s) q \<and>
        prod_inv h k (ring_mem s) (length (frames h q)) (producer s) \<and>
        cons_inv h k (usize_at h 0 (ring_mem s)) q (consumer s))"

lemma conc_inv_start: "spsc_start h k s \<Longrightarrow> conc_inv h k s"
  by (auto simp: spsc_start_def conc_inv_def)

text \<open>Neither side disturbs what the other knows.\<close>

lemma cons_inv_more: "cons_inv h k hpos q pc \<Longrightarrow> cons_inv h k hpos (q @ ps) pc"
  by (cases pc) auto

lemma prod_inv_less:
  "prod_inv h k m n pc \<Longrightarrow> n' \<le> n \<Longrightarrow> usize_at h 8 m' = usize_at h 8 m \<Longrightarrow>
   (\<And>p i. ring_get (2 ^ k) p i m' = ring_get (2 ^ k) p i m) \<Longrightarrow> prod_inv h k m' n' pc"
  by (cases pc) auto

section \<open>One access of the producer\<close>

lemma frame_prefix: "frame h p = len_prefix h p @ p"
  by (simp add: frame_def len_prefix_def ucast_slice_len)

lemma write_slot_put:
  assumes "\<not> overflow_checks h" "k < 64" "24 + 2 ^ k \<le> length m" "(unat pos + j) mod 2 ^ k = p mod 2 ^ k"
  shows "write_slot h (2 ^ k) pos j b m = (Inr (), ring_put (2 ^ k) p [b] m)"
proof -
  have "usub h (2 ^ k) 1 = Inr (2 ^ k - 1)" using assms(1) by (simp add: usub_def)
  then show ?thesis
    using assms mod_pow2_off [OF assms(3), of p]
    by (simp add: write_slot_def data_off_mask supd_def store_u8_def)
qed

lemma write_next:
  assumes inv: "spsc_inv h k m q" and i: "i < 4 + length p"
    and P: "prod_inv h k m (length (frames h q)) (PWrite p cap tail i)"
  defines "m' \<equiv> ring_put (2 ^ k) (unat tail + i) [frame h p ! i] m"
  shows "spsc_inv h k m' q" "prod_inv h k m' (length (frames h q)) (PWrite p cap tail (Suc i))"
    "usize_at h 0 m' = usize_at h 0 m"
proof -
  note k = ring_layout_D [OF spsc_inv_D(1) [OF inv]]
  have tail: "tail = usize_at h 8 m" and room: "length (frames h q) + 4 + length p \<le> 2 ^ k"
    and got: "ring_get (2 ^ k) (unat tail) i m = take i (frame h p)"
    using P by auto
  show "spsc_inv h k m' q"
    unfolding m'_def tail using room i by (intro free_space_inv [OF inv]) simp
  have "ring_get (2 ^ k) (unat tail) (i + 1) m' = take i (frame h p) @ [frame h p ! i]"
    unfolding m'_def ring_get_append
    using ring_get_put_before [of i "[frame h p ! i]" "2 ^ k" "unat tail" m] room i got
      ring_get_put [of "2 ^ k" m "[frame h p ! i]" "unat tail + i"] k(3) by simp
  moreover have "usize_at h 8 m' = usize_at h 8 m"
    unfolding m'_def by (rule usize_at_ring_put) simp
  ultimately show "prod_inv h k m' (length (frames h q)) (PWrite p cap tail (Suc i))"
    using P i by (auto simp: take_Suc_conv_app_nth)
  show "usize_at h 0 m' = usize_at h 0 m"
    unfolding m'_def by (rule usize_at_ring_put) simp
qed


definition conc_ok :: "host \<Rightarrow> nat \<Rightarrow> memory \<Rightarrow> u8 list list \<Rightarrow> usize \<Rightarrow> prod_pc \<Rightarrow> bool" where
  "conc_ok h k m q hpos pc \<longleftrightarrow>
     spsc_inv h k m q \<and> prod_inv h k m (length (frames h q)) pc \<and> usize_at h 0 m = hpos"

lemma prod_access_writes:
  assumes rel: "\<not> overflow_checks h" and ok: "conc_ok h k m q hpos (PWrite p cap tail i)"
  shows "\<exists>m' pc'. prod_access h r (PWrite p cap tail i) m = (Inr pc', m') \<and>
    conc_ok h k m' (q @ published (PWrite p cap tail i) pc') hpos pc'"
proof -
  have inv: "spsc_inv h k m q" and hpos: "usize_at h 0 m = hpos"
    and P: "prod_inv h k m (length (frames h q)) (PWrite p cap tail i)"
    using ok by (auto simp: conc_ok_def)
  note k = ring_layout_D [OF spsc_inv_D(1) [OF inv]]
  have small: "length p < 2 ^ 32" and cap: "cap = 2 ^ k" and tail: "tail = usize_at h 8 m"
    and room: "length (frames h q) + 4 + length p \<le> 2 ^ k" and i: "i \<le> 4 + length p"
    and got: "ring_get (2 ^ k) (unat tail) i m = take i (frame h p)"
    using P by auto
  let ?b = "frame h p ! i" and ?m = "ring_put (2 ^ k) (unat tail + i) [frame h p ! i] m"
  have next_ok: "conc_ok h k ?m q hpos (PWrite p cap tail (Suc i))" if "i < 4 + length p"
    using write_next [OF inv that P] hpos by (simp add: conc_ok_def)
  consider "i < 4" | "4 \<le> i" "i < 4 + length p" | "i = 4 + length p" using i by linarith
  then show ?thesis
  proof cases
    case 1
    then have "prod_access h r (PWrite p cap tail i) m = (Inr (PWrite p cap tail (Suc i)), ?m)"
      using write_slot_put [OF rel k(1,3), of tail i "unat tail + i" ?b]
      by (simp add: cap frame_prefix nth_append sbind_Inr sreturn_def)
    then show ?thesis using next_ok 1 by simp
  next
    case 2
    have "(unat (tail + 4) + (i - 4)) mod 2 ^ k = (unat tail + i) mod 2 ^ k"
      using mod_add_cong [OF unat_add_of_nat_mod [OF k(1), of tail 4] refl, of "i - 4"] 2(1) by simp
    then have "prod_access h r (PWrite p cap tail i) m = (Inr (PWrite p cap tail (Suc i)), ?m)"
      using write_slot_put [OF rel k(1,3), of "tail + 4" "i - 4" "unat tail + i" ?b] rel 2
      by (simp add: cap frame_prefix nth_append sbind_Inr sreturn_def)
    then show ?thesis using next_ok 2 by simp
  next
    case 3
    let ?m2 = "usize_upd h 8 (usize_at h 8 m + of_nat (4 + length p)) m"
    have "4 + slice_len p = of_nat (4 + length p)" by (simp add: slice_len_def)
    then have "prod_access h r (PWrite p cap tail i) m = (Inr (PDone True), ?m2)"
      using 3 rel k(2) by (simp add: tail sbind_store_tail sreturn_def)
    moreover have "spsc_inv h k ?m2 (q @ [p])"
      using got room small 3 by (intro publish_inv [OF inv]) (simp_all add: tail)
    ultimately show ?thesis
      using hpos k(2) by (simp add: conc_ok_def header_fields)
  qed
qed


lemma prod_access_step:
  assumes rel: "\<not> overflow_checks h" and ok: "conc_ok h k m q hpos pc"
  shows "(\<exists>m' pc'. prod_access h r pc m = (Inr pc', m') \<and>
      conc_ok h k m' (q @ published pc pc') hpos pc') \<or>
    (\<exists>p msg. pc = PCap p \<and> 2 ^ k < 4 + length p \<and>
      prod_access h r pc m = (py_raise (PyValueError msg), m))"
proof -
  have inv: "spsc_inv h k m q" and hpos: "usize_at h 0 m = hpos"
    and P: "prod_inv h k m (length (frames h q)) pc"
    using ok by (auto simp: conc_ok_def)
  note I = spsc_inv_D [OF inv]
  note k = ring_layout_D [OF I(1)]
  have len: "4 + slice_len p = of_nat (4 + length p)" "unat (of_nat (4 + length p) :: usize) = 4 + length p"
    if "length p < 2 ^ 32" for p
    using that frame_len_usize(2) [of p] by (simp_all add: slice_len_def)
  show ?thesis
  proof (cases pc)
    case (PCap p)
    then have small: "length p < 2 ^ 32" using P by simp
    have big: "2 ^ k < (of_nat (4 + length p) :: usize) \<longleftrightarrow> 2 ^ k < 4 + length p"
      unfolding word_less_nat_alt len(2) [OF small] k(5) ..
    have acc: "prod_access h r pc m =
        (if 2 ^ k < (of_nat (4 + length p) :: usize) then
           sdo (invalid_arg (''message too large: frame_len='' @ show_usize (of_nat (4 + length p)) @
             '' > capacity='' @ show_usize (2 ^ k) @ ''                  (map_size='' @
             show_usize (map_size r) @ '')'')) m
         else (Inr (PHead p (2 ^ k)), m))"
      unfolding PCap prod_access.simps uadd_release [OF rel] sbind_sdo_Inr sbind_capacity [OF k(2)] k(4)
        len(1) [OF small]
      by (simp add: sreturn_def)
    show ?thesis
    proof (cases "2 ^ k < 4 + length p")
      case True
      then show ?thesis using PCap acc big by (simp add: sdo_def shm_err_InvalidArg)
    next
      case False
      then show ?thesis using PCap acc big ok small by (auto simp: conc_ok_def)
    qed
  next
    case (PHead p cap)
    then have "prod_access h r pc m = (Inr (PTail p cap (usize_at h 0 m)), m)"
      using k(2) by (simp add: sbind_load_head sreturn_def)
    then show ?thesis using PHead ok I(2,3) by (auto simp: conc_ok_def)
  next
    case (PTail p cap head)
    let ?u = "unat (usize_at h 8 m - head)"
    have p: "length p < 2 ^ 32" "cap = 2 ^ k" "4 + length p \<le> 2 ^ k" "length (frames h q) \<le> ?u" "?u \<le> 2 ^ k"
      using P PTail by auto
    have "unat (usize_at h 8 m - head + of_nat (4 + length p)) = ?u + (4 + length p)"
      using p(1,5) k(6) len(2) [OF p(1)] by (subst unat_add_usize) auto
    then have room: "2 ^ k < usize_at h 8 m - head + of_nat (4 + length p) \<longleftrightarrow> 2 ^ k < ?u + (4 + length p)"
      unfolding word_less_nat_alt k(5) by simp
    have acc: "prod_access h r pc m =
        (Inr (if 2 ^ k < ?u + (4 + length p) then PDone False else PWrite p cap (usize_at h 8 m) 0), m)"
      unfolding PTail prod_access.simps uadd_release [OF rel] sbind_sdo_Inr sbind_load_tail [OF k(2)]
        p(2) len(1) [OF p(1)] room sreturn_def ..
    then show ?thesis
      using p PTail ok by (auto simp: conc_ok_def ring_get_def)
  next
    case (PWrite p cap tail i)
    then show ?thesis using prod_access_writes [OF rel] ok by blast
  qed (use ok in \<open>auto simp: sreturn_def\<close>)
qed

section \<open>One access of the consumer\<close>

lemma read_slot_get:
  assumes "\<not> overflow_checks h" "k < 64" "24 + 2 ^ k \<le> length m" "(unat pos + j) mod 2 ^ k = p mod 2 ^ k"
  shows "read_slot h (2 ^ k) pos j m = (Inr (m ! (24 + p mod 2 ^ k)), m)"
proof -
  have "usub h (2 ^ k) 1 = Inr (2 ^ k - 1)" using assms(1) by (simp add: usub_def)
  then show ?thesis
    using assms mod_pow2_off [OF assms(3), of p]
    by (simp add: read_slot_def data_off_mask sget_def load_u8_def)
qed

lemma read_frame_byte:
  assumes "spsc_inv h k m (p # q)" "j < 4 + length p"
  shows "m ! (24 + (unat (usize_at h 0 m) + j) mod 2 ^ k) = (len_prefix h p @ p) ! j"
proof -
  let ?get = "ring_get (2 ^ k) (unat (usize_at h 0 m))"
  have "?get (length (frames h (p # q))) m ! j = frames h (p # q) ! j"
    using spsc_inv_D(4) [OF assms(1)] by simp
  moreover have "j < 4 \<or> j - 4 < length p" using assms(2) by linarith
  ultimately show ?thesis
    using assms(2) by (auto simp: ring_get_def frame_prefix nth_append)
qed

lemma cons_access_step:
  assumes rel: "\<not> overflow_checks h" and inv: "spsc_inv h k m q"
    and C: "cons_inv h k (usize_at h 0 m) q pc" and run: "cons_finished pc = None"
  shows "\<exists>m' pc' q'. cons_access h pc m = (Inr pc', m') \<and> q = taken pc' @ q' \<and>
    spsc_inv h k m' q' \<and> cons_inv h k (usize_at h 0 m') q' pc' \<and>
    usize_at h 8 m' = usize_at h 8 m \<and> (\<forall>p i. ring_get (2 ^ k) p i m' = ring_get (2 ^ k) p i m)"
proof -
  note I = spsc_inv_D [OF inv]
  note k = ring_layout_D [OF I(1)]
  have stay: ?thesis
    if "cons_access h pc m = (Inr pc', m)" "taken pc' = []" "cons_inv h k (usize_at h 0 m) q pc'" for pc'
    using that inv by (intro exI [of _ m] exI [of _ pc'] exI [of _ q]) auto
  show ?thesis
  proof (cases pc)
    case CHead
    then show ?thesis
      using k(2) by (intro stay [of "CTail (usize_at h 0 m)"]) (simp_all add: sbind_load_head sreturn_def)
  next
    case (CTail head)
    then show ?thesis
      using k(2) C spsc_inv_empty_iff [OF inv]
      by (intro stay [of "if q = [] then CDone None else CCap head"])
        (auto simp: sbind_load_tail sreturn_def)
  next
    case (CCap head)
    then show ?thesis
      using k(2,4) C by (intro stay [of "CLen head (2 ^ k) []"]) (auto simp: sbind_capacity sreturn_def)
  next
    case (CLen head cap acc)
    have c: "head = usize_at h 0 m" "q \<noteq> []" "cap = 2 ^ k" "length acc < 4"
      "acc = take (length acc) (len_prefix h (hd q))"
      using C CLen by auto
    obtain p q' where q: "q = p # q'" using c(2) by (cases q) auto
    let ?b = "len_prefix h p ! length acc"
    have snoc: "acc @ [?b] = take (length acc + 1) (len_prefix h p)"
      using c(4,5) q by (simp add: take_Suc_conv_app_nth)
    have "m ! (24 + (unat head + length acc) mod 2 ^ k) = ?b"
      using read_frame_byte [OF inv [unfolded q], of "length acc"] c(1,4) by (simp add: nth_append)
    then have acc: "cons_access h pc m = (Inr (after_len h head cap (acc @ [?b])), m)"
      using read_slot_get [OF rel k(1,3) refl, of head "length acc"] CLen c(3)
      by (simp add: sbind_Inr sreturn_def)
    show ?thesis
    proof (rule stay [OF acc])
      show "taken (after_len h head cap (acc @ [?b])) = []"
        by (simp add: after_len_def)
      show "cons_inv h k (usize_at h 0 m) q (after_len h head cap (acc @ [?b]))"
      proof (cases "length acc = 3")
        case True
        then have "acc @ [?b] = len_prefix h p" using snoc by simp
        moreover have "from_ne_bytes (byte_order h) (len_prefix h p) = (of_nat (length p) :: u32)"
          by (simp add: len_prefix_def ucast_slice_len)
        moreover have "(ucast (of_nat (length p) :: u32) :: usize) = of_nat (length p)"
          using I(5) q by (simp add: word_unat_eq_iff unat_of_nat_u32 unat_of_nat_usize)
        ultimately show ?thesis using True c q by (simp add: after_len_def)
      next
        case False
        then show ?thesis using c q snoc by (auto simp: after_len_def)
      qed
    qed
  next
    case (CPay head cap n acc)
    have c: "head = usize_at h 0 m" "q \<noteq> []" "cap = 2 ^ k" "n = of_nat (length (hd q))"
      "length acc \<le> length (hd q)" "acc = take (length acc) (hd q)"
      using C CPay by auto
    obtain p q' where q: "q = p # q'" using c(2) by (cases q) auto
    have small: "length p < 2 ^ 32" using I(5) q by simp
    then have n: "unat n = length p" using c(4) q by (simp add: unat_of_nat_usize)
    show ?thesis
    proof (cases "length acc < length p")
      case True
      let ?j = "length acc"
      have pos: "(unat (head + 4) + ?j) mod 2 ^ k = (unat head + (4 + ?j)) mod 2 ^ k"
        using mod_add_cong [OF unat_add_of_nat_mod [OF k(1), of head 4] refl, of ?j] by (simp add: add.assoc)
      have "m ! (24 + (unat head + (4 + ?j)) mod 2 ^ k) = p ! ?j"
        using read_frame_byte [OF inv [unfolded q], of "4 + ?j"] True c(1) by (simp add: nth_append)
      then have "cons_access h pc m = (Inr (CPay head cap n (acc @ [p ! ?j])), m)"
        using read_slot_get [OF rel k(1,3) pos] CPay c(3) n True rel by (simp add: sbind_Inr sreturn_def)
      then show ?thesis
        using c q True by (intro stay) (auto simp: take_Suc_conv_app_nth)
    next
      case False
      then have p: "acc = p" using c(5,6) q by simp
      have "4 + n = of_nat (4 + length p)" using c(4) q by simp
      then have acc: "cons_access h pc m = (Inr (CDone (Some p)), pop_mem h k m)"
        using CPay False n rel k(2) c(1) p pop_mem_inv(1) [OF inv [unfolded q]]
        by (simp add: sbind_store_head sreturn_def pop_mem_def)
      have "usize_at h 8 (pop_mem h k m) = usize_at h 8 m"
        "ring_get (2 ^ k) i j (pop_mem h k m) = ring_get (2 ^ k) i j m" for i j
        using k(2,3) by (simp_all add: pop_mem_def header_fields)
      then show ?thesis
        using acc pop_mem_inv(3) [OF inv [unfolded q]] q CPay by auto
    qed
  qed (use stay [of pc] run in \<open>auto simp: sreturn_def\<close>)
qed


section \<open>Every step keeps the invariant\<close>

lemma conc_invI:
  "sent s = received s @ q \<Longrightarrow> spsc_inv h k (ring_mem s) q \<Longrightarrow>
   prod_inv h k (ring_mem s) (length (frames h q)) (producer s) \<Longrightarrow>
   cons_inv h k (usize_at h 0 (ring_mem s)) q (consumer s) \<Longrightarrow> conc_inv h k s"
  by (auto simp: conc_inv_def)

lemma conc_inv_step:
  assumes rel: "\<not> overflow_checks h" and inv: "conc_inv h k s" and step: "spsc_step h r s t"
  shows "conc_inv h k t"
proof -
  obtain q where q: "sent s = received s @ q" "spsc_inv h k (ring_mem s) q"
    and P: "prod_inv h k (ring_mem s) (length (frames h q)) (producer s)"
    and C: "cons_inv h k (usize_at h 0 (ring_mem s)) q (consumer s)"
    using inv by (auto simp: conc_inv_def)
  note prod = prod_access_step [OF rel, of k "ring_mem s" q "usize_at h 0 (ring_mem s)" "producer s" r]
  note cons = cons_access_step [OF rel q(2) C]
  have ok: "conc_ok h k (ring_mem s) q (usize_at h 0 (ring_mem s)) (producer s)"
    using q(2) P by (simp add: conc_ok_def)
  from step show ?thesis
  proof cases
    case (produce pc m)
    then have "conc_ok h k m (q @ published (producer s) pc) (usize_at h 0 (ring_mem s)) pc"
      using prod [OF ok] by auto
    then show ?thesis
      using produce(1) q(1) cons_inv_more [OF C]
      by (intro conc_invI [of t "q @ published (producer s) pc"]) (auto simp: conc_ok_def)
  next
    case (push_fault e m)
    then have "m = ring_mem s" using prod [OF ok] by auto
    then show ?thesis using push_fault(1) q C by (intro conc_invI [of t q]) auto
  next
    case (consume pc m)
    then obtain q' where q': "q = taken pc @ q'" "spsc_inv h k m q'"
      "cons_inv h k (usize_at h 0 m) q' pc" "usize_at h 8 m = usize_at h 8 (ring_mem s)"
      and get: "\<And>p i. ring_get (2 ^ k) p i m = ring_get (2 ^ k) p i (ring_mem s)"
      using cons by auto
    have "length (frames h q') \<le> length (frames h q)" using q'(1) by simp
    then have "prod_inv h k m (length (frames h q')) (producer s)"
      using prod_inv_less [OF P _ q'(4) get] by blast
    then show ?thesis using consume(1) q(1) q' by (intro conc_invI [of t q']) auto
  next
    case (pop_fault e m)
    have "cons_finished (consumer s) = None"
      using pop_fault(2) by (cases "consumer s") (auto simp: sreturn_def)
    then show ?thesis using cons pop_fault(2) by auto
  qed (use q P C in \<open>auto intro!: conc_invI\<close>)
qed

interpretation spsc_system: invariant_system
  "spsc_start h k" "spsc_step h r" "\<lambda>s. overflow_checks h \<or> conc_inv h k s"
  for h k r
  by unfold_locales (auto simp: conc_inv_start intro: conc_inv_step)

end
