(* ===== verification/SpscSysProps.thy ===== *)
theory SpscSysProps
  imports SpscSys SpscProps
begin

text \<open>
  The properties of the ring buffer under concurrent use: what every interleaving of one producer and one
  consumer keeps, that no access of either leaves the region, and that each call is its accesses.
\<close>

section \<open>A side that runs alone\<close>

lemma reach_produce:
  assumes "reach (spsc_start h k) (spsc_step h r) s"
    and "run_alone (prod_access h r) prod_finished n (producer s) (ring_mem s) = Some (Inr b, m)"
    and "producer s \<noteq> PIdle"
  shows "\<exists>t. reach (spsc_start h k) (spsc_step h r) t \<and> ring_mem t = m \<and> producer t = PDone b \<and> consumer t = consumer s"
  using assms
proof (induction n arbitrary: s)
  case 0
  then show ?case by (cases "producer s") auto
next
  case (Suc n)
  show ?case
  proof (cases "prod_finished (producer s)")
    case None
    then obtain pc m1 where acc: "prod_access h r (producer s) (ring_mem s) = (Inr pc, m1)"
      and run: "run_alone (prod_access h r) prod_finished n pc m1 = Some (Inr b, m)"
      using Suc.prems(2) by (auto split: prod.splits sum.splits)
    let ?s = "s\<lparr>ring_mem := m1, producer := pc, sent := sent s @ published (producer s) pc\<rparr>"
    have "reach (spsc_start h k) (spsc_step h r) ?s"
      using Suc.prems(1,3) None acc by (intro reach_step [OF Suc.prems(1)] produce) auto
    moreover have "pc \<noteq> PIdle"
      using acc Suc.prems(3) None by (cases "producer s") (auto simp: sbind_eq_Inr sdo_def sreturn_def split: if_splits)
    ultimately show ?thesis using Suc.IH [of ?s] run by auto
  next
    case (Some c)
    then show ?thesis using Suc.prems by (cases "producer s") auto
  qed
qed

section \<open>Every interleaving\<close>

text \<open>
  C3: Whatever the order in which one producer and one consumer make their accesses, byte by byte
  (messages of less than 4 GiB, a build without overflow checks), the messages received are at every
  moment the first ones sent, in the order sent and unaltered, and the region holds exactly the
  others.
\<close>

theorem concurrent_fifo:
  assumes "\<not> overflow_checks h" "reach (spsc_start h k) (spsc_step h r) s"
  shows "\<exists>q. sent s = received s @ q \<and> spsc_inv h k (ring_mem s) q"
  using spsc_system.reach_inv [OF assms(2)] assms(1) by (auto simp: conc_inv_def)

text \<open>A push of one message on an empty ring, every access of it a step of the system.\<close>

lemma demo_reach:
  "\<exists>s. reach (spsc_start le_host 4) (spsc_step le_host \<lparr>map_size = 40\<rparr>) s \<and> producer s = PDone True \<and>
     ring_mem s = push_mem le_host 4 [7] ring16 \<and> consumer s = CIdle"
proof -
  let ?start = "\<lparr>ring_mem = ring16, producer = PIdle, consumer = CIdle, sent = [], received = []\<rparr>"
  let ?reach = "reach (spsc_start le_host 4) (spsc_step le_host \<lparr>map_size = 40\<rparr>)"
  have "?reach ?start"
    by (rule reach_start) (simp add: spsc_start_def ring16_inv)
  then have r: "?reach (?start\<lparr>producer := PCap [7]\<rparr>)"
    by (rule reach_step) (rule begin_push, simp_all)
  have "push le_host \<lparr>map_size = 40\<rparr> (PyBytes [7]) ring16 = (Inr True, push_mem le_host 4 [7] ring16)"
    using spsc_inv_D [OF ring16_inv]
    by (intro push_run) (simp_all add: push_payload_bytes)
  then have "run_alone (prod_access le_host \<lparr>map_size = 40\<rparr>) prod_finished 9 (PCap [7]) ring16 =
      Some (Inr True, push_mem le_host 4 [7] ring16)"
    by (subst push_alone [of le_host "PyBytes [7]"]) (simp_all add: push_payload_bytes isize_max_def)
  then show ?thesis using reach_produce [OF r, of 9] by auto
qed

lemma concurrent_fifo_witness:
  "\<exists>(s :: spsc_sys) q. sent s = received s @ q \<and> producer s = PDone True \<and> spsc_inv le_host 4 (ring_mem s) q"
proof -
  obtain s where s: "reach (spsc_start le_host 4) (spsc_step le_host \<lparr>map_size = 40\<rparr>) s" "producer s = PDone True"
    using demo_reach by blast
  have "\<not> overflow_checks le_host" by simp
  from concurrent_fifo [OF this s(1)] obtain q
    where "sent s = received s @ q \<and> spsc_inv le_host 4 (ring_mem s) q" ..
  with s(2) show ?thesis by (intro exI [of _ s] exI [of _ q]) simp
qed

text \<open>
  C20: In a build without overflow checks, in every interleaving of one producer and one consumer
  (messages of less than 4 GiB), an access of the consumer never faults, and one of the producer only
  where it raises the ValueError for a message larger than the ring, leaving the region as it was. In a
  build that checks overflow a push may also panic, near position 2^64.
\<close>

theorem concurrent_safe:
  assumes "\<not> overflow_checks h" "reach (spsc_start h k) (spsc_step h r) s"
  shows "(\<exists>res. cons_access h (consumer s) (ring_mem s) = (Inr (fst res), snd res)) \<and>
    ((\<exists>res. prod_access h r (producer s) (ring_mem s) = (Inr (fst res), snd res)) \<or>
     (\<exists>p msg. producer s = PCap p \<and> 2 ^ k < 4 + length p \<and>
        prod_access h r (producer s) (ring_mem s) = (py_raise (PyValueError msg), ring_mem s)))"
proof
  obtain q where q: "spsc_inv h k (ring_mem s) q"
    and P: "prod_inv h k (ring_mem s) (length (frames h q)) (producer s)"
    and C: "cons_inv h k (usize_at h 0 (ring_mem s)) q (consumer s)"
    using spsc_system.reach_inv [OF assms(2)] assms(1) by (auto simp: conc_inv_def)
  show "\<exists>res. cons_access h (consumer s) (ring_mem s) = (Inr (fst res), snd res)"
  proof (cases "cons_finished (consumer s)")
    case None
    then show ?thesis using cons_access_step [OF assms(1) q C] by auto
  next
    case (Some x)
    then show ?thesis by (cases "consumer s") (auto simp: sreturn_def)
  qed
  show "(\<exists>res. prod_access h r (producer s) (ring_mem s) = (Inr (fst res), snd res)) \<or>
     (\<exists>p msg. producer s = PCap p \<and> 2 ^ k < 4 + length p \<and>
        prod_access h r (producer s) (ring_mem s) = (py_raise (PyValueError msg), ring_mem s))"
    using prod_access_step [OF assms(1), of k "ring_mem s" q "usize_at h 0 (ring_mem s)" "producer s" r] q P
    by (auto simp: conc_ok_def)
qed

text \<open>
  A producer about to find its next message too large, while the consumer is about to read the first byte
  of the message there is.
\<close>

lemma demo_reach_large:
  "\<exists>s hd. reach (spsc_start le_host 4) (spsc_step le_host \<lparr>map_size = 40\<rparr>) s \<and>
     producer s = PCap (replicate 13 0) \<and> consumer s = CLen hd 16 []"
proof -
  let ?reach = "reach (spsc_start le_host 4) (spsc_step le_host \<lparr>map_size = 40\<rparr>)"
  obtain s m where s: "?reach s" "producer s = PDone True" "ring_mem s = m" "consumer s = CIdle"
    and m: "m = push_mem le_host 4 [7] ring16"
    using demo_reach by blast
  have inv: "spsc_inv le_host 4 m [[7]]" using push_mem_inv [OF ring16_inv, of "[7]"] by (simp add: m)
  have cap: "cons_access le_host (CCap hd) m = (Inr (CLen hd 16 []), m)" for hd
    using ring_queries [OF inv] by (simp add: sbind_Inr sreturn_def)
  note L = ring_layout_D [OF spsc_inv_D(1) [OF inv]]
  have ne: "usize_at le_host 0 m \<noteq> usize_at le_host 8 m" using spsc_inv_empty_iff [OF inv] by simp
  have "?reach (s\<lparr>producer := PIdle\<rparr>)"
    by (rule reach_step [OF s(1)], rule end_push) (simp add: s(2))
  then have "?reach (s\<lparr>producer := PIdle, producer := PCap (replicate 13 0)\<rparr>)"
    by (rule reach_step, intro begin_push) simp_all
  then have r: "?reach (s\<lparr>producer := PCap (replicate 13 0)\<rparr>)" by simp
  obtain s1 where s1: "?reach s1" "producer s1 = PCap (replicate 13 0)" "ring_mem s1 = m" "consumer s1 = CHead"
    by (rule that [OF reach_step [OF r begin_pop]]) (simp_all add: s)
  obtain s2 where s2: "?reach s2" "producer s2 = PCap (replicate 13 0)" "ring_mem s2 = m"
    "consumer s2 = CTail (usize_at le_host 0 m)"
    by (rule that [OF reach_step [OF s1(1) consume [of s1 le_host "CTail (usize_at le_host 0 m)" m]]])
      (use L(2) in \<open>simp_all add: s1 ring_access sreturn_def\<close>)
  obtain s3 where s3: "?reach s3" "producer s3 = PCap (replicate 13 0)" "ring_mem s3 = m"
    "consumer s3 = CCap (usize_at le_host 0 m)"
    by (rule that [OF reach_step [OF s2(1) consume [of s2 le_host "CCap (usize_at le_host 0 m)" m]]])
      (use L(2) ne in \<open>simp_all add: s2 ring_access sreturn_def\<close>)
  obtain s4 where s4: "?reach s4" "producer s4 = PCap (replicate 13 0)"
    "consumer s4 = CLen (usize_at le_host 0 m) 16 []"
    by (rule that [OF reach_step [OF s3(1) consume [of s3 le_host "CLen (usize_at le_host 0 m) 16 []" m]]])
      (simp_all add: s3 cap del: cons_access.simps)
  then show ?thesis by blast
qed

theorem concurrent_safe_witness:
  "\<exists>s hd res msg. reach (spsc_start le_host 4) (spsc_step le_host \<lparr>map_size = 40\<rparr>) s \<and>
     consumer s = CLen hd 16 [] \<and> cons_access le_host (consumer s) (ring_mem s) = (Inr (fst res), snd res) \<and>
     producer s = PCap (replicate 13 0) \<and>
     prod_access le_host \<lparr>map_size = 40\<rparr> (producer s) (ring_mem s) = (py_raise (PyValueError msg), ring_mem s)"
proof -
  obtain s hd where s: "reach (spsc_start le_host 4) (spsc_step le_host \<lparr>map_size = 40\<rparr>) s"
    "producer s = PCap (replicate 13 0)" "consumer s = CLen hd 16 []"
    using demo_reach_large by blast
  have rel: "\<not> overflow_checks le_host" by simp
  obtain q where q: "spsc_inv le_host 4 (ring_mem s) q"
    using spsc_system.reach_inv [OF s(1)] by (auto simp: conc_inv_def)
  note L = ring_layout_D [OF spsc_inv_D(1) [OF q]]
  have "prod_access le_host \<lparr>map_size = 40\<rparr> (producer s) (ring_mem s) \<noteq> (Inr pc, m)" for pc m
    using L(2,4) by (simp add: s(2) ring_access sdo_def shm_err_def slice_len_def)
  then obtain msg where "prod_access le_host \<lparr>map_size = 40\<rparr> (producer s) (ring_mem s) =
      (py_raise (PyValueError msg), ring_mem s)"
    using conjunct2 [OF concurrent_safe [OF rel s(1)]] by blast
  moreover obtain res where "cons_access le_host (consumer s) (ring_mem s) = (Inr (fst res), snd res)"
    using conjunct1 [OF concurrent_safe [OF rel s(1)]] by (elim exE) (rule that)
  ultimately show ?thesis using s by (intro exI conjI)
qed

text \<open>
  C21: The accesses the interleavings are made of are the calls: with nobody in between, those of a
  producer amount to push and those of a consumer to pop, result, faults and region included, in a
  bounded number of accesses; and within that number both calls end whatever the others do to the
  region between any two of them: neither ever waits.
\<close>

theorem calls_are_accesses:
  assumes "push_payload h v = Inr p" "8 + length p \<le> n" "2 ^ 32 + 8 \<le> n'"
  shows "run_alone (prod_access h r) prod_finished n (PCap p) m = Some (push h r v m) \<and>
    (\<exists>res m'. run_alone (cons_access h) cons_finished n' CHead m = Some (res, m') \<and>
       pop h None m = (bind res (\<lambda>x. Inr (map_option PyBytes x)), m') \<and>
       pop h (Some t) m =
         (bind res (\<lambda>x. case x of None \<Rightarrow> Inr None
            | Some q \<Rightarrow> bind (unpack_one h q t) (\<lambda>(w, _). Inr (Some w))), m') \<and>
       pop_mixed h schema m =
         (bind res (\<lambda>x. case x of None \<Rightarrow> Inr None
            | Some q \<Rightarrow> bind (unpack_mixed_counted h q schema) (\<lambda>(ws, _). Inr (Some ws))), m')) \<and>
    (\<forall>ms. 8 + length p \<le> length ms \<longrightarrow>
       (\<exists>res. run_among (prod_access h r) prod_finished ms (PCap p) = Some res)) \<and>
    (\<forall>ms. 2 ^ 32 + 8 \<le> length ms \<longrightarrow> (\<exists>res. run_among (cons_access h) cons_finished ms CHead = Some res))"
proof (intro conjI allI impI)
  show "\<exists>res. run_among (prod_access h r) prod_finished ms (PCap p) = Some res" if "8 + length p \<le> length ms" for ms
    using push_call.run_among_ends [of "PCap p" ms h r] push_payload_length [OF assms(1)] that by simp
  show "\<exists>res. run_among (cons_access h) cons_finished ms CHead = Some res" if "2 ^ 32 + 8 \<le> length ms" for ms
    using pop_call.run_among_ends [of h CHead ms] that by simp
  show "run_alone (prod_access h r) prod_finished n (PCap p) m = Some (push h r v m)"
    using push_payload_length [OF assms(1)] assms(1,2) by (intro push_alone) auto
  obtain res m' where rest: "pop_from h CHead m = (res, m')" by fastforce
  have "run_alone (cons_access h) cons_finished n' CHead m = Some (res, m')"
    using pop_call.run_is_rest [of h CHead n' m] assms(3) rest by simp
  then show "\<exists>res m'. run_alone (cons_access h) cons_finished n' CHead m = Some (res, m') \<and>
       pop h None m = (bind res (\<lambda>x. Inr (map_option PyBytes x)), m') \<and>
       pop h (Some t) m =
         (bind res (\<lambda>x. case x of None \<Rightarrow> Inr None
            | Some q \<Rightarrow> bind (unpack_one h q t) (\<lambda>(w, _). Inr (Some w))), m') \<and>
       pop_mixed h schema m =
         (bind res (\<lambda>x. case x of None \<Rightarrow> Inr None
            | Some q \<Rightarrow> bind (unpack_mixed_counted h q schema) (\<lambda>(ws, _). Inr (Some ws))), m')"
    unfolding pop_is_rest using rest
    by (intro exI [of _ res] exI [of _ m'])
      (auto simp: sbind_def sreturn_def sdo_def bind_def split: sum.splits option.splits prod.splits)
qed

lemma calls_are_accesses_witness:
  "run_alone (prod_access le_host \<lparr>map_size = 40\<rparr>) prod_finished 9 (PCap [7]) ring16 =
     Some (push le_host \<lparr>map_size = 40\<rparr> (PyBytes [7]) ring16)"
  using calls_are_accesses [where v = "PyBytes [7]" and p = "[7]" and n' = "2 ^ 32 + 8"]
  by (simp add: push_payload_bytes)

end
