(* ===== verification/MemoryOrder.thy ===== *)
theory MemoryOrder
  imports Prelude
begin

text \<open>
  The memory orderings of the code's atomic accesses and what they order. A thread's knowledge is a
  point of a lattice of clocks: a number for one other thread, a function for many. A store that
  releases tells the clock of its thread to whoever acquires it with a load of the same value; that is
  the synchronisation that puts the plain accesses before the store ahead of those after the load.
  Two plain accesses of one byte, one of them a write, of which neither is ahead of the other are a data
  race, and a data race is undefined behaviour.
\<close>

datatype ordering = Relaxed | Acquire | Release | AcqRel | SeqCst

fun acquires :: "ordering \<Rightarrow> bool" where
  "acquires Acquire = True"
| "acquires AcqRel = True"
| "acquires SeqCst = True"
| "acquires _ = False"

fun releases :: "ordering \<Rightarrow> bool" where
  "releases Release = True"
| "releases AcqRel = True"
| "releases SeqCst = True"
| "releases _ = False"

definition tells :: "ordering \<Rightarrow> 'c :: order_bot \<Rightarrow> 'c" where
  "tells ord clock = (if releases ord then clock else bot)"

definition learns :: "ordering \<Rightarrow> 'c :: semilattice_sup \<Rightarrow> 'c \<Rightarrow> 'c" where
  "learns ord told known = (if acquires ord then sup known told else known)"

lemma sup_no_clock [simp]:
  fixes clock :: "'c :: {semilattice_sup, order_bot}"
  shows "sup clock bot = clock" "sup bot clock = clock"
  by (simp_all add: sup_absorb1 sup_absorb2)

lemma learns_known: "x \<le> known \<Longrightarrow> x \<le> learns ord told known"
  by (simp add: learns_def le_supI1)

lemma learns_told: "acquires ord \<Longrightarrow> x \<le> told \<Longrightarrow> x \<le> learns ord told known"
  by (simp add: learns_def le_supI2)

lemma learns_bot:
  fixes known :: "'c :: {semilattice_sup, order_bot}"
  shows "\<not> (acquires ord \<and> releases ord') \<Longrightarrow> known = bot \<Longrightarrow> told = tells ord' clock \<Longrightarrow>
    learns ord told known = bot"
  by (auto simp: learns_def tells_def)

end
