(* ===== verification/SpscWeak.thy ===== *)
theory SpscWeak
  imports SpscSys MemoryOrder
begin

text \<open>
  The ring buffer under the memory model of the language: the same accesses as in \<open>SpscSys\<close>, but a load of
  the other side's position may return any value of it not older than the last one seen, plain accesses
  of the data bytes are ordered only by what a release of a position tells an acquire of it, and a data
  race on a byte is undefined behaviour: every state may follow.
\<close>

section \<open>The system\<close>

text \<open>The orderings of the six atomic accesses in \<open>push\<close> and \<open>pop\<close>, and those the source names.\<close>

record ring_orderings =
  push_load_head :: ordering
  push_load_tail :: ordering
  push_store_tail :: ordering
  pop_load_head :: ordering
  pop_load_tail :: ordering
  pop_store_head :: ordering

definition source_orderings :: ring_orderings where
  "source_orderings =
     \<lparr>push_load_head = Acquire, push_load_tail = Relaxed, push_store_tail = Release,
      pop_load_head = Relaxed, pop_load_tail = Acquire, pop_store_head = Release\<rparr>"

text \<open>
  \<open>heads\<close> and \<open>tails\<close> are the values each position has had, in order, with what the store of each tells:
  \<open>seen_head\<close> and \<open>seen_tail\<close> the newest one its reader has loaded. Each side's clock counts its stores;
  \<open>prod_knows\<close> is the consumer's time up to which the producer is synchronised, \<open>cons_knows\<close> the
  other way round. \<open>written\<close> and \<open>looked\<close> are the times of the last write and read of each byte of the region.
\<close>

record weak_sys =
  ring_sys :: spsc_sys
  heads :: "(usize \<times> nat) list"
  tails :: "(usize \<times> nat) list"
  seen_head :: nat
  seen_tail :: nat
  prod_time :: nat
  cons_time :: nat
  prod_knows :: nat
  cons_knows :: nat
  written :: "nat \<Rightarrow> nat"
  looked :: "nat \<Rightarrow> nat"

text \<open>The byte of the region that the next access writes or reads.\<close>

fun prod_byte :: "prod_pc \<Rightarrow> nat option" where
  "prod_byte (PWrite p cap tail i) =
     (if i < 4 then Some (data_off ((tail + of_nat i) AND (cap - 1)))
      else if i < 4 + length p then Some (data_off ((tail + 4 + of_nat (i - 4)) AND (cap - 1)))
      else None)"
| "prod_byte pc = None"

fun cons_byte :: "cons_pc \<Rightarrow> nat option" where
  "cons_byte (CLen head cap acc) = Some (data_off ((head + of_nat (length acc)) AND (cap - 1)))"
| "cons_byte (CPay head cap n acc) =
     (if length acc < unat n then Some (data_off ((head + 4 + of_nat (length acc)) AND (cap - 1))) else None)"
| "cons_byte pc = None"

definition prod_races :: "weak_sys \<Rightarrow> bool" where
  "prod_races w \<longleftrightarrow> (case prod_byte (producer (ring_sys w)) of
     Some x \<Rightarrow> prod_knows w < looked w x | None \<Rightarrow> False)"

definition cons_races :: "weak_sys \<Rightarrow> bool" where
  "cons_races w \<longleftrightarrow> (case cons_byte (consumer (ring_sys w)) of
     Some x \<Rightarrow> cons_knows w < written w x | None \<Rightarrow> False)"

definition ring_races :: "weak_sys \<Rightarrow> bool" where
  "ring_races w \<longleftrightarrow> prod_races w \<or> cons_races w"

text \<open>The effect of an access of each side on the clocks and histories, where \<open>s\<close> is the state after it.\<close>

definition prod_mark :: "ring_orderings \<Rightarrow> spsc_sys \<Rightarrow> host \<Rightarrow> weak_sys \<Rightarrow> weak_sys" where
  "prod_mark ords s h w =
     (case prod_byte (producer (ring_sys w)) of
        Some x \<Rightarrow> w\<lparr>ring_sys := s, written := (written w)(x := prod_time w)\<rparr>
      | None \<Rightarrow>
          if published (producer (ring_sys w)) (producer s) = [] then w\<lparr>ring_sys := s\<rparr>
          else w\<lparr>ring_sys := s, prod_time := Suc (prod_time w),
            tails := tails w @ [(usize_at h 8 (ring_mem s), tells (push_store_tail ords) (prod_time w))]\<rparr>)"

definition cons_mark :: "ring_orderings \<Rightarrow> spsc_sys \<Rightarrow> host \<Rightarrow> weak_sys \<Rightarrow> weak_sys" where
  "cons_mark ords s h w =
     (case cons_byte (consumer (ring_sys w)) of
        Some x \<Rightarrow> w\<lparr>ring_sys := s, looked := (looked w)(x := cons_time w)\<rparr>
      | None \<Rightarrow>
          if taken (consumer s) = [] then w\<lparr>ring_sys := s\<rparr>
          else w\<lparr>ring_sys := s, cons_time := Suc (cons_time w),
            heads := heads w @ [(usize_at h 0 (ring_mem s), tells (pop_store_head ords) (cons_time w))]\<rparr>)"

text \<open>
  A step: a step of \<open>SpscSys\<close> where memory is as the side that acts sees it, or a load of the other
  side's position that returns entry \<open>j\<close> of its history, or anything after a race.
\<close>

definition prod_loads :: "prod_pc \<Rightarrow> bool" where
  "prod_loads pc \<longleftrightarrow> (case pc of PHead p cap \<Rightarrow> True | _ \<Rightarrow> False)"

definition cons_loads :: "cons_pc \<Rightarrow> bool" where
  "cons_loads pc \<longleftrightarrow> (case pc of CTail head \<Rightarrow> True | _ \<Rightarrow> False)"

inductive weak_step :: "ring_orderings \<Rightarrow> host \<Rightarrow> spsc_ring \<Rightarrow> weak_sys \<Rightarrow> weak_sys \<Rightarrow> bool"
  for ords :: ring_orderings and h :: host and r :: spsc_ring where
  weak_begin_push: "producer (ring_sys w) = PIdle \<Longrightarrow> length p < 2 ^ 32 \<Longrightarrow>
    weak_step ords h r w (w\<lparr>ring_sys := (ring_sys w)\<lparr>producer := PCap p\<rparr>\<rparr>)"
| weak_produce: "\<not> ring_races w \<Longrightarrow> producer (ring_sys w) \<noteq> PIdle \<Longrightarrow>
    prod_finished (producer (ring_sys w)) = None \<Longrightarrow> \<not> prod_loads (producer (ring_sys w)) \<Longrightarrow>
    prod_access h r (producer (ring_sys w)) (ring_mem (ring_sys w)) = (Inr pc, m) \<Longrightarrow>
    s = (ring_sys w)\<lparr>ring_mem := m, producer := pc,
      sent := sent (ring_sys w) @ published (producer (ring_sys w)) pc\<rparr> \<Longrightarrow>
    weak_step ords h r w (prod_mark ords s h w)"
| weak_load_head: "\<not> ring_races w \<Longrightarrow> prod_loads (producer (ring_sys w)) \<Longrightarrow>
    seen_head w \<le> j \<Longrightarrow> j < length (heads w) \<Longrightarrow>
    prod_access h r (producer (ring_sys w)) (usize_upd h 0 (fst (heads w ! j)) (ring_mem (ring_sys w))) =
      (Inr pc, m) \<Longrightarrow>
    weak_step ords h r w (w\<lparr>ring_sys := (ring_sys w)\<lparr>producer := pc\<rparr>, seen_head := j,
      prod_knows := learns (push_load_head ords) (snd (heads w ! j)) (prod_knows w)\<rparr>)"
| weak_push_fault: "\<not> ring_races w \<Longrightarrow>
    prod_access h r (producer (ring_sys w)) (ring_mem (ring_sys w)) = (Inl e, m) \<Longrightarrow>
    weak_step ords h r w (w\<lparr>ring_sys := (ring_sys w)\<lparr>ring_mem := m, producer := PIdle\<rparr>\<rparr>)"
| weak_end_push: "prod_finished (producer (ring_sys w)) \<noteq> None \<Longrightarrow>
    weak_step ords h r w (w\<lparr>ring_sys := (ring_sys w)\<lparr>producer := PIdle\<rparr>\<rparr>)"
| weak_begin_pop: "consumer (ring_sys w) = CIdle \<Longrightarrow>
    weak_step ords h r w (w\<lparr>ring_sys := (ring_sys w)\<lparr>consumer := CHead\<rparr>\<rparr>)"
| weak_consume: "\<not> ring_races w \<Longrightarrow> consumer (ring_sys w) \<noteq> CIdle \<Longrightarrow>
    cons_finished (consumer (ring_sys w)) = None \<Longrightarrow> \<not> cons_loads (consumer (ring_sys w)) \<Longrightarrow>
    cons_access h (consumer (ring_sys w)) (ring_mem (ring_sys w)) = (Inr pc, m) \<Longrightarrow>
    s = (ring_sys w)\<lparr>ring_mem := m, consumer := pc, received := received (ring_sys w) @ taken pc\<rparr> \<Longrightarrow>
    weak_step ords h r w (cons_mark ords s h w)"
| weak_load_tail: "\<not> ring_races w \<Longrightarrow> cons_loads (consumer (ring_sys w)) \<Longrightarrow>
    seen_tail w \<le> j \<Longrightarrow> j < length (tails w) \<Longrightarrow>
    cons_access h (consumer (ring_sys w)) (usize_upd h 8 (fst (tails w ! j)) (ring_mem (ring_sys w))) =
      (Inr pc, m) \<Longrightarrow>
    weak_step ords h r w (w\<lparr>ring_sys := (ring_sys w)\<lparr>consumer := pc\<rparr>, seen_tail := j,
      cons_knows := learns (pop_load_tail ords) (snd (tails w ! j)) (cons_knows w)\<rparr>)"
| weak_pop_fault: "\<not> ring_races w \<Longrightarrow>
    cons_access h (consumer (ring_sys w)) (ring_mem (ring_sys w)) = (Inl e, m) \<Longrightarrow>
    weak_step ords h r w (w\<lparr>ring_sys := (ring_sys w)\<lparr>ring_mem := m, consumer := CIdle\<rparr>\<rparr>)"
| weak_end_pop: "cons_finished (consumer (ring_sys w)) \<noteq> None \<Longrightarrow>
    weak_step ords h r w (w\<lparr>ring_sys := (ring_sys w)\<lparr>consumer := CIdle\<rparr>\<rparr>)"
| undefined_behaviour: "ring_races w \<Longrightarrow> weak_step ords h r w t"

definition weak_start :: "host \<Rightarrow> nat \<Rightarrow> weak_sys \<Rightarrow> bool" where
  "weak_start h k w \<longleftrightarrow> spsc_start h k (ring_sys w) \<and>
     heads w = [(usize_at h 0 (ring_mem (ring_sys w)), 0)] \<and>
     tails w = [(usize_at h 8 (ring_mem (ring_sys w)), 0)] \<and>
     seen_head w = 0 \<and> seen_tail w = 0 \<and> prod_time w = 1 \<and> cons_time w = 1 \<and>
     prod_knows w = 0 \<and> cons_knows w = 0 \<and> written w = (\<lambda>_. 0) \<and> looked w = (\<lambda>_. 0)"

end
