(* ===== verification/SpscWeakInv.thy ===== *)
theory SpscWeakInv
  imports SpscWeak
begin

text \<open>
  What each side of the ring may rely on when the position it loads from the other is old: the histories
  are the running totals of the frames sent, the producer's room is measured from the newest head it has
  seen, and the consumer takes only messages the newest tail it has seen covers. Every step without a
  race keeps this, whatever the orderings.
\<close>

section \<open>Positions and histories\<close>

text \<open>The position after the first \<open>j\<close> messages of a ring that began at \<open>c\<close>.\<close>

definition ring_pos :: "host \<Rightarrow> usize \<Rightarrow> u8 list list \<Rightarrow> nat \<Rightarrow> usize" where
  "ring_pos h c S j = c + of_nat (length (frames h (take j S)))"

abbreviation bytes_of :: "host \<Rightarrow> u8 list list \<Rightarrow> nat \<Rightarrow> nat" where
  "bytes_of h S j \<equiv> length (frames h (take j S))"

fun prod_seen :: "host \<Rightarrow> nat \<Rightarrow> usize \<Rightarrow> u8 list list \<Rightarrow> nat \<Rightarrow> prod_pc \<Rightarrow> bool" where
  "prod_seen h k c S j (PTail p cap head) \<longleftrightarrow> head = ring_pos h c S j"
| "prod_seen h k c S j (PWrite p cap tail i) \<longleftrightarrow>
     length (frames h S) + 4 + length p \<le> bytes_of h S j + 2 ^ k"
| "prod_seen h k c S j pc \<longleftrightarrow> True"

fun cons_seen :: "nat \<Rightarrow> nat \<Rightarrow> cons_pc \<Rightarrow> bool" where
  "cons_seen n j (CCap head) \<longleftrightarrow> n < j"
| "cons_seen n j (CLen head cap acc) \<longleftrightarrow> n < j"
| "cons_seen n j (CPay head cap len acc) \<longleftrightarrow> n < j"
| "cons_seen n j pc \<longleftrightarrow> True"

definition seen_inv :: "host \<Rightarrow> nat \<Rightarrow> usize \<Rightarrow> weak_sys \<Rightarrow> bool" where
  "seen_inv h k c w \<longleftrightarrow>
     (let s = ring_sys w; S = sent s; n = length (received s) in
      conc_inv h k s \<and>
      usize_at h 0 (ring_mem s) = ring_pos h c S n \<and>
      map fst (heads w) = map (ring_pos h c S) [0..<Suc n] \<and>
      map fst (tails w) = map (ring_pos h c S) [0..<Suc (length S)] \<and>
      seen_head w \<le> n \<and> n \<le> seen_tail w \<and> seen_tail w \<le> length S \<and>
      length (frames h S) \<le> bytes_of h S (seen_head w) + 2 ^ k \<and>
      prod_seen h k c S (seen_head w) (producer s) \<and>
      cons_seen n (seen_tail w) (consumer s))"

lemma seen_inv_D:
  assumes "seen_inv h k c w"
  shows "conc_inv h k (ring_sys w)"
    "usize_at h 0 (ring_mem (ring_sys w)) = ring_pos h c (sent (ring_sys w)) (length (received (ring_sys w)))"
    "map fst (heads w) = map (ring_pos h c (sent (ring_sys w))) [0..<Suc (length (received (ring_sys w)))]"
    "map fst (tails w) = map (ring_pos h c (sent (ring_sys w))) [0..<Suc (length (sent (ring_sys w)))]"
    "seen_head w \<le> length (received (ring_sys w))" "length (received (ring_sys w)) \<le> seen_tail w"
    "seen_tail w \<le> length (sent (ring_sys w))"
    "length (frames h (sent (ring_sys w))) \<le> bytes_of h (sent (ring_sys w)) (seen_head w) + 2 ^ k"
    "prod_seen h k c (sent (ring_sys w)) (seen_head w) (producer (ring_sys w))"
    "cons_seen (length (received (ring_sys w))) (seen_tail w) (consumer (ring_sys w))"
  using assms unfolding seen_inv_def Let_def by blast+

lemma seen_inv_start:
  assumes "weak_start h k w"
  shows "seen_inv h k (usize_at h 0 (ring_mem (ring_sys w))) w"
proof -
  have s: "spsc_start h k (ring_sys w)" using assms by (simp add: weak_start_def)
  then have "usize_at h 0 (ring_mem (ring_sys w)) = usize_at h 8 (ring_mem (ring_sys w))"
    using spsc_inv_empty_iff [of h k "ring_mem (ring_sys w)" "[]"] by (simp add: spsc_start_def)
  then show ?thesis
    using assms conc_inv_start [OF s] s
    by (simp add: seen_inv_def Let_def weak_start_def spsc_start_def ring_pos_def)
qed

lemma ring_pos_append: "j \<le> length S \<Longrightarrow> ring_pos h c (S @ S') j = ring_pos h c S j"
  by (simp add: ring_pos_def)

lemma bytes_of_mono: "i \<le> j \<Longrightarrow> bytes_of h S i \<le> bytes_of h S j"
  using take_add [of i "j - i" S] by simp

lemma bytes_of_all: "length S \<le> j \<Longrightarrow> bytes_of h S j = length (frames h S)"
  by simp

lemma bytes_of_less:
  assumes "i < j" "j \<le> length S"
  shows "bytes_of h S i + 4 + length (S ! i) \<le> bytes_of h S j"
proof -
  have "bytes_of h S (Suc i) \<le> bytes_of h S j" using assms by (intro bytes_of_mono) simp
  then show ?thesis using assms by (simp add: take_Suc_conv_app_nth)
qed

text \<open>The messages in the ring and the positions, of one state that satisfies both invariants.\<close>

lemma seen_inv_ring:
  assumes "seen_inv h k c w"
  obtains q where "sent (ring_sys w) = received (ring_sys w) @ q"
    "spsc_inv h k (ring_mem (ring_sys w)) q"
    "prod_inv h k (ring_mem (ring_sys w)) (length (frames h q)) (producer (ring_sys w))"
    "cons_inv h k (usize_at h 0 (ring_mem (ring_sys w))) q (consumer (ring_sys w))"
    "usize_at h 8 (ring_mem (ring_sys w)) =
       ring_pos h c (sent (ring_sys w)) (length (sent (ring_sys w)))"
    "length (frames h (sent (ring_sys w))) =
       bytes_of h (sent (ring_sys w)) (length (received (ring_sys w))) + length (frames h q)"
proof -
  note D = seen_inv_D [OF assms]
  let ?m = "ring_mem (ring_sys w)"
  obtain q where q: "sent (ring_sys w) = received (ring_sys w) @ q" "spsc_inv h k ?m q"
    "prod_inv h k ?m (length (frames h q)) (producer (ring_sys w))"
    "cons_inv h k (usize_at h 0 ?m) q (consumer (ring_sys w))"
    using D(1) by (auto simp: conc_inv_def)
  have "usize_at h 8 ?m = usize_at h 0 ?m + of_nat (length (frames h q))"
    by (simp flip: spsc_inv_D(3) [OF q(2)])
  then have "usize_at h 8 ?m = ring_pos h c (sent (ring_sys w)) (length (sent (ring_sys w)))"
    using D(2) q(1) by (simp add: ring_pos_def)
  then show thesis using q by (intro that) simp_all
qed

lemma ring_pos_diff:
  assumes "i \<le> j" "bytes_of h S j \<le> bytes_of h S i + 2 ^ k" "k \<le> 62"
  shows "unat (ring_pos h c S j - ring_pos h c S i) = bytes_of h S j - bytes_of h S i"
proof -
  have "bytes_of h S j - bytes_of h S i < 2 ^ 64"
    using assms(2) power_increasing [OF assms(3), of "2 :: nat"] by simp
  moreover have "ring_pos h c S j - ring_pos h c S i = of_nat (bytes_of h S j - bytes_of h S i)"
    using bytes_of_mono [OF assms(1), of h S] by (simp add: ring_pos_def of_nat_diff)
  ultimately show ?thesis by (simp only: unat_of_nat_usize)
qed

lemma fst_nth_map:
  assumes "map fst xs = map f [0..<n]" "j < length xs"
  shows "fst (xs ! j) = f j" "j < n"
proof -
  have len: "length xs = n" using arg_cong [OF assms(1), of length] by simp
  then show "j < n" using assms(2) by simp
  have "map fst xs ! j = map f [0..<n] ! j" by (simp only: assms(1))
  then show "fst (xs ! j) = f j" using assms(2) len by simp
qed

section \<open>The loads that may be stale\<close>

lemma seen_inv_load_head:
  assumes inv: "seen_inv h k c w" and pc: "producer (ring_sys w) = PHead p cap"
    and j: "seen_head w \<le> j" "j < length (heads w)"
    and acc: "prod_access h r (PHead p cap) (usize_upd h 0 (fst (heads w ! j)) (ring_mem (ring_sys w))) = (Inr pc', m)"
    and t: "ring_sys t = (ring_sys w)\<lparr>producer := pc'\<rparr>" "heads t = heads w" "tails t = tails w"
      "seen_head t = j" "seen_tail t = seen_tail w"
  shows "seen_inv h k c t"
proof -
  note D = seen_inv_D [OF inv]
  let ?S = "sent (ring_sys w)" and ?n = "length (received (ring_sys w))" and ?m = "ring_mem (ring_sys w)"
  obtain q where q: "?S = received (ring_sys w) @ q" "spsc_inv h k ?m q"
    "prod_inv h k ?m (length (frames h q)) (PHead p cap)"
    "cons_inv h k (usize_at h 0 ?m) q (consumer (ring_sys w))"
    "usize_at h 8 ?m = ring_pos h c ?S (length ?S)"
    "length (frames h ?S) = bytes_of h ?S ?n + length (frames h q)"
    using seen_inv_ring [OF inv] unfolding pc by metis
  note k = ring_layout_D [OF spsc_inv_D(1) [OF q(2)]]
  have k62: "k \<le> 62" using spsc_inv_D(1) [OF q(2)] by (simp add: ring_layout_def)
  have v: "fst (heads w ! j) = ring_pos h c ?S j" and jn: "j \<le> ?n"
    using fst_nth_map [OF D(3) j(2)] by simp_all
  have pc': "pc' = PTail p cap (ring_pos h c ?S j)"
    using acc k(2) by (simp add: v sbind_load_head sreturn_def header_fields)
  have old: "bytes_of h ?S (seen_head w) \<le> bytes_of h ?S j" "bytes_of h ?S j \<le> bytes_of h ?S ?n"
    using j(1) jn by (simp_all add: bytes_of_mono)
  then have room: "length (frames h ?S) \<le> bytes_of h ?S j + 2 ^ k" using D(8) by simp
  have "unat (usize_at h 8 ?m - ring_pos h c ?S j) = length (frames h ?S) - bytes_of h ?S j"
    using ring_pos_diff [of j "length ?S" h ?S k c] room k62 jn q(1,5) by simp
  then have "conc_inv h k (ring_sys t)"
    using q old room by (intro conc_invI [of _ q]) (auto simp: t pc')
  then show ?thesis
    using D jn room by (simp add: seen_inv_def Let_def t pc')
qed

lemma seen_inv_load_tail:
  assumes inv: "seen_inv h k c w" and pc: "consumer (ring_sys w) = CTail head"
    and j: "seen_tail w \<le> j" "j < length (tails w)"
    and acc: "cons_access h (CTail head) (usize_upd h 8 (fst (tails w ! j)) (ring_mem (ring_sys w))) = (Inr pc', m)"
    and t: "ring_sys t = (ring_sys w)\<lparr>consumer := pc'\<rparr>" "heads t = heads w" "tails t = tails w"
      "seen_head t = seen_head w" "seen_tail t = j"
  shows "seen_inv h k c t"
proof -
  note D = seen_inv_D [OF inv]
  let ?S = "sent (ring_sys w)" and ?n = "length (received (ring_sys w))" and ?m = "ring_mem (ring_sys w)"
  obtain q where q: "?S = received (ring_sys w) @ q" "spsc_inv h k ?m q"
    "prod_inv h k ?m (length (frames h q)) (producer (ring_sys w))"
    "cons_inv h k (usize_at h 0 ?m) q (CTail head)"
    "usize_at h 8 ?m = ring_pos h c ?S (length ?S)"
    "length (frames h ?S) = bytes_of h ?S ?n + length (frames h q)"
    using seen_inv_ring [OF inv] unfolding pc by metis
  note k = ring_layout_D [OF spsc_inv_D(1) [OF q(2)]]
  have k62: "k \<le> 62" using spsc_inv_D(1) [OF q(2)] by (simp add: ring_layout_def)
  have v: "fst (tails w ! j) = ring_pos h c ?S j" and jS: "j \<le> length ?S"
    using fst_nth_map [OF D(4) j(2)] by simp_all
  have head: "head = ring_pos h c ?S ?n" using q(4) D(2) by simp
  have pc': "pc' = (if head = ring_pos h c ?S j then CDone None else CCap head)"
    using acc k(2) by (simp add: v sbind_load_tail sreturn_def header_fields)
  have nj: "?n \<le> j" using D(6) j(1) by simp
  have "bytes_of h ?S j \<le> bytes_of h ?S ?n + 2 ^ k"
    using bytes_of_mono [OF jS, of h ?S] q(6) spsc_inv_D(2) [OF q(2)] by simp
  then have "unat (ring_pos h c ?S j - head) = bytes_of h ?S j - bytes_of h ?S ?n"
    using ring_pos_diff [OF nj] k62 head by simp
  then have more: "?n < j" if "head \<noteq> ring_pos h c ?S j"
    using that head nj by (cases "?n = j") auto
  then have "q \<noteq> []" if "head \<noteq> ring_pos h c ?S j" using that jS q(1) by auto
  then have "conc_inv h k (ring_sys t)"
    using q by (intro conc_invI [of _ q]) (auto simp: t pc')
  then show ?thesis
    using D nj jS more by (simp add: seen_inv_def Let_def t pc')
qed

section \<open>The other accesses\<close>

lemma tail_of_inv: "spsc_inv h k m q \<Longrightarrow> usize_at h 8 m = usize_at h 0 m + of_nat (length (frames h q))"
  by (simp flip: spsc_inv_D(3))

lemma prod_byte_published:
  "prod_byte pc = Some x \<Longrightarrow> prod_access h r pc m = (Inr pc', m') \<Longrightarrow> published pc pc' = []"
  by (cases pc) (auto simp: sbind_eq_Inr sreturn_def split: if_splits)

lemma published_cases: "published pc pc' = [] \<or> (\<exists>p. published pc pc' = [p])"
  by (cases "(pc, pc')" rule: published.cases) auto

lemma cons_byte_taken:
  "cons_byte pc = Some x \<Longrightarrow> cons_access h pc m = (Inr pc', m') \<Longrightarrow> taken pc' = []"
  by (cases pc) (auto simp: sbind_eq_Inr sreturn_def after_len_def split: if_splits)

lemma taken_cases: "taken pc = [] \<or> (\<exists>p. taken pc = [p])"
  by (cases pc rule: taken.cases) auto

lemma prod_mark_simps:
  "ring_sys (prod_mark ords s h w) = s" "heads (prod_mark ords s h w) = heads w"
  "seen_head (prod_mark ords s h w) = seen_head w" "seen_tail (prod_mark ords s h w) = seen_tail w"
  "prod_knows (prod_mark ords s h w) = prod_knows w" "cons_knows (prod_mark ords s h w) = cons_knows w"
  "cons_time (prod_mark ords s h w) = cons_time w" "looked (prod_mark ords s h w) = looked w"
  by (simp_all add: prod_mark_def split: option.split)

lemma cons_mark_simps:
  "ring_sys (cons_mark ords s h w) = s" "tails (cons_mark ords s h w) = tails w"
  "seen_head (cons_mark ords s h w) = seen_head w" "seen_tail (cons_mark ords s h w) = seen_tail w"
  "prod_knows (cons_mark ords s h w) = prod_knows w" "cons_knows (cons_mark ords s h w) = cons_knows w"
  "prod_time (cons_mark ords s h w) = prod_time w" "written (cons_mark ords s h w) = written w"
  by (simp_all add: cons_mark_def split: option.split)

lemma prod_seen_next:
  assumes "prod_access h r pc m = (Inr pc', m')" "\<not> overflow_checks h" "\<not> prod_loads pc"
    "conc_ok h k m q hpos pc" "usize_at h 8 m = ring_pos h c S (length S)"
    "length (frames h S) \<le> bytes_of h S j + 2 ^ k" "prod_seen h k c S j pc" "j \<le> length S"
  shows "prod_seen h k c (S @ published pc pc') j pc'"
    "length (frames h (S @ published pc pc')) \<le> bytes_of h S j + 2 ^ k"
proof -
  have inv: "spsc_inv h k m q" using assms(4) by (simp add: conc_ok_def)
  note k = ring_layout_D [OF spsc_inv_D(1) [OF inv]]
  have k62: "k \<le> 62" using spsc_inv_D(1) [OF inv] by (simp add: ring_layout_def)
  have "prod_seen h k c (S @ published pc pc') j pc' \<and>
    length (frames h (S @ published pc pc')) \<le> bytes_of h S j + 2 ^ k"
  proof (cases pc)
    case (PTail p cap head)
    let ?u = "unat (usize_at h 8 m - head)" and ?n = "of_nat (4 + length p) :: usize"
    have P: "length p < 2 ^ 32" "cap = 2 ^ k" "?u \<le> 2 ^ k"
      using assms(4) PTail by (auto simp: conc_ok_def)
    have n: "4 + slice_len p = ?n" "unat ?n = 4 + length p"
      using frame_len_usize(2) [of p] P(1) by (simp_all add: slice_len_def)
    have u: "?u = length (frames h S) - bytes_of h S j"
      using ring_pos_diff [of j "length S" h S k c] assms(5-8) k62 PTail by simp
    have "unat (usize_at h 8 m - head + ?n) = ?u + (4 + length p)"
      using P(1,3) k(6) n(2) by (subst unat_add_usize) auto
    then have "2 ^ k < usize_at h 8 m - head + ?n \<longleftrightarrow> 2 ^ k < ?u + (4 + length p)"
      unfolding word_less_nat_alt k(5) by simp
    then have "pc' = (if 2 ^ k < ?u + (4 + length p) then PDone False else PWrite p cap (usize_at h 8 m) 0)"
      using assms(1,2) PTail P(2) k(2) n(1) by (auto simp: sbind_load_tail sreturn_def del: of_nat_add)
    then show ?thesis using PTail u assms(6) by auto
  next
    case (PWrite p cap tail i)
    then show ?thesis
      using assms(1,6,7) by (auto simp: sbind_eq_Inr sreturn_def split: if_splits)
  qed (use assms in \<open>auto simp: sbind_eq_Inr sdo_def sreturn_def prod_loads_def split: if_splits\<close>)
  then show "prod_seen h k c (S @ published pc pc') j pc'"
    "length (frames h (S @ published pc pc')) \<le> bytes_of h S j + 2 ^ k" by simp_all
qed

lemma seen_inv_produce:
  assumes rel: "\<not> overflow_checks h" and inv: "seen_inv h k c w"
    and pc: "producer (ring_sys w) \<noteq> PIdle" "prod_finished (producer (ring_sys w)) = None"
      "\<not> prod_loads (producer (ring_sys w))"
    and acc: "prod_access h r (producer (ring_sys w)) (ring_mem (ring_sys w)) = (Inr pc', m)"
    and s: "s = (ring_sys w)\<lparr>ring_mem := m, producer := pc',
      sent := sent (ring_sys w) @ published (producer (ring_sys w)) pc'\<rparr>"
  shows "seen_inv h k c (prod_mark ords s h w)"
proof -
  note D = seen_inv_D [OF inv]
  let ?S = "sent (ring_sys w)" and ?n = "length (received (ring_sys w))" and ?m = "ring_mem (ring_sys w)"
    and ?pc = "producer (ring_sys w)"
  let ?pub = "published ?pc pc'"
  obtain q where q: "?S = received (ring_sys w) @ q" "spsc_inv h k ?m q"
    "prod_inv h k ?m (length (frames h q)) ?pc"
    "usize_at h 8 ?m = ring_pos h c ?S (length ?S)"
    using seen_inv_ring [OF inv] by metis
  have ok: "conc_ok h k ?m q (usize_at h 0 ?m) ?pc" using q(2,3) by (simp add: conc_ok_def)
  have new: "spsc_inv h k m (q @ ?pub)" "usize_at h 0 m = usize_at h 0 ?m"
    using prod_access_step [OF rel ok, of r] acc by (auto simp: conc_ok_def)
  have conc: "conc_inv h k s"
    using conc_inv_step [OF rel D(1)] spsc_step.produce [OF pc(1,2) acc] s by blast
  have nS: "?n \<le> length ?S" using q(1) by simp
  have tail: "usize_at h 8 m = ring_pos h c (?S @ ?pub) (length (?S @ ?pub))"
    using tail_of_inv [OF new(1)] new(2) D(2) q(1) by (simp add: ring_pos_def)
  have tails: "tails (prod_mark ords s h w) = tails w \<and> ?pub = [] \<or>
      (\<exists>x. tails (prod_mark ords s h w) = tails w @ [(usize_at h 8 m, x)] \<and> length ?pub = 1)"
    using prod_byte_published [OF _ acc] published_cases [of ?pc pc']
    by (auto simp: prod_mark_def s split: option.split)
  have "map fst (tails (prod_mark ords s h w)) = map (ring_pos h c (?S @ ?pub)) [0..<Suc (length (?S @ ?pub))]"
    using tails
  proof (elim disjE exE conjE)
    fix x assume t: "tails (prod_mark ords s h w) = tails w @ [(usize_at h 8 m, x)]" "length ?pub = 1"
    have "map (ring_pos h c (?S @ ?pub)) [0..<Suc (length (?S @ ?pub))] =
        map (ring_pos h c (?S @ ?pub)) [0..<Suc (length ?S)] @ [usize_at h 8 m]"
      using tail t(2) by simp
    also have "map (ring_pos h c (?S @ ?pub)) [0..<Suc (length ?S)] = map (ring_pos h c ?S) [0..<Suc (length ?S)]"
      by (intro map_cong refl ring_pos_append) auto
    finally show ?thesis using D(4) t(1) by simp
  qed (use D(4) in simp)
  moreover have "map fst (heads w) = map (ring_pos h c (?S @ ?pub)) [0..<Suc ?n]"
    unfolding D(3) using nS by (intro map_cong refl ring_pos_append [symmetric]) auto
  moreover have "prod_seen h k c (?S @ ?pub) (seen_head w) pc'"
    "length (frames h (?S @ ?pub)) \<le> bytes_of h ?S (seen_head w) + 2 ^ k"
    using prod_seen_next [OF acc rel pc(3) ok q(4) D(8,9)] D(5) nS by simp_all
  moreover have "bytes_of h (?S @ ?pub) (seen_head w) = bytes_of h ?S (seen_head w)"
    using D(5) nS by simp
  moreover have "ring_pos h c (?S @ ?pub) ?n = ring_pos h c ?S ?n"
    using nS by (rule ring_pos_append)
  ultimately show ?thesis
    using D(2,5,6,7,10) conc new(2)
    by (simp add: seen_inv_def Let_def prod_mark_simps s del: upt_Suc)
qed

lemma cons_seen_next:
  assumes "cons_access h pc m = (Inr pc', m')" "\<not> cons_loads pc" "cons_seen n j pc"
  shows "cons_seen (n + length (taken pc')) j pc'" "taken pc' \<noteq> [] \<Longrightarrow> cons_finished pc = None \<Longrightarrow> n < j"
  using assms
  by (cases pc; auto simp: sbind_eq_Inr sdo_def sreturn_def cons_loads_def after_len_def split: if_splits)+

lemma seen_inv_consume:
  assumes rel: "\<not> overflow_checks h" and inv: "seen_inv h k c w"
    and pc: "consumer (ring_sys w) \<noteq> CIdle" "cons_finished (consumer (ring_sys w)) = None"
      "\<not> cons_loads (consumer (ring_sys w))"
    and acc: "cons_access h (consumer (ring_sys w)) (ring_mem (ring_sys w)) = (Inr pc', m)"
    and s: "s = (ring_sys w)\<lparr>ring_mem := m, consumer := pc', received := received (ring_sys w) @ taken pc'\<rparr>"
  shows "seen_inv h k c (cons_mark ords s h w)"
proof -
  note D = seen_inv_D [OF inv]
  let ?S = "sent (ring_sys w)" and ?R = "received (ring_sys w)" and ?m = "ring_mem (ring_sys w)"
    and ?pc = "consumer (ring_sys w)"
  let ?n = "length (?R @ taken pc')"
  obtain q where q: "?S = ?R @ q" "spsc_inv h k ?m q" "cons_inv h k (usize_at h 0 ?m) q ?pc"
    "usize_at h 8 ?m = ring_pos h c ?S (length ?S)"
    using seen_inv_ring [OF inv] by metis
  obtain q' where q': "q = taken pc' @ q'" "spsc_inv h k m q'" "usize_at h 8 m = usize_at h 8 ?m"
    using cons_access_step [OF rel q(2,3) pc(2)] acc by auto
  have conc: "conc_inv h k s"
    using conc_inv_step [OF rel D(1)] spsc_step.consume [OF pc(1,2) acc] s by blast
  have S: "?S = (?R @ taken pc') @ q'" using q(1) q'(1) by simp
  have "usize_at h 0 m + of_nat (length (frames h q')) = ring_pos h c ?S ?n + of_nat (length (frames h q'))"
    using tail_of_inv [OF q'(2)] q'(3) q(4) by (simp add: ring_pos_def S)
  then have head: "usize_at h 0 m = ring_pos h c ?S ?n" by simp
  have heads: "heads (cons_mark ords s h w) = heads w \<and> taken pc' = [] \<or>
      (\<exists>x. heads (cons_mark ords s h w) = heads w @ [(usize_at h 0 m, x)] \<and> length (taken pc') = 1)"
    using cons_byte_taken [OF _ acc] taken_cases [of pc']
    by (auto simp: cons_mark_def s split: option.split)
  have "map fst (heads (cons_mark ords s h w)) = map (ring_pos h c ?S) [0..<Suc ?n]"
    using heads D(3) head by (elim disjE exE conjE) simp_all
  moreover have "?n \<le> seen_tail w"
    using cons_seen_next(2) [OF acc pc(3) D(10) _ pc(2)] D(6) taken_cases [of pc'] by auto
  ultimately show ?thesis
    using D(4,5,7,8,9) conc head cons_seen_next(1) [OF acc pc(3) D(10)]
    by (simp add: seen_inv_def Let_def cons_mark_simps s del: upt_Suc)
qed

lemma seen_inv_calls:
  assumes "seen_inv h k c w" "conc_inv h k s"
    "ring_mem s = ring_mem (ring_sys w)" "sent s = sent (ring_sys w)" "received s = received (ring_sys w)"
    "producer s = producer (ring_sys w) \<or> producer s = PIdle \<or> producer s = PCap p"
    "consumer s = consumer (ring_sys w) \<or> consumer s = CIdle \<or> consumer s = CHead"
  shows "seen_inv h k c (w\<lparr>ring_sys := s\<rparr>)"
  using assms by (auto simp: seen_inv_def Let_def)

text \<open>Without a race, every step keeps the invariant, whatever the orderings.\<close>

lemma seen_inv_step:
  assumes rel: "\<not> overflow_checks h" and inv: "seen_inv h k c w"
    and step: "weak_step ords h r w t" and ok: "\<not> ring_races w"
  shows "seen_inv h k c t"
proof -
  note D = seen_inv_D [OF inv]
  note conc = conc_inv_step [OF rel D(1)]
  obtain q where q: "spsc_inv h k (ring_mem (ring_sys w)) q"
    "prod_inv h k (ring_mem (ring_sys w)) (length (frames h q)) (producer (ring_sys w))"
    "cons_inv h k (usize_at h 0 (ring_mem (ring_sys w))) q (consumer (ring_sys w))"
    using seen_inv_ring [OF inv] by metis
  from step show ?thesis
  proof cases
    case (weak_begin_push p)
    then show ?thesis
      using conc [OF spsc_step.begin_push [of "ring_sys w" p h r]]
      by (auto intro!: seen_inv_calls [OF inv])
  next
    case (weak_produce pc m s)
    show ?thesis
      unfolding weak_produce(1)
      using weak_produce by (intro seen_inv_produce [OF rel inv]) simp_all
  next
    case (weak_load_head j pc m)
    then obtain p cap where "producer (ring_sys w) = PHead p cap"
      by (auto simp: prod_loads_def split: prod_pc.splits)
    with weak_load_head show ?thesis
      by (intro seen_inv_load_head [OF inv, of p cap j r pc m]) simp_all
  next
    case (weak_push_fault e m)
    then have "m = ring_mem (ring_sys w)"
      using prod_access_step [OF rel, of k "ring_mem (ring_sys w)" q
          "usize_at h 0 (ring_mem (ring_sys w))" "producer (ring_sys w)" r] q
      by (auto simp: conc_ok_def)
    then show ?thesis
      using conc [OF spsc_step.push_fault [OF weak_push_fault(3)]] weak_push_fault(1)
      by (auto intro!: seen_inv_calls [OF inv])
  next
    case weak_end_push
    then show ?thesis
      using conc [OF spsc_step.end_push] by (auto intro!: seen_inv_calls [OF inv])
  next
    case weak_begin_pop
    then show ?thesis
      using conc [OF spsc_step.begin_pop] by (auto intro!: seen_inv_calls [OF inv])
  next
    case (weak_consume pc m s)
    show ?thesis
      unfolding weak_consume(1)
      using weak_consume by (intro seen_inv_consume [OF rel inv]) simp_all
  next
    case (weak_load_tail j pc m)
    then obtain head where "consumer (ring_sys w) = CTail head"
      by (auto simp: cons_loads_def split: cons_pc.splits)
    with weak_load_tail show ?thesis
      by (intro seen_inv_load_tail [OF inv, of head j pc m]) simp_all
  next
    case (weak_pop_fault e m)
    have "cons_finished (consumer (ring_sys w)) = None"
      using weak_pop_fault(3) by (cases "consumer (ring_sys w)") (auto simp: sreturn_def)
    then show ?thesis using cons_access_step [OF rel q(1,3)] weak_pop_fault(3) by auto
  next
    case weak_end_pop
    then show ?thesis
      using conc [OF spsc_step.end_pop] by (auto intro!: seen_inv_calls [OF inv])
  qed (use ok in simp)
qed

end
