(* ===== verification/SpscWeakClock.thy ===== *)
theory SpscWeakClock
  imports SpscWeakInv
begin

text \<open>
  No data race under orderings that release and acquire both positions: whatever byte a side touches next,
  the other's last access of it lies before a store that the side has acquired.
\<close>

section \<open>Where the next access lies\<close>

definition pos_byte :: "usize \<Rightarrow> nat \<Rightarrow> nat \<Rightarrow> nat" where
  "pos_byte c k a = 24 + (unat c + a) mod 2 ^ k"

fun prod_progress :: "prod_pc \<Rightarrow> nat" where
  "prod_progress (PWrite p cap tail i) = i"
| "prod_progress pc = 0"

fun cons_progress :: "cons_pc \<Rightarrow> nat" where
  "cons_progress (CLen head cap acc) = length acc"
| "cons_progress (CPay head cap n acc) = 4 + length acc"
| "cons_progress pc = 0"

lemma pos_byte_apart: "a < b \<Longrightarrow> b < a + 2 ^ k \<Longrightarrow> pos_byte c k a \<noteq> pos_byte c k b"
  using mod_neq [of "unat c + a" "unat c + b" "2 ^ k"] by (simp add: pos_byte_def)

lemma data_off_pos:
  assumes "k < 64"
  shows "data_off ((ring_pos h c S j + of_nat i) AND (2 ^ k - 1)) = pos_byte c k (bytes_of h S j + i)"
  using mod_add_cong [OF unat_add_of_nat_mod [OF assms, of c "bytes_of h S j"] refl, of i]
  unfolding ring_pos_def pos_byte_def data_off_mask [OF assms] by (simp add: add.assoc)

lemma data_off_pos4:
  assumes "k < 64" "4 \<le> i"
  shows "data_off ((ring_pos h c S j + 4 + of_nat (i - 4)) AND (2 ^ k - 1)) = pos_byte c k (bytes_of h S j + i)"
proof -
  have "ring_pos h c S j + 4 + of_nat (i - 4) = ring_pos h c S j + of_nat i"
    using assms(2) by (simp add: of_nat_diff)
  then show ?thesis using data_off_pos [OF assms(1), of h c S j i] by (simp only:)
qed

lemma prod_byte_pos:
  assumes inv: "seen_inv h k c w" and x: "prod_byte (producer (ring_sys w)) = Some x"
  shows "x = pos_byte c k (length (frames h (sent (ring_sys w))) + prod_progress (producer (ring_sys w)))"
    "length (frames h (sent (ring_sys w))) + prod_progress (producer (ring_sys w)) <
       bytes_of h (sent (ring_sys w)) (seen_head w) + 2 ^ k"
proof -
  note D = seen_inv_D [OF inv]
  let ?S = "sent (ring_sys w)"
  obtain q where q: "spsc_inv h k (ring_mem (ring_sys w)) q"
    "prod_inv h k (ring_mem (ring_sys w)) (length (frames h q)) (producer (ring_sys w))"
    "usize_at h 8 (ring_mem (ring_sys w)) = ring_pos h c ?S (length ?S)"
    using seen_inv_ring [OF inv] by metis
  note k = ring_layout_D [OF spsc_inv_D(1) [OF q(1)]]
  obtain p cap tail i where pc: "producer (ring_sys w) = PWrite p cap tail i"
    using x by (cases "producer (ring_sys w)") auto
  have "cap = 2 ^ k" "tail = ring_pos h c ?S (length ?S)" "i < 4 + length p"
    using q x pc by (auto split: if_splits)
  then show "x = pos_byte c k (length (frames h ?S) + prod_progress (producer (ring_sys w)))"
    using x pc data_off_pos [OF k(1), of h c ?S "length ?S" i] data_off_pos4 [OF k(1), of i h c ?S "length ?S"]
    by (auto split: if_splits)
  show "length (frames h ?S) + prod_progress (producer (ring_sys w)) < bytes_of h ?S (seen_head w) + 2 ^ k"
    using D(9) pc \<open>i < 4 + length p\<close> by simp
qed

lemma cons_byte_pos:
  assumes inv: "seen_inv h k c w" and x: "cons_byte (consumer (ring_sys w)) = Some x"
  defines "b \<equiv> bytes_of h (sent (ring_sys w)) (length (received (ring_sys w))) +
    cons_progress (consumer (ring_sys w))"
  shows "x = pos_byte c k b" "b < bytes_of h (sent (ring_sys w)) (seen_tail w)"
proof -
  note D = seen_inv_D [OF inv]
  let ?S = "sent (ring_sys w)" and ?R = "received (ring_sys w)" and ?pc = "consumer (ring_sys w)"
  obtain q where q: "?S = ?R @ q" "spsc_inv h k (ring_mem (ring_sys w)) q"
    "cons_inv h k (usize_at h 0 (ring_mem (ring_sys w))) q ?pc"
    using seen_inv_ring [OF inv] by metis
  note k = ring_layout_D [OF spsc_inv_D(1) [OF q(2)]]
  have more: "length ?R < seen_tail w" "q \<noteq> []"
    using D(10) x q(3) by (cases ?pc; simp)+
  then obtain p q' where p: "q = p # q'" by (cases q) auto
  have "length p < 2 ^ 32" using spsc_inv_D(5) [OF q(2)] p by simp
  then have n: "unat (of_nat (length p) :: usize) = length p" by (simp add: unat_of_nat_usize)
  have next_msg: "?S ! length ?R = p" using q(1) p by simp
  have "cons_progress ?pc < 4 + length p"
    using q(3) x p n by (cases ?pc) (auto split: if_splits)
  then show "b < bytes_of h ?S (seen_tail w)"
    using bytes_of_less [OF more(1) D(7), of h] unfolding b_def next_msg by linarith
  show "x = pos_byte c k b"
    using q(3) x data_off_pos [OF k(1), of h c ?S "length ?R" "cons_progress ?pc"]
      data_off_pos4 [OF k(1), of "cons_progress ?pc" h c ?S "length ?R"] D(2)
    unfolding b_def by (cases ?pc) (auto split: if_splits)
qed

section \<open>The clocks\<close>

definition synchronised :: "ring_orderings \<Rightarrow> bool" where
  "synchronised ords \<longleftrightarrow>
     releases (push_store_tail ords) \<and> acquires (pop_load_tail ords) \<and>
     releases (pop_store_head ords) \<and> acquires (push_load_head ords)"

text \<open>
  A byte written after the store of an entry of \<open>tails\<close> belongs to a position from that entry on; a byte
  read after the store of an entry of \<open>heads\<close> likewise.
\<close>

definition clock_inv :: "host \<Rightarrow> nat \<Rightarrow> usize \<Rightarrow> weak_sys \<Rightarrow> bool" where
  "clock_inv h k c w \<longleftrightarrow>
     (let S = sent (ring_sys w) in
      (\<forall>x. written w x \<le> prod_time w \<and> looked w x \<le> cons_time w) \<and>
      (\<forall>j < length (tails w). \<forall>x. snd (tails w ! j) < written w x \<longrightarrow>
         (\<exists>a. bytes_of h S j \<le> a \<and> a < bytes_of h S (seen_head w) + 2 ^ k \<and> x = pos_byte c k a)) \<and>
      (\<forall>j < length (heads w). \<forall>x. snd (heads w ! j) < looked w x \<longrightarrow>
         (\<exists>a. bytes_of h S j \<le> a \<and> a < length (frames h S) \<and> x = pos_byte c k a)) \<and>
      snd (tails w ! seen_tail w) \<le> cons_knows w \<and> snd (heads w ! seen_head w) \<le> prod_knows w)"

lemma clock_inv_D:
  assumes "clock_inv h k c w"
  shows "written w x \<le> prod_time w" "looked w x \<le> cons_time w"
    "j < length (tails w) \<Longrightarrow> snd (tails w ! j) < written w x \<Longrightarrow>
       \<exists>a. bytes_of h (sent (ring_sys w)) j \<le> a \<and> a < bytes_of h (sent (ring_sys w)) (seen_head w) + 2 ^ k \<and>
         x = pos_byte c k a"
    "j < length (heads w) \<Longrightarrow> snd (heads w ! j) < looked w x \<Longrightarrow>
       \<exists>a. bytes_of h (sent (ring_sys w)) j \<le> a \<and> a < length (frames h (sent (ring_sys w))) \<and> x = pos_byte c k a"
    "snd (tails w ! seen_tail w) \<le> cons_knows w" "snd (heads w ! seen_head w) \<le> prod_knows w"
  using assms unfolding clock_inv_def Let_def by blast+

lemma clock_inv_start: "weak_start h k w \<Longrightarrow> clock_inv h k c w"
  by (simp add: clock_inv_def weak_start_def)

lemma seen_inv_lengths:
  assumes "seen_inv h k c w"
  shows "length (heads w) = Suc (length (received (ring_sys w)))" "length (tails w) = Suc (length (sent (ring_sys w)))"
    "seen_head w < length (heads w)" "seen_tail w < length (tails w)"
proof -
  note D = seen_inv_D [OF assms]
  show "length (heads w) = Suc (length (received (ring_sys w)))" "length (tails w) = Suc (length (sent (ring_sys w)))"
    using arg_cong [OF D(3), of length] arg_cong [OF D(4), of length] by simp_all
  then show "seen_head w < length (heads w)" "seen_tail w < length (tails w)"
    using D(5,7) by simp_all
qed

lemma no_race:
  assumes inv: "seen_inv h k c w" and clk: "clock_inv h k c w"
  shows "\<not> ring_races w"
proof -
  note D = seen_inv_D [OF inv] and C = clock_inv_D [OF clk] and L = seen_inv_lengths [OF inv]
  let ?S = "sent (ring_sys w)" and ?n = "length (received (ring_sys w))"
  have le: "bytes_of h ?S (seen_head w) \<le> bytes_of h ?S ?n" by (rule bytes_of_mono [OF D(5)])
  have "\<not> prod_races w"
  proof (rule notI)
    assume "prod_races w"
    then obtain x where x: "prod_byte (producer (ring_sys w)) = Some x" "prod_knows w < looked w x"
      by (auto simp: prod_races_def split: option.splits)
    obtain b where b: "bytes_of h ?S (seen_head w) \<le> b" "b < length (frames h ?S)" "x = pos_byte c k b"
      using C(4) [OF L(3), of x] C(6) x(2) by auto
    show False
      using pos_byte_apart [of b "length (frames h ?S) + prod_progress (producer (ring_sys w))" k c]
        prod_byte_pos [OF inv x(1)] b by simp
  qed
  moreover have "\<not> cons_races w"
  proof (rule notI)
    assume "cons_races w"
    then obtain x where x: "cons_byte (consumer (ring_sys w)) = Some x" "cons_knows w < written w x"
      by (auto simp: cons_races_def split: option.splits)
    obtain a where a: "bytes_of h ?S (seen_tail w) \<le> a" "a < bytes_of h ?S (seen_head w) + 2 ^ k" "x = pos_byte c k a"
      using C(3) [OF L(4), of x] C(5) x(2) by auto
    show False
      using pos_byte_apart [of "bytes_of h ?S ?n + cons_progress (consumer (ring_sys w))" a k c]
        cons_byte_pos [OF inv x(1)] a le by simp
  qed
  ultimately show ?thesis by (simp add: ring_races_def)
qed


section \<open>Every step keeps the clocks\<close>

lemma clock_inv_calls:
  "clock_inv h k c w \<Longrightarrow> sent s = sent (ring_sys w) \<Longrightarrow> clock_inv h k c (w\<lparr>ring_sys := s\<rparr>)"
  by (simp add: clock_inv_def)

lemma clock_inv_produce:
  assumes inv: "seen_inv h k c w" and clk: "clock_inv h k c w" and sync: "releases (push_store_tail ords)"
    and S: "sent s = sent (ring_sys w) @ published (producer (ring_sys w)) (producer s)"
    and quiet: "\<And>x. prod_byte (producer (ring_sys w)) = Some x \<Longrightarrow> published (producer (ring_sys w)) (producer s) = []"
  shows "clock_inv h k c (prod_mark ords s h w)"
proof -
  note D = seen_inv_D [OF inv] and C = clock_inv_D [OF clk] and L = seen_inv_lengths [OF inv]
  let ?S = "sent (ring_sys w)" and ?pub = "published (producer (ring_sys w)) (producer s)"
  show ?thesis
  proof (cases "prod_byte (producer (ring_sys w))")
    case (Some x)
    let ?a = "length (frames h ?S) + prod_progress (producer (ring_sys w))"
    have same: "sent s = ?S" using quiet [OF Some] S by simp
    have "\<exists>a. bytes_of h ?S j \<le> a \<and> a < bytes_of h ?S (seen_head w) + 2 ^ k \<and> x = pos_byte c k a"
      if "j < length (tails w)" for j
      using prod_byte_pos [OF inv Some] bytes_of_mono [of j "length ?S" h ?S] that L(2)
      by (intro exI [of _ ?a]) simp
    then show ?thesis
      using C Some by (auto simp: clock_inv_def Let_def prod_mark_def same)
  next
    case None
    show ?thesis
    proof (cases "?pub = []")
      case True
      then show ?thesis
        using clk S None by (simp add: prod_mark_def clock_inv_calls)
    next
      case False
      have old: "bytes_of h (?S @ ?pub) j = bytes_of h ?S j" if "j < length (tails w)" for j
        using that L(2) by simp
      have heads: "j < length (tails w)" if "j < length (heads w)" for j
        using that L D(6,7) by simp
      have C3: "\<exists>a. bytes_of h (?S @ ?pub) j \<le> a \<and>
          a < bytes_of h (?S @ ?pub) (seen_head w) + 2 ^ k \<and> x = pos_byte c k a"
        if "j < Suc (length (tails w))"
          "snd ((tails w @ [(v, prod_time w)]) ! j) < written w x" for j x v
        using that C(1) [of x] C(3) [of j x] old heads [OF L(3)]
        by (auto simp: nth_append less_Suc_eq split: if_splits)
      have C4: "\<exists>a. bytes_of h (?S @ ?pub) j \<le> a \<and> a < length (frames h (?S @ ?pub)) \<and> x = pos_byte c k a"
        if "j < length (heads w)" "snd (heads w ! j) < looked w x" for j x
        using C(4) [OF that] old [OF heads [OF that(1)]] by (auto simp: trans_less_add1)
      have C5: "snd ((tails w @ [y]) ! seen_tail w) \<le> cons_knows w" for y
        using C(5) L(4) by (simp add: nth_append)
      show ?thesis
        using None False C(1,2,6) C3 C4 C5 sync
        by (simp add: clock_inv_def Let_def prod_mark_def S tells_def le_SucI del: take_append)
    qed
  qed
qed

lemma clock_inv_consume:
  assumes inv: "seen_inv h k c w" and clk: "clock_inv h k c w" and sync: "releases (pop_store_head ords)"
    and S: "sent s = sent (ring_sys w)"
  shows "clock_inv h k c (cons_mark ords s h w)"
proof -
  note D = seen_inv_D [OF inv] and C = clock_inv_D [OF clk] and L = seen_inv_lengths [OF inv]
  let ?S = "sent (ring_sys w)" and ?n = "length (received (ring_sys w))"
  show ?thesis
  proof (cases "cons_byte (consumer (ring_sys w))")
    case (Some x)
    let ?b = "bytes_of h ?S ?n + cons_progress (consumer (ring_sys w))"
    have "\<exists>b. bytes_of h ?S j \<le> b \<and> b < length (frames h ?S) \<and> x = pos_byte c k b"
      if "j < length (heads w)" for j
      using cons_byte_pos [OF inv Some] bytes_of_mono [of j ?n h ?S] that L(1)
        bytes_of_mono [OF D(7), of h ?S]
      by (intro exI [of _ ?b]) simp
    then show ?thesis
      using C Some by (auto simp: clock_inv_def Let_def cons_mark_def S)
  next
    case None
    have C4: "\<exists>a. bytes_of h ?S j \<le> a \<and> a < length (frames h ?S) \<and> x = pos_byte c k a"
      if "j < Suc (length (heads w))" "snd ((heads w @ [(v, cons_time w)]) ! j) < looked w x" for j x v
      using that C(2) [of x] C(4) [of j x] by (auto simp: nth_append less_Suc_eq split: if_splits)
    have C6: "snd ((heads w @ [y]) ! seen_head w) \<le> prod_knows w" for y
      using C(6) L(3) by (simp add: nth_append)
    show ?thesis
      using None C(1,2,3,5) C4 C6 sync clk S
      by (simp add: clock_inv_def Let_def cons_mark_def tells_def le_SucI)
  qed
qed

lemma clock_inv_step:
  assumes rel: "\<not> overflow_checks h" and sync: "synchronised ords"
    and inv: "seen_inv h k c w" and clk: "clock_inv h k c w" and step: "weak_step ords h r w t"
  shows "clock_inv h k c t"
proof -
  note D = seen_inv_D [OF inv] and C = clock_inv_D [OF clk] and L = seen_inv_lengths [OF inv]
  from step show ?thesis
  proof cases
    case (weak_produce pc m s)
    then show ?thesis
      unfolding weak_produce(1) using sync prod_byte_published
      by (intro clock_inv_produce [OF inv clk]) (auto simp: synchronised_def)
  next
    case (weak_consume pc m s)
    then show ?thesis
      unfolding weak_consume(1) using sync
      by (intro clock_inv_consume [OF inv clk]) (auto simp: synchronised_def)
  next
    case (weak_load_head j pc m)
    have "bytes_of h (sent (ring_sys w)) (seen_head w) \<le> bytes_of h (sent (ring_sys w)) j"
      using weak_load_head(4) by (rule bytes_of_mono)
    then have "\<exists>a. bytes_of h (sent (ring_sys w)) i \<le> a \<and> a < bytes_of h (sent (ring_sys w)) j + 2 ^ k \<and>
        x = pos_byte c k a" if "i < length (tails w)" "snd (tails w ! i) < written w x" for i x
      using C(3) [OF that] by (auto intro: order.strict_trans2)
    moreover have "snd (heads w ! j) \<le> learns (push_load_head ords) (snd (heads w ! j)) (prod_knows w)"
      using sync by (intro learns_told) (simp_all add: synchronised_def)
    ultimately show ?thesis
      unfolding weak_load_head(1) using C(1,2,4,5) by (simp add: clock_inv_def Let_def)
  next
    case (weak_load_tail j pc m)
    moreover have "snd (tails w ! j) \<le> learns (pop_load_tail ords) (snd (tails w ! j)) (cons_knows w)"
      using sync by (intro learns_told) (simp_all add: synchronised_def)
    ultimately show ?thesis
      using C(1,2,3,4,6) by (simp add: clock_inv_def Let_def)
  next
    case undefined_behaviour
    then show ?thesis using no_race [OF inv clk] by simp
  qed (use clk in \<open>auto intro!: clock_inv_calls\<close>)
qed

interpretation weak_system: invariant_system
  "weak_start h k" "weak_step ords h r"
  "\<lambda>w. \<not> overflow_checks h \<and> synchronised ords \<longrightarrow> (\<exists>c. seen_inv h k c w \<and> clock_inv h k c w)"
  for h k ords r
proof
  show "weak_start h k w \<Longrightarrow> \<not> overflow_checks h \<and> synchronised ords \<longrightarrow>
      (\<exists>c. seen_inv h k c w \<and> clock_inv h k c w)" for w
    using seen_inv_start clock_inv_start by blast
  show "\<not> overflow_checks h \<and> synchronised ords \<longrightarrow> (\<exists>c. seen_inv h k c w \<and> clock_inv h k c w) \<Longrightarrow>
      weak_step ords h r w t \<Longrightarrow>
      \<not> overflow_checks h \<and> synchronised ords \<longrightarrow> (\<exists>c. seen_inv h k c t \<and> clock_inv h k c t)" for w t
    using seen_inv_step clock_inv_step no_race by blast
qed

end
