(* ===== verification/SpscWeakRuns.thy ===== *)
theory SpscWeakRuns
  imports SpscWeakClock
begin

text \<open>
  Executions of the weak system: which bytes have been touched, what is not known where a release or an
  acquire is missing, and calls that run alone on the newest positions. They lead to the races of the
  next theory.
\<close>

section \<open>Missing synchronisation\<close>

text \<open>What the sides have touched, and what they know where the synchronisation is missing.\<close>

definition touched_inv :: "host \<Rightarrow> nat \<Rightarrow> usize \<Rightarrow> weak_sys \<Rightarrow> bool" where
  "touched_inv h k c w \<longleftrightarrow>
     (let s = ring_sys w in
      0 < prod_time w \<and> 0 < cons_time w \<and>
      (\<forall>a < length (frames h (sent s)) + prod_progress (producer s). 0 < written w (pos_byte c k a)) \<and>
      (\<forall>b < bytes_of h (sent s) (length (received s)) + cons_progress (consumer s). 0 < looked w (pos_byte c k b)))"

definition unsynchronised_inv :: "ring_orderings \<Rightarrow> weak_sys \<Rightarrow> bool" where
  "unsynchronised_inv ords w \<longleftrightarrow>
     (\<not> releases (push_store_tail ords) \<longrightarrow> (\<forall>y \<in> set (tails w). snd y = 0)) \<and>
     (\<not> releases (pop_store_head ords) \<longrightarrow> (\<forall>y \<in> set (heads w). snd y = 0)) \<and>
     (\<not> (acquires (pop_load_tail ords) \<and> releases (push_store_tail ords)) \<longrightarrow> cons_knows w = 0) \<and>
     (\<not> (acquires (push_load_head ords) \<and> releases (pop_store_head ords)) \<longrightarrow> prod_knows w = 0)"

lemma touched_inv_start: "weak_start h k w \<Longrightarrow> touched_inv h k c w"
  by (simp add: touched_inv_def weak_start_def spsc_start_def)

lemma unsynchronised_inv_start: "weak_start h k w \<Longrightarrow> unsynchronised_inv ords w"
  by (simp add: unsynchronised_inv_def weak_start_def)

lemma unsynchronised_inv_step:
  assumes inv: "unsynchronised_inv ords w" and step: "weak_step ords h r w t" and ok: "\<not> ring_races w"
  shows "unsynchronised_inv ords t"
  using step
proof cases
  case (weak_produce pc m s)
  then show ?thesis
    using inv by (auto simp: unsynchronised_inv_def prod_mark_def tells_def bot_nat_def split: option.split)
next
  case (weak_consume pc m s)
  then show ?thesis
    using inv by (auto simp: unsynchronised_inv_def cons_mark_def tells_def bot_nat_def split: option.split)
next
  case (weak_load_head j pc m)
  then show ?thesis
    using inv nth_mem [of j "heads w"] by (auto simp: unsynchronised_inv_def learns_def)
next
  case (weak_load_tail j pc m)
  then show ?thesis
    using inv nth_mem [of j "tails w"] by (auto simp: unsynchronised_inv_def learns_def)
qed (use inv ok in \<open>auto simp: unsynchronised_inv_def\<close>)

lemma prod_progress_next:
  assumes "prod_access h r pc m = (Inr pc', m')" "prod_finished pc = None" "prod_inv h k m n pc"
  shows "prod_byte pc = None \<Longrightarrow>
      length (frames h (published pc pc')) + prod_progress pc' = prod_progress pc"
    "prod_byte pc = Some x \<Longrightarrow> published pc pc' = [] \<and> prod_progress pc' = Suc (prod_progress pc)"
  using assms by (cases pc; auto simp: sbind_eq_Inr sdo_def sreturn_def split: if_splits)+

lemma cons_progress_next:
  assumes "cons_access h pc m = (Inr pc', m')" "cons_finished pc = None" "cons_inv h k hpos q pc"
    "spsc_inv h k m q"
  shows "cons_byte pc = None \<Longrightarrow>
      length (frames h (taken pc')) + cons_progress pc' = cons_progress pc"
    "cons_byte pc = Some x \<Longrightarrow> taken pc' = [] \<and> cons_progress pc' = Suc (cons_progress pc)"
  using assms by (cases pc; auto simp: sbind_eq_Inr sdo_def sreturn_def after_len_def split: if_splits)+

lemma touched_D:
  assumes "touched_inv h k c w"
  shows "0 < prod_time w" "0 < cons_time w"
    "a < length (frames h (sent (ring_sys w))) + prod_progress (producer (ring_sys w)) \<Longrightarrow>
       0 < written w (pos_byte c k a)"
    "b < bytes_of h (sent (ring_sys w)) (length (received (ring_sys w))) + cons_progress (consumer (ring_sys w)) \<Longrightarrow>
       0 < looked w (pos_byte c k b)"
  using assms unfolding touched_inv_def Let_def by blast+

lemma touched_inv_calls:
  assumes "touched_inv h k c w" "sent (ring_sys t) = sent (ring_sys w)"
    "received (ring_sys t) = received (ring_sys w)"
    "prod_progress (producer (ring_sys t)) \<le> prod_progress (producer (ring_sys w))"
    "cons_progress (consumer (ring_sys t)) \<le> cons_progress (consumer (ring_sys w))"
    "written t = written w" "looked t = looked w" "prod_time t = prod_time w" "cons_time t = cons_time w"
  shows "touched_inv h k c t"
  using touched_D [OF assms(1)] assms(2-) by (simp add: touched_inv_def Let_def)

lemma touched_inv_produce:
  assumes inv: "seen_inv h k c w" and tch: "touched_inv h k c w"
    and pc: "prod_finished (producer (ring_sys w)) = None"
    and acc: "prod_access h r (producer (ring_sys w)) (ring_mem (ring_sys w)) = (Inr pc', m)"
    and s: "s = (ring_sys w)\<lparr>ring_mem := m, producer := pc',
      sent := sent (ring_sys w) @ published (producer (ring_sys w)) pc'\<rparr>"
  shows "touched_inv h k c (prod_mark ords s h w)"
proof -
  note T = touched_D [OF tch]
  let ?S = "sent (ring_sys w)" and ?pc = "producer (ring_sys w)"
  obtain q where q: "?S = received (ring_sys w) @ q"
    "prod_inv h k (ring_mem (ring_sys w)) (length (frames h q)) ?pc"
    using seen_inv_ring [OF inv] by metis
  note next_pc = prod_progress_next [OF acc pc q(2)]
  have read: "bytes_of h (?S @ published ?pc pc') (length (received (ring_sys w))) =
      bytes_of h ?S (length (received (ring_sys w)))"
    using q(1) by simp
  show ?thesis
  proof (cases "prod_byte ?pc")
    case None
    then have p: "length (frames h (?S @ published ?pc pc')) + prod_progress pc' =
        length (frames h ?S) + prod_progress ?pc"
      using next_pc(1) by simp
    show ?thesis
      using T(1,2,4) read None T(3) [folded p] p
      by (auto simp: touched_inv_def Let_def s prod_mark_def)
  next
    case (Some x)
    have x: "x = pos_byte c k (length (frames h ?S) + prod_progress ?pc)"
      using prod_byte_pos [OF inv Some] by simp
    show ?thesis
      using T next_pc(2) [OF Some] Some
      by (auto simp: touched_inv_def Let_def prod_mark_def s x less_Suc_eq)
  qed
qed

lemma touched_inv_consume:
  assumes rel: "\<not> overflow_checks h" and inv: "seen_inv h k c w" and tch: "touched_inv h k c w"
    and pc: "cons_finished (consumer (ring_sys w)) = None"
    and acc: "cons_access h (consumer (ring_sys w)) (ring_mem (ring_sys w)) = (Inr pc', m)"
    and s: "s = (ring_sys w)\<lparr>ring_mem := m, consumer := pc', received := received (ring_sys w) @ taken pc'\<rparr>"
  shows "touched_inv h k c (cons_mark ords s h w)"
proof -
  note T = touched_D [OF tch]
  let ?S = "sent (ring_sys w)" and ?R = "received (ring_sys w)" and ?pc = "consumer (ring_sys w)"
  obtain q where q: "?S = ?R @ q" "spsc_inv h k (ring_mem (ring_sys w)) q"
    "cons_inv h k (usize_at h 0 (ring_mem (ring_sys w))) q ?pc"
    using seen_inv_ring [OF inv] by metis
  obtain q' where q': "q = taken pc' @ q'"
    using cons_access_step [OF rel q(2,3) pc] acc by auto
  note next_pc = cons_progress_next [OF acc pc q(3,2)]
  have more: "bytes_of h ?S (length (?R @ taken pc')) = bytes_of h ?S (length ?R) + length (frames h (taken pc'))"
    using q(1) q' by simp
  show ?thesis
  proof (cases "cons_byte ?pc")
    case None
    then have p: "bytes_of h ?S (length (?R @ taken pc')) + cons_progress pc' =
        bytes_of h ?S (length ?R) + cons_progress ?pc"
      using next_pc(1) more by simp
    show ?thesis
      using T(1-3) None T(4) [folded p] p
      by (auto simp: touched_inv_def Let_def s cons_mark_def)
  next
    case (Some x)
    have x: "x = pos_byte c k (bytes_of h ?S (length ?R) + cons_progress ?pc)"
      using cons_byte_pos [OF inv Some] by simp
    show ?thesis
      using T next_pc(2) [OF Some] Some
      by (auto simp: touched_inv_def Let_def cons_mark_def s x less_Suc_eq)
  qed
qed

lemma touched_inv_step:
  assumes rel: "\<not> overflow_checks h" and inv: "seen_inv h k c w" and tch: "touched_inv h k c w"
    and step: "weak_step ords h r w t" and ok: "\<not> ring_races w"
  shows "touched_inv h k c t"
  using step
proof cases
  case (weak_produce pc m s)
  show ?thesis
    unfolding weak_produce(1) by (rule touched_inv_produce [OF inv tch weak_produce(4,6,7)])
next
  case (weak_consume pc m s)
  show ?thesis
    unfolding weak_consume(1) by (rule touched_inv_consume [OF rel inv tch weak_consume(4,6,7)])
next
  case (weak_load_head j pc m)
  then have "prod_progress pc = 0"
    by (auto simp: prod_loads_def sbind_eq_Inr sreturn_def split: prod_pc.splits)
  then show ?thesis
    using weak_load_head(1) by (intro touched_inv_calls [OF tch]) simp_all
next
  case (weak_load_tail j pc m)
  then have "cons_progress pc = 0"
    by (auto simp: cons_loads_def sbind_eq_Inr sreturn_def split: cons_pc.splits if_splits)
  then show ?thesis
    using weak_load_tail(1) by (intro touched_inv_calls [OF tch]) simp_all
qed (use ok in \<open>auto intro!: touched_inv_calls [OF tch]\<close>)

section \<open>Runs\<close>

lemma usize_upd_id: "off + 8 \<le> length m \<Longrightarrow> usize_upd h off (usize_at h off m) m = m"
  using overwrite_window [of off 8 m] by (simp add: usize_upd_def usize_at_def to_from_ne_bytes)

lemma weak_prod_next:
  assumes inv: "seen_inv h k c w" and ok: "\<not> ring_races w"
    and pc: "producer (ring_sys w) \<noteq> PIdle" "prod_finished (producer (ring_sys w)) = None"
    and acc: "prod_access h r (producer (ring_sys w)) (ring_mem (ring_sys w)) = (Inr pc', m)"
  shows "\<exists>t. weak_step ords h r w t \<and> ring_mem (ring_sys t) = m \<and> producer (ring_sys t) = pc' \<and>
    consumer (ring_sys t) = consumer (ring_sys w) \<and>
    sent (ring_sys t) = sent (ring_sys w) @ published (producer (ring_sys w)) pc'"
proof (cases "prod_loads (producer (ring_sys w))")
  case False
  let ?s = "(ring_sys w)\<lparr>ring_mem := m, producer := pc',
    sent := sent (ring_sys w) @ published (producer (ring_sys w)) pc'\<rparr>"
  have "weak_step ords h r w (prod_mark ords ?s h w)"
    by (rule weak_produce [OF ok pc False acc refl])
  then show ?thesis by (intro exI [of _ "prod_mark ords ?s h w"] conjI) (simp_all add: prod_mark_simps)
next
  case True
  note D = seen_inv_D [OF inv] and L = seen_inv_lengths [OF inv]
  let ?m = "ring_mem (ring_sys w)"
  let ?j = "length (received (ring_sys w))"
  obtain q where "spsc_inv h k ?m q" using seen_inv_ring [OF inv] by metis
  then have len: "24 \<le> length ?m" using ring_layout_D(2) spsc_inv_D(1) by blast
  have j: "?j < length (heads w)" using L(1) by simp
  have "fst (heads w ! ?j) = usize_at h 0 ?m" using fst_nth_map(1) [OF D(3) j] D(2) by simp
  then have m: "usize_upd h 0 (fst (heads w ! ?j)) ?m = ?m" using usize_upd_id [of 0 ?m h] len by simp
  obtain p cap where "producer (ring_sys w) = PHead p cap"
    using True by (auto simp: prod_loads_def split: prod_pc.splits)
  then have "m = ?m" "published (producer (ring_sys w)) pc' = []"
    using acc len by (simp_all add: sbind_load_head sreturn_def)
  then show ?thesis
    using weak_load_head [OF ok True D(5) j, of h r pc' m ords] acc m
    by (intro exI [of _ "w\<lparr>ring_sys := (ring_sys w)\<lparr>producer := pc'\<rparr>, seen_head := ?j,
        prod_knows := learns (push_load_head ords) (snd (heads w ! ?j)) (prod_knows w)\<rparr>"] conjI) simp_all
qed

lemma weak_cons_next:
  assumes inv: "seen_inv h k c w" and ok: "\<not> ring_races w"
    and pc: "consumer (ring_sys w) \<noteq> CIdle" "cons_finished (consumer (ring_sys w)) = None"
    and acc: "cons_access h (consumer (ring_sys w)) (ring_mem (ring_sys w)) = (Inr pc', m)"
  shows "\<exists>t. weak_step ords h r w t \<and> ring_mem (ring_sys t) = m \<and> consumer (ring_sys t) = pc' \<and>
    producer (ring_sys t) = producer (ring_sys w) \<and> sent (ring_sys t) = sent (ring_sys w)"
proof (cases "cons_loads (consumer (ring_sys w))")
  case False
  let ?s = "(ring_sys w)\<lparr>ring_mem := m, consumer := pc',
    received := received (ring_sys w) @ taken pc'\<rparr>"
  have "weak_step ords h r w (cons_mark ords ?s h w)"
    by (rule weak_consume [OF ok pc False acc refl])
  then show ?thesis by (intro exI [of _ "cons_mark ords ?s h w"] conjI) (simp_all add: cons_mark_simps)
next
  case True
  note D = seen_inv_D [OF inv] and L = seen_inv_lengths [OF inv]
  let ?m = "ring_mem (ring_sys w)"
  let ?j = "length (sent (ring_sys w))"
  obtain q where "spsc_inv h k ?m q" "usize_at h 8 ?m = ring_pos h c (sent (ring_sys w)) ?j"
    using seen_inv_ring [OF inv] by metis
  then have len: "24 \<le> length ?m" and tail: "usize_at h 8 ?m = ring_pos h c (sent (ring_sys w)) ?j"
    using ring_layout_D(2) spsc_inv_D(1) by blast+
  have j: "?j < length (tails w)" using L(2) by simp
  have "fst (tails w ! ?j) = usize_at h 8 ?m" using fst_nth_map(1) [OF D(4) j] tail by simp
  then have m: "usize_upd h 8 (fst (tails w ! ?j)) ?m = ?m" using usize_upd_id [of 8 ?m h] len by simp
  obtain head where "consumer (ring_sys w) = CTail head"
    using True by (auto simp: cons_loads_def split: cons_pc.splits)
  then have "m = ?m" using acc len by (simp add: sbind_load_tail sreturn_def)
  then show ?thesis
    using weak_load_tail [OF ok True D(7) j, of h pc' m ords] acc m
    by (intro exI [of _ "w\<lparr>ring_sys := (ring_sys w)\<lparr>consumer := pc'\<rparr>, seen_tail := ?j,
        cons_knows := learns (pop_load_tail ords) (snd (tails w ! ?j)) (cons_knows w)\<rparr>"] conjI) simp_all
qed

text \<open>Where no race is reachable, every reachable state satisfies the invariants that need no ordering.\<close>

lemma reach_inv_of_safe:
  assumes "\<not> overflow_checks h"
    and "\<And>w. reach (weak_start h k) (weak_step ords h r) w \<Longrightarrow> \<not> ring_races w"
    and "reach (weak_start h k) (weak_step ords h r) w"
  shows "\<exists>c. seen_inv h k c w \<and> touched_inv h k c w \<and> unsynchronised_inv ords w"
  using assms(3)
proof (induction rule: reach.induct)
  case (reach_start w)
  then show ?case
    using seen_inv_start touched_inv_start unsynchronised_inv_start by blast
next
  case (reach_step w t)
  then show ?case
    using seen_inv_step [OF assms(1)] touched_inv_step [OF assms(1)] unsynchronised_inv_step assms(2)
    by meson
qed

lemma reach_push_alone:
  assumes rel: "\<not> overflow_checks h"
    and safe: "\<And>w. reach (weak_start h k) (weak_step ords h r) w \<Longrightarrow> \<not> ring_races w"
    and w: "reach (weak_start h k) (weak_step ords h r) w" "producer (ring_sys w) \<noteq> PIdle"
    and run: "run_alone (prod_access h r) prod_finished n (producer (ring_sys w)) (ring_mem (ring_sys w)) =
      Some (Inr b, m)"
  shows "\<exists>t. reach (weak_start h k) (weak_step ords h r) t \<and> ring_mem (ring_sys t) = m \<and>
    producer (ring_sys t) = PDone b \<and> consumer (ring_sys t) = consumer (ring_sys w)"
  using w run
proof (induction n arbitrary: w)
  case 0
  then show ?case by (cases "producer (ring_sys w)") auto
next
  case (Suc n)
  show ?case
  proof (cases "prod_finished (producer (ring_sys w))")
    case None
    then obtain pc m1 where acc: "prod_access h r (producer (ring_sys w)) (ring_mem (ring_sys w)) = (Inr pc, m1)"
      and rest: "run_alone (prod_access h r) prod_finished n pc m1 = Some (Inr b, m)"
      using Suc.prems(3) by (auto split: prod.splits sum.splits)
    obtain c where "seen_inv h k c w" using reach_inv_of_safe [OF rel safe Suc.prems(1)] by blast
    then obtain w1 where w1: "weak_step ords h r w w1" "ring_mem (ring_sys w1) = m1"
      "producer (ring_sys w1) = pc" "consumer (ring_sys w1) = consumer (ring_sys w)"
      using weak_prod_next [OF _ safe [OF Suc.prems(1)] Suc.prems(2) None acc] by blast
    have "pc \<noteq> PIdle"
      using acc Suc.prems(2) None
      by (cases "producer (ring_sys w)") (auto simp: sbind_eq_Inr sdo_def sreturn_def split: if_splits)
    then show ?thesis
      using Suc.IH [of w1] reach_step [OF Suc.prems(1) w1(1)] w1 rest by auto
  next
    case (Some x)
    then show ?thesis using Suc.prems by (cases "producer (ring_sys w)") auto
  qed
qed

lemma reach_pop_alone:
  assumes rel: "\<not> overflow_checks h"
    and safe: "\<And>w. reach (weak_start h k) (weak_step ords h r) w \<Longrightarrow> \<not> ring_races w"
    and w: "reach (weak_start h k) (weak_step ords h r) w" "consumer (ring_sys w) \<noteq> CIdle"
    and run: "run_alone (cons_access h) cons_finished n (consumer (ring_sys w)) (ring_mem (ring_sys w)) =
      Some (Inr b, m)"
  shows "\<exists>t. reach (weak_start h k) (weak_step ords h r) t \<and> ring_mem (ring_sys t) = m \<and>
    consumer (ring_sys t) = CDone b \<and> producer (ring_sys t) = producer (ring_sys w) \<and>
    sent (ring_sys t) = sent (ring_sys w)"
  using w run
proof (induction n arbitrary: w)
  case 0
  then show ?case by (cases "consumer (ring_sys w)") auto
next
  case (Suc n)
  show ?case
  proof (cases "cons_finished (consumer (ring_sys w))")
    case None
    then obtain pc m1 where acc: "cons_access h (consumer (ring_sys w)) (ring_mem (ring_sys w)) = (Inr pc, m1)"
      and rest: "run_alone (cons_access h) cons_finished n pc m1 = Some (Inr b, m)"
      using Suc.prems(3) by (auto split: prod.splits sum.splits)
    obtain c where "seen_inv h k c w" using reach_inv_of_safe [OF rel safe Suc.prems(1)] by blast
    then obtain w1 where w1: "weak_step ords h r w w1" "ring_mem (ring_sys w1) = m1"
      "consumer (ring_sys w1) = pc" "producer (ring_sys w1) = producer (ring_sys w)"
      "sent (ring_sys w1) = sent (ring_sys w)"
      using weak_cons_next [OF _ safe [OF Suc.prems(1)] Suc.prems(2) None acc] by blast
    have "pc \<noteq> CIdle"
      using acc Suc.prems(2) None
      by (cases "consumer (ring_sys w)") (auto simp: sbind_eq_Inr sdo_def sreturn_def after_len_def split: if_splits)
    then show ?thesis
      using Suc.IH [of w1] reach_step [OF Suc.prems(1) w1(1)] w1 rest by auto
  next
    case (Some x)
    then show ?thesis using Suc.prems by (cases "consumer (ring_sys w)") auto
  qed
qed

end
