(* ===== verification/SpscWeakProps.thy ===== *)
theory SpscWeakProps
  imports SpscWeakRuns
begin

text \<open>
  The properties of the ring buffer under the memory model: with the orderings of the source no data race
  and messages in order, and each of the four orderings that synchronise is needed.
\<close>

section \<open>A full ring\<close>

lemma fresh_ring:
  assumes "k \<le> 62"
  shows "\<exists>w. weak_start h k w"
proof -
  have "(2 :: nat) ^ k \<le> 2 ^ 62" using assms by (intro power_increasing) auto
  then have "unat (of_nat (24 + 2 ^ k) :: usize) = 24 + 2 ^ k" by (intro unat_of_nat_usize) simp
  then obtain m where m: "spsc_inv h k m []"
    using spsc_new_creator [of "of_nat (24 + 2 ^ k)" k "replicate (24 + 2 ^ k) 0" h] assms by auto
  let ?w = "\<lparr>ring_sys = \<lparr>ring_mem = m, producer = PIdle, consumer = CIdle, sent = [], received = []\<rparr>,
    heads = [(usize_at h 0 m, 0)], tails = [(usize_at h 8 m, 0)], seen_head = 0, seen_tail = 0,
    prod_time = 1, cons_time = 1, prod_knows = 0, cons_knows = 0, written = \<lambda>_. 0, looked = \<lambda>_. 0\<rparr>"
  have "weak_start h k ?w" using m by (simp add: weak_start_def spsc_start_def)
  then show ?thesis ..
qed

text \<open>A message that fills the ring, pushed on an empty one: up to the end of the push.\<close>

lemma reach_full:
  assumes rel: "\<not> overflow_checks h" and k: "k \<le> 31" and p: "4 + length p = 2 ^ k"
    and safe: "\<And>w. reach (weak_start h k) (weak_step ords h r) w \<Longrightarrow> \<not> ring_races w"
  shows "\<exists>w. reach (weak_start h k) (weak_step ords h r) w \<and> spsc_inv h k (ring_mem (ring_sys w)) [p] \<and>
    producer (ring_sys w) = PIdle \<and> consumer (ring_sys w) = CHead"
proof -
  let ?reach = "reach (weak_start h k) (weak_step ords h r)"
  have "(2 :: nat) ^ k \<le> 2 ^ 31" using k by (intro power_increasing) auto
  then have small: "length p < 2 ^ 32" "length p \<le> isize_max" using p by (simp_all add: isize_max_def)
  obtain w where w: "weak_start h k w" using fresh_ring [of k h] k by auto
  let ?m = "ring_mem (ring_sys w)"
  let ?m1 = "push_mem h k p ?m"
  have inv: "spsc_inv h k ?m []" using w by (simp add: weak_start_def spsc_start_def)
  have m1: "spsc_inv h k ?m1 [p]"
    using push_mem_inv [OF inv, of p] small p by (simp add: add.assoc)
  let ?w = "w\<lparr>ring_sys := (ring_sys w)\<lparr>producer := PCap p\<rparr>\<rparr>"
  have r0: "?reach w" using w by (rule reach_start)
  have r1: "?reach ?w"
    using w small by (intro reach_step [OF r0] weak_begin_push)
      (simp_all add: weak_start_def spsc_start_def)
  have "push h r (PyBytes p) ?m = (Inr True, ?m1)"
    using spsc_inv_D(1,3) [OF inv] p rel small by (intro push_run) (simp_all add: push_payload_bytes)
  then have "run_alone (prod_access h r) prod_finished (8 + length p) (PCap p) ?m = Some (Inr True, ?m1)"
    using small by (subst push_alone [of h "PyBytes p"]) (simp_all add: push_payload_bytes)
  then obtain t where t: "?reach t" "ring_mem (ring_sys t) = ?m1" "producer (ring_sys t) = PDone True"
    "consumer (ring_sys t) = CIdle"
    using reach_push_alone [OF rel safe r1, of "8 + length p" True ?m1] w
    by (auto simp: weak_start_def spsc_start_def)
  let ?t1 = "t\<lparr>ring_sys := (ring_sys t)\<lparr>producer := PIdle\<rparr>\<rparr>"
  have r2: "?reach ?t1"
    using t by (intro reach_step [OF t(1)] weak_end_push) simp
  have "?reach (?t1\<lparr>ring_sys := (ring_sys ?t1)\<lparr>consumer := CHead\<rparr>\<rparr>)"
    using t by (intro reach_step [OF r2] weak_begin_pop) simp
  then show ?thesis
    using t m1 by (intro exI [of _ "?t1\<lparr>ring_sys := (ring_sys ?t1)\<lparr>consumer := CHead\<rparr>\<rparr>"] conjI) simp_all
qed


text \<open>The first byte the consumer then reads, and the byte the producer overwrites once it has been read.\<close>

lemma reach_pop_next:
  assumes "\<not> overflow_checks h"
    and safe: "\<And>w. reach (weak_start h k) (weak_step ords h r) w \<Longrightarrow> \<not> ring_races w"
    and "reach (weak_start h k) (weak_step ords h r) w" "consumer (ring_sys w) = pc" "pc \<noteq> CIdle"
    "cons_finished pc = None" "cons_access h pc (ring_mem (ring_sys w)) = (Inr pc', ring_mem (ring_sys w))"
  shows "\<exists>t. reach (weak_start h k) (weak_step ords h r) t \<and> ring_mem (ring_sys t) = ring_mem (ring_sys w) \<and>
    consumer (ring_sys t) = pc'"
proof -
  obtain c where "seen_inv h k c w" using reach_inv_of_safe [OF assms(1) safe assms(3)] by blast
  then obtain t where "weak_step ords h r w t" "ring_mem (ring_sys t) = ring_mem (ring_sys w)"
    "consumer (ring_sys t) = pc'"
    using weak_cons_next [of h k c w pc' "ring_mem (ring_sys w)" ords r] safe [OF assms(3)] assms(4-) by auto
  then show ?thesis using reach_step [OF assms(3)] by blast
qed

lemma reach_push_next:
  assumes "\<not> overflow_checks h"
    and safe: "\<And>w. reach (weak_start h k) (weak_step ords h r) w \<Longrightarrow> \<not> ring_races w"
    and "reach (weak_start h k) (weak_step ords h r) w" "producer (ring_sys w) = pc" "pc \<noteq> PIdle"
    "prod_finished pc = None" "prod_access h r pc (ring_mem (ring_sys w)) = (Inr pc', ring_mem (ring_sys w))"
    "published pc pc' = []"
  shows "\<exists>t. reach (weak_start h k) (weak_step ords h r) t \<and> ring_mem (ring_sys t) = ring_mem (ring_sys w) \<and>
    producer (ring_sys t) = pc' \<and> sent (ring_sys t) = sent (ring_sys w)"
proof -
  obtain c where "seen_inv h k c w" using reach_inv_of_safe [OF assms(1) safe assms(3)] by blast
  then obtain t where "weak_step ords h r w t" "ring_mem (ring_sys t) = ring_mem (ring_sys w)"
    "producer (ring_sys t) = pc'" "sent (ring_sys t) = sent (ring_sys w)"
    using weak_prod_next [of h k c w r pc' "ring_mem (ring_sys w)" ords] safe [OF assms(3)] assms(4-) by auto
  then show ?thesis using reach_step [OF assms(3)] by blast
qed

lemma tail_unsynchronised_races:
  assumes rel: "\<not> overflow_checks h" and k: "2 \<le> k" "k \<le> 31"
    and ords: "\<not> (acquires (pop_load_tail ords) \<and> releases (push_store_tail ords))"
  shows "\<exists>w. reach (weak_start h k) (weak_step ords h r) w \<and> ring_races w"
proof (rule ccontr)
  let ?reach = "reach (weak_start h k) (weak_step ords h r)"
  assume "\<not> ?thesis"
  then have safe: "\<not> ring_races w" if "?reach w" for w using that by blast
  have "4 \<le> (2 :: nat) ^ k" using power_increasing [OF k(1), of "2 :: nat"] by simp
  then obtain p :: "u8 list" where p: "4 + length p = 2 ^ k"
    by (metis le_add_diff_inverse length_replicate)
  obtain w where w: "?reach w" "spsc_inv h k (ring_mem (ring_sys w)) [p]" "consumer (ring_sys w) = CHead"
    using reach_full [OF rel k(2) p safe] by blast
  let ?m = "ring_mem (ring_sys w)"
  note len = ring_layout_D(2) [OF spsc_inv_D(1) [OF w(2)]]
  have ne: "usize_at h 0 ?m \<noteq> usize_at h 8 ?m" using spsc_inv_empty_iff [OF w(2)] by simp
  obtain w1 where w1: "?reach w1" "ring_mem (ring_sys w1) = ?m" "consumer (ring_sys w1) = CTail (usize_at h 0 ?m)"
    using reach_pop_next [OF rel safe w(1,3)] len by (auto simp: sbind_load_head sreturn_def)
  obtain w2 where w2: "?reach w2" "ring_mem (ring_sys w2) = ?m" "consumer (ring_sys w2) = CCap (usize_at h 0 ?m)"
    using reach_pop_next [OF rel safe w1(1,3)] len w1(2) ne by (auto simp: sbind_load_tail sreturn_def)
  obtain w3 where w3: "?reach w3" "consumer (ring_sys w3) = CLen (usize_at h 0 ?m) (usize_at h 16 ?m) []"
    using reach_pop_next [OF rel safe w2(1,3)] len w2(2) by (auto simp: sbind_capacity sreturn_def)
  obtain c where inv: "seen_inv h k c w3" "touched_inv h k c w3" "unsynchronised_inv ords w3"
    using reach_inv_of_safe [OF rel safe w3(1)] by blast
  let ?S = "sent (ring_sys w3)"
  let ?b = "bytes_of h ?S (length (received (ring_sys w3)))"
  obtain x where x: "cons_byte (consumer (ring_sys w3)) = Some x" using w3(2) by simp
  then have b: "x = pos_byte c k ?b" "?b < bytes_of h ?S (seen_tail w3)"
    using cons_byte_pos [OF inv(1) x] w3(2) by simp_all
  have "?b < length (frames h ?S)"
    using b(2) bytes_of_mono [OF seen_inv_D(7) [OF inv(1)], of h ?S] by simp
  then have "0 < written w3 x" using touched_D(3) [OF inv(2), of ?b] b(1) by simp
  moreover have "cons_knows w3 = 0" using inv(3) ords by (simp add: unsynchronised_inv_def)
  ultimately have "ring_races w3" using x by (simp add: ring_races_def cons_races_def)
  then show False using safe [OF w3(1)] by simp
qed


lemma pos_byte_wrap: "2 ^ k \<le> a \<Longrightarrow> pos_byte c k (a - 2 ^ k) = pos_byte c k a"
  using mod_add_self2 [of "unat c + (a - 2 ^ k)" "2 ^ k"] by (simp add: pos_byte_def)

lemma head_unsynchronised_races:
  assumes rel: "\<not> overflow_checks h" and k: "2 \<le> k" "k \<le> 31"
    and ords: "\<not> (acquires (push_load_head ords) \<and> releases (pop_store_head ords))"
  shows "\<exists>w. reach (weak_start h k) (weak_step ords h r) w \<and> ring_races w"
proof (rule ccontr)
  let ?reach = "reach (weak_start h k) (weak_step ords h r)"
  assume "\<not> ?thesis"
  then have safe: "\<not> ring_races w" if "?reach w" for w using that by blast
  have "4 \<le> (2 :: nat) ^ k" using power_increasing [OF k(1), of "2 :: nat"] by simp
  then obtain p :: "u8 list" where p: "4 + length p = 2 ^ k"
    by (metis le_add_diff_inverse length_replicate)
  have "(2 :: nat) ^ k \<le> 2 ^ 31" using k by (intro power_increasing) auto
  then have small: "length p < 2 ^ 32" using p by simp
  obtain w where w: "?reach w" "spsc_inv h k (ring_mem (ring_sys w)) [p]" "producer (ring_sys w) = PIdle"
    "consumer (ring_sys w) = CHead"
    using reach_full [OF rel k(2) p safe] by blast
  let ?m = "ring_mem (ring_sys w)" and ?m1 = "pop_mem h k (ring_mem (ring_sys w))"
  note P = pop_mem_inv [OF w(2)]
  note len = ring_layout_D [OF spsc_inv_D(1) [OF P(3)]]
  have "pop h None ?m = (Inr (Some (PyBytes (popped h k ?m))), ?m1)"
    using spsc_inv_D(1) [OF w(2)] spsc_inv_empty_iff [OF w(2)] rel by (intro pop_run) simp_all
  then obtain b where "pop_from h CHead ?m = (Inr b, ?m1)"
    by (auto simp: pop_is_rest sbind_eq_Inr sreturn_def split: option.splits)
  then have "run_alone (cons_access h) cons_finished (2 ^ 32 + 8) CHead ?m = Some (Inr b, ?m1)"
    using pop_call.run_is_rest [of h CHead "2 ^ 32 + 8" ?m] by simp
  then obtain t where t: "?reach t" "ring_mem (ring_sys t) = ?m1" "producer (ring_sys t) = PIdle"
    "sent (ring_sys t) = sent (ring_sys w)"
    using reach_pop_alone [OF rel safe w(1)] w(3,4) by fastforce
  let ?t1 = "t\<lparr>ring_sys := (ring_sys t)\<lparr>producer := PCap p\<rparr>\<rparr>"
  have t1: "?reach ?t1" using t small by (intro reach_step [OF t(1)] weak_begin_push) simp_all
  have n: "4 + slice_len p = 2 ^ k"
    using arg_cong [OF p, of "of_nat :: nat \<Rightarrow> usize"] by (simp add: slice_len_def)
  have eq: "usize_at h 8 ?m1 = usize_at h 0 ?m1" using spsc_inv_empty_iff [OF P(3)] by simp
  obtain t2 where t2: "?reach t2" "ring_mem (ring_sys t2) = ?m1" "producer (ring_sys t2) = PHead p (2 ^ k)"
    "sent (ring_sys t2) = sent (ring_sys w)"
    using reach_push_next [OF rel safe t1, of "PCap p" "PHead p (2 ^ k)"] t(2,4) len(2,4) n rel
    by (auto simp: sbind_capacity sreturn_def)
  obtain t3 where t3: "?reach t3" "ring_mem (ring_sys t3) = ?m1"
    "producer (ring_sys t3) = PTail p (2 ^ k) (usize_at h 0 ?m1)"
    "sent (ring_sys t3) = sent (ring_sys w)"
    using reach_push_next [OF rel safe t2(1,3)] t2(2,4) len(2) by (auto simp: sbind_load_head sreturn_def)
  obtain t4 where t4: "?reach t4" "ring_mem (ring_sys t4) = ?m1"
    "producer (ring_sys t4) = PWrite p (2 ^ k) (usize_at h 8 ?m1) 0"
    "sent (ring_sys t4) = sent (ring_sys w)"
    using reach_push_next [OF rel safe t3(1,3)] t3(2,4) len(2) rel n eq
    by (auto simp: sbind_load_tail sreturn_def)
  let ?S = "sent (ring_sys w)"
  obtain c where inv: "seen_inv h k c t4" "touched_inv h k c t4" "unsynchronised_inv ords t4"
    using reach_inv_of_safe [OF rel safe t4(1)] by blast
  obtain c0 where "seen_inv h k c0 w" using reach_inv_of_safe [OF rel safe w(1)] by blast
  then obtain q where "?S = received (ring_sys w) @ q" "spsc_inv h k ?m q"
    using seen_inv_ring by metis
  then have full: "2 ^ k \<le> length (frames h ?S)"
    using spsc_inv_D(3) [OF w(2)] spsc_inv_D(3) [of h k ?m q] p by simp
  obtain q4 where q4: "?S = received (ring_sys t4) @ q4" "spsc_inv h k ?m1 q4"
    using seen_inv_ring [OF inv(1)] t4(2,4) by metis
  then have "q4 = []" using spsc_inv_empty_iff [OF q4(2)] eq by simp
  then have read: "bytes_of h ?S (length (received (ring_sys t4))) = length (frames h ?S)" using q4(1) by simp
  obtain x where x: "prod_byte (producer (ring_sys t4)) = Some x" using t4(3) by simp
  have "x = pos_byte c k (length (frames h ?S))"
    using prod_byte_pos(1) [OF inv(1) x] t4(3,4) by simp
  then have "x = pos_byte c k (length (frames h ?S) - 2 ^ k)"
    using pos_byte_wrap [OF full] by simp
  moreover have "length (frames h ?S) - 2 ^ k < length (frames h ?S)"
    using full zero_less_power [of "2 :: nat" k] by linarith
  ultimately have "0 < looked t4 x"
    using touched_D(4) [OF inv(2), of "length (frames h ?S) - 2 ^ k"] read t4(4) by (simp add: trans_less_add1)
  moreover have "prod_knows t4 = 0" using inv(3) ords by (simp add: unsynchronised_inv_def)
  ultimately have "ring_races t4" using x by (simp add: ring_races_def prod_races_def)
  then show False using safe [OF t4(1)] by simp
qed

section \<open>Properties\<close>

text \<open>
  C2: Under the memory model, where a load of the other side's position may return an old value and the
  data bytes are ordered only by release and acquire, the orderings in the source are enough: no
  reachable state is about to make a data race, and the messages received are at every moment
  the first ones sent, in order and unaltered (a build without overflow checks).
\<close>

theorem weak_memory_fifo:
  assumes "\<not> overflow_checks h" "reach (weak_start h k) (weak_step source_orderings h r) w"
  shows "\<not> ring_races w \<and>
    (\<exists>q. sent (ring_sys w) = received (ring_sys w) @ q \<and> spsc_inv h k (ring_mem (ring_sys w)) q)"
proof -
  have "synchronised source_orderings" by (simp add: synchronised_def source_orderings_def)
  then obtain c where "seen_inv h k c w" "clock_inv h k c w"
    using weak_system.reach_inv [OF assms(2)] assms(1) by blast
  then show ?thesis using no_race seen_inv_ring by metis
qed

lemma weak_memory_fifo_witness:
  "\<exists>(w :: weak_sys) p q. 4 + length p = 2 ^ 4 \<and> spsc_inv le_host 4 (ring_mem (ring_sys w)) [p] \<and>
     \<not> ring_races w \<and> sent (ring_sys w) = received (ring_sys w) @ q"
proof -
  have rel: "\<not> overflow_checks le_host" by simp
  let ?r = "\<lparr>map_size = 40\<rparr>" and ?p = "replicate 12 0 :: u8 list"
  note fifo = weak_memory_fifo [OF rel, where k = 4 and r = ?r]
  have p: "4 + length ?p = 2 ^ 4" by simp
  obtain w where w: "reach (weak_start le_host 4) (weak_step source_orderings le_host ?r) w"
    "spsc_inv le_host 4 (ring_mem (ring_sys w)) [?p]"
    using reach_full [OF rel _ p conjunct1 [OF fifo]] by auto
  from fifo [OF w(1)] obtain q where "\<not> ring_races w" "sent (ring_sys w) = received (ring_sys w) @ q" by blast
  with w(2) p show ?thesis by blast
qed

text \<open>
  C15: Exactly the orderings that release each position where it is stored and acquire it where the other
  side loads it are free of data races: weaken any of these four in push or pop and some execution
  races, whatever the other two are (on a ring of 2^k bytes with k from 2 to 31, which one message can
  fill, in a build without overflow checks).
\<close>

theorem orderings_needed:
  assumes "\<not> overflow_checks h" "2 \<le> k" "k \<le> 31"
  shows "(\<forall>w. reach (weak_start h k) (weak_step ords h r) w \<longrightarrow> \<not> ring_races w) \<longleftrightarrow>
    releases (push_store_tail ords) \<and> acquires (pop_load_tail ords) \<and>
    releases (pop_store_head ords) \<and> acquires (push_load_head ords)"
proof
  assume "\<forall>w. reach (weak_start h k) (weak_step ords h r) w \<longrightarrow> \<not> ring_races w"
  then show "releases (push_store_tail ords) \<and> acquires (pop_load_tail ords) \<and>
      releases (pop_store_head ords) \<and> acquires (push_load_head ords)"
    using tail_unsynchronised_races [OF assms] head_unsynchronised_races [OF assms] by blast
next
  assume "releases (push_store_tail ords) \<and> acquires (pop_load_tail ords) \<and>
    releases (pop_store_head ords) \<and> acquires (push_load_head ords)"
  then have "synchronised ords" by (simp add: synchronised_def)
  then show "\<forall>w. reach (weak_start h k) (weak_step ords h r) w \<longrightarrow> \<not> ring_races w"
    using weak_system.reach_inv assms(1) no_race by blast
qed

lemma orderings_needed_witness:
  "\<exists>w. reach (weak_start le_host 4)
      (weak_step (source_orderings\<lparr>push_store_tail := Relaxed\<rparr>) le_host \<lparr>map_size = 40\<rparr>) w \<and> ring_races w"
  using orderings_needed [of le_host 4 "source_orderings\<lparr>push_store_tail := Relaxed\<rparr>" "\<lparr>map_size = 40\<rparr>"]
  by (auto simp: source_orderings_def)


end
