(* ===== verification/RwLock.thy ===== *)
theory RwLock
  imports Memory
begin

text \<open>
  The reader-writer lock of \<open>src/rwlock.rs\<close>, an \<open>i32\<close> at offset 0 of the region. The spin loops are
  partial functions: \<open>None\<close> is a call that never returns. What other processes do meanwhile is a
  parameter \<open>env\<close>: \<open>env n\<close> is their effect on the region before the \<open>n\<close>-th atomic access of the call.
\<close>

definition rwlock_size :: nat where
  "rwlock_size = 4"

type_synonym env = "nat \<Rightarrow> memory \<Rightarrow> memory"

definition quiet :: env where
  "quiet n m = m"

text \<open>\<open>i32\<close> addition: \<open>cur + 1\<close> panics on overflow in a checked build and wraps otherwise.\<close>

definition i32_add :: "host \<Rightarrow> i32 \<Rightarrow> i32 \<Rightarrow> fault + i32" where
  "i32_add h a b =
     (if overflow_checks h \<and> \<not> (- (2 ^ 31) \<le> sint a + sint b \<and> sint a + sint b < 2 ^ 31)
      then Inl (Panic ''attempt to add with overflow'') else Inr (a + b))"

definition lock_init :: "host \<Rightarrow> memory \<Rightarrow> fault + memory" where
  "lock_init h = store_i32 h 0 0"

definition compare_exchange :: "host \<Rightarrow> i32 \<Rightarrow> i32 \<Rightarrow> memory \<Rightarrow> fault + (bool \<times> memory)" where
  "compare_exchange h current new m =
     bind (load_i32 h 0 m) (\<lambda>v.
       if v = current then bind (store_i32 h 0 new m) (\<lambda>m. Inr (True, m)) else Inr (False, m))"

partial_function (option) read_lock ::
    "host \<Rightarrow> env \<Rightarrow> nat \<Rightarrow> memory \<Rightarrow> ((fault + nat) \<times> memory) option" where
  "read_lock h env n m =
     (let m1 = env n m in
      case load_i32 h 0 m1 of
        Inl e \<Rightarrow> Some (Inl e, m1)
      | Inr cur \<Rightarrow>
          if 0 \<le> sint cur then
            (case i32_add h cur 1 of
               Inl e \<Rightarrow> Some (Inl e, m1)
             | Inr next \<Rightarrow>
                 (let m2 = env (Suc n) m1 in
                  case compare_exchange h cur next m2 of
                    Inl e \<Rightarrow> Some (Inl e, m2)
                  | Inr r \<Rightarrow>
                      if fst r then Some (Inr (n + 2), snd r) else read_lock h env (n + 2) m2))
          else read_lock h env (Suc n) m1)"

definition read_unlock :: "host \<Rightarrow> memory \<Rightarrow> fault + memory" where
  "read_unlock h m = bind (load_i32 h 0 m) (\<lambda>v. store_i32 h 0 (v - 1) m)"

partial_function (option) write_lock ::
    "host \<Rightarrow> env \<Rightarrow> nat \<Rightarrow> memory \<Rightarrow> ((fault + nat) \<times> memory) option" where
  "write_lock h env n m =
     (let m1 = env n m in
      case compare_exchange h 0 (- 1) m1 of
        Inl e \<Rightarrow> Some (Inl e, m1)
      | Inr r \<Rightarrow> if fst r then Some (Inr (Suc n), snd r) else write_lock h env (Suc n) m1)"

definition write_unlock :: "host \<Rightarrow> memory \<Rightarrow> fault + memory" where
  "write_unlock h = store_i32 h 0 0"

definition lock_reader_count :: "host \<Rightarrow> memory \<Rightarrow> fault + i32" where
  "lock_reader_count h m = bind (load_i32 h 0 m) (\<lambda>v. Inr (if 0 < sint v then v else 0))"

definition lock_is_write_locked :: "host \<Rightarrow> memory \<Rightarrow> fault + bool" where
  "lock_is_write_locked h m = bind (load_i32 h 0 m) (\<lambda>v. Inr (v = - 1))"

section \<open>The guards\<close>

text \<open>
  \<open>ReadGuard\<close> and \<open>WriteGuard\<close>: acquire, run the rest of the scope, release on every way out of it.
\<close>

definition with_read_guard ::
    "host \<Rightarrow> env \<Rightarrow> (memory \<Rightarrow> fault + 'a) \<Rightarrow> memory \<Rightarrow> ((fault + 'a) \<times> memory) option" where
  "with_read_guard h env body m =
     (case read_lock h env 0 m of
        None \<Rightarrow> None
      | Some (Inl e, m1) \<Rightarrow> Some (Inl e, m1)
      | Some (Inr n, m1) \<Rightarrow>
          (let r = body m1; m2 = env n m1 in
           case read_unlock h m2 of Inl e \<Rightarrow> Some (Inl e, m2) | Inr m3 \<Rightarrow> Some (r, m3)))"

definition with_write_guard ::
    "host \<Rightarrow> env \<Rightarrow> (memory \<Rightarrow> (fault + 'a) \<times> memory) \<Rightarrow> memory \<Rightarrow> ((fault + 'a) \<times> memory) option" where
  "with_write_guard h env body m =
     (case write_lock h env 0 m of
        None \<Rightarrow> None
      | Some (Inl e, m1) \<Rightarrow> Some (Inl e, m1)
      | Some (Inr n, m1) \<Rightarrow>
          (let (r, m2) = body m1; m3 = env n m2 in
           case write_unlock h m3 of Inl e \<Rightarrow> Some (Inl e, m3) | Inr m4 \<Rightarrow> Some (r, m4)))"

section \<open>Uncontended calls\<close>

abbreviation lock_val :: "host \<Rightarrow> memory \<Rightarrow> i32" where
  "lock_val h m \<equiv> i32_at h 0 m"

lemma cas_ok:
  "4 \<le> length m \<Longrightarrow> lock_val h m = cur \<Longrightarrow> compare_exchange h cur new m = Inr (True, i32_upd h 0 new m)"
  by (simp add: compare_exchange_def i32_f.load_val i32_f.store_upd)

lemma cas_fail:
  "4 \<le> length m \<Longrightarrow> lock_val h m \<noteq> cur \<Longrightarrow> compare_exchange h cur new m = Inr (False, m)"
  by (simp add: compare_exchange_def i32_f.load_val)

lemma sint_i32_bounds: "- (2 ^ 31) \<le> sint (v :: i32)" "sint (v :: i32) < 2 ^ 31"
  using sint_greater_eq [of v] sint_less [of v] by simp_all

lemma i32_add_no_overflow:
  "sint a + sint b < 2 ^ 31 \<Longrightarrow> - (2 ^ 31) \<le> sint a + sint b \<Longrightarrow> i32_add h a b = Inr (a + b)"
  by (simp add: i32_add_def)

lemma read_lock_free:
  assumes "4 \<le> length m" "0 \<le> sint (lock_val h m)" "sint (lock_val h m) < 2 ^ 31 - 1"
  shows "read_lock h quiet n m = Some (Inr (n + 2), i32_upd h 0 (lock_val h m + 1) m)"
proof -
  have "i32_add h (lock_val h m) 1 = Inr (lock_val h m + 1)"
    using assms by (intro i32_add_no_overflow) auto
  then show ?thesis
    using assms by (simp add: read_lock.simps [of h quiet n m] quiet_def i32_f.load_val cas_ok)
qed

lemma write_lock_free:
  assumes "4 \<le> length m" "lock_val h m = 0"
  shows "write_lock h quiet n m = Some (Inr (Suc n), i32_upd h 0 (- 1) m)"
  using assms by (simp add: write_lock.simps [of h quiet n m] quiet_def cas_ok)

section \<open>What a returning call has done, whatever the others do\<close>

text \<open>
  \<open>env_keeps\<close>: the others never change the size of the region. The induction rules follow the
  iterations of a call that returns: it enters, fails, finds the lock taken, or loses the race for it.
\<close>

definition env_keeps :: "env \<Rightarrow> bool" where
  "env_keeps env \<longleftrightarrow> (\<forall>n m. length (env n m) = length m)"

lemma env_keeps_quiet [simp]: "env_keeps quiet"
  by (simp add: env_keeps_def quiet_def)

lemma compare_exchange_eq:
  "4 \<le> length m \<Longrightarrow> compare_exchange h cur new m =
     (if lock_val h m = cur then Inr (True, i32_upd h 0 new m) else Inr (False, m))"
  by (simp add: cas_ok cas_fail)

lemma read_lock_induct:
  assumes ret: "read_lock h env n m = Some r" and env: "env_keeps env" and len: "4 \<le> length m"
    and enter: "\<And>n m w. 4 \<le> length m \<Longrightarrow> 0 \<le> sint (lock_val h (env n m)) \<Longrightarrow>
      i32_add h (lock_val h (env n m)) 1 = Inr w \<Longrightarrow>
      lock_val h (env (Suc n) (env n m)) = lock_val h (env n m) \<Longrightarrow>
      r = (Inr (n + 2), i32_upd h 0 w (env (Suc n) (env n m))) \<Longrightarrow> Q n m"
    and fail: "\<And>n m e. 4 \<le> length m \<Longrightarrow> 0 \<le> sint (lock_val h (env n m)) \<Longrightarrow>
      i32_add h (lock_val h (env n m)) 1 = Inl e \<Longrightarrow> r = (Inl e, env n m) \<Longrightarrow> Q n m"
    and taken: "\<And>n m. 4 \<le> length m \<Longrightarrow> sint (lock_val h (env n m)) < 0 \<Longrightarrow>
      Q (Suc n) (env n m) \<Longrightarrow> Q n m"
    and lost: "\<And>n m w. 4 \<le> length m \<Longrightarrow> 0 \<le> sint (lock_val h (env n m)) \<Longrightarrow>
      i32_add h (lock_val h (env n m)) 1 = Inr w \<Longrightarrow>
      lock_val h (env (Suc n) (env n m)) \<noteq> lock_val h (env n m) \<Longrightarrow>
      Q (n + 2) (env (Suc n) (env n m)) \<Longrightarrow> Q n m"
  shows "Q n m"
proof -
  let ?P = "\<lambda>h' env' n m r'. h' = h \<and> env' = env \<and> r' = r \<and> 4 \<le> length m \<longrightarrow> Q n m"
  have "?P h env n m r"
  proof (rule read_lock.raw_induct [where P = ?P, OF _ ret], intro impI, elim conjE)
    fix f h' env' n m r'
    assume IH: "\<And>h' env' n m r'. f h' env' n m = Some r' \<Longrightarrow> ?P h' env' n m r'"
      and fixed: "h' = h" "env' = env" "r' = r" and m: "4 \<le> length m"
      and eq: "(let m1 = env' n m in
        case load_i32 h' 0 m1 of
          Inl e \<Rightarrow> Some (Inl e, m1)
        | Inr cur \<Rightarrow>
            if 0 \<le> sint cur then
              (case i32_add h' cur 1 of
                 Inl e \<Rightarrow> Some (Inl e, m1)
               | Inr next \<Rightarrow>
                   (let m2 = env' (Suc n) m1 in
                    case compare_exchange h' cur next m2 of
                      Inl e \<Rightarrow> Some (Inl e, m2)
                    | Inr r \<Rightarrow>
                        if fst r then Some (Inr (n + 2), snd r) else f h' env' (n + 2) m2))
            else f h' env' (Suc n) m1) = Some r'"
    have l: "4 \<le> length (env n m)" "4 \<le> length (env (Suc n) (env n m))"
      using env m by (simp_all add: env_keeps_def)
    show "Q n m"
    proof (cases "sint (lock_val h (env n m)) < 0")
      case True
      then have "f h env (Suc n) (env n m) = Some r"
        using eq l fixed by (simp add: i32_f.load_val)
      then show ?thesis using taken [OF m True] IH l(1) by blast
    next
      case False
      show ?thesis
      proof (cases "i32_add h (lock_val h (env n m)) 1")
        case (Inl e)
        then show ?thesis
          using fail [OF m _ Inl] False eq l fixed by (simp add: i32_f.load_val)
      next
        case (Inr w)
        show ?thesis
        proof (cases "lock_val h (env (Suc n) (env n m)) = lock_val h (env n m)")
          case True
          then show ?thesis
            using enter [OF m _ Inr True] False Inr eq l fixed
            by (simp add: i32_f.load_val compare_exchange_eq)
        next
          case changed: False
          then have "f h env (n + 2) (env (Suc n) (env n m)) = Some r"
            using False Inr eq l fixed by (simp add: i32_f.load_val compare_exchange_eq)
          then show ?thesis using lost [OF m _ Inr changed] IH l(2) False by simp
        qed
      qed
    qed
  qed
  then show ?thesis using len by simp
qed

lemma write_lock_induct:
  assumes ret: "write_lock h env n m = Some r" and env: "env_keeps env" and len: "4 \<le> length m"
    and enter: "\<And>n m. 4 \<le> length m \<Longrightarrow> lock_val h (env n m) = 0 \<Longrightarrow>
      r = (Inr (Suc n), i32_upd h 0 (- 1) (env n m)) \<Longrightarrow> Q n m"
    and taken: "\<And>n m. 4 \<le> length m \<Longrightarrow> lock_val h (env n m) \<noteq> 0 \<Longrightarrow>
      Q (Suc n) (env n m) \<Longrightarrow> Q n m"
  shows "Q n m"
proof -
  let ?P = "\<lambda>h' env' n m r'. h' = h \<and> env' = env \<and> r' = r \<and> 4 \<le> length m \<longrightarrow> Q n m"
  have "?P h env n m r"
  proof (rule write_lock.raw_induct [where P = ?P, OF _ ret], intro impI, elim conjE)
    fix f h' env' n m r'
    assume IH: "\<And>h' env' n m r'. f h' env' n m = Some r' \<Longrightarrow> ?P h' env' n m r'"
      and fixed: "h' = h" "env' = env" "r' = r" and m: "4 \<le> length m"
      and eq: "(let m1 = env' n m in
        case compare_exchange h' 0 (- 1) m1 of
          Inl e \<Rightarrow> Some (Inl e, m1)
        | Inr r \<Rightarrow> if fst r then Some (Inr (Suc n), snd r) else f h' env' (Suc n) m1) = Some r'"
    have l: "4 \<le> length (env n m)"
      using env m by (simp add: env_keeps_def)
    show "Q n m"
    proof (cases "lock_val h (env n m) = 0")
      case True
      then show ?thesis
        using enter [OF m True] eq l fixed by (simp add: compare_exchange_eq)
    next
      case False
      then have "f h env (Suc n) (env n m) = Some r"
        using eq l fixed by (simp add: compare_exchange_eq)
      then show ?thesis using taken [OF m False] IH l by blast
    qed
  qed
  then show ?thesis using len by simp
qed

text \<open>One iteration of \<open>read_lock\<close>: it enters, or finds a writer inside.\<close>

lemma read_lock_enters:
  assumes "env_keeps env" "4 \<le> length m" "0 \<le> sint (lock_val h (env n m))"
    and "i32_add h (lock_val h (env n m)) 1 = Inr w" "lock_val h (env (Suc n) (env n m)) = lock_val h (env n m)"
  shows "read_lock h env n m = Some (Inr (n + 2), i32_upd h 0 w (env (Suc n) (env n m)))"
  using assms
  by (simp add: read_lock.simps [of h env n m] i32_f.load_val compare_exchange_eq env_keeps_def)

lemma read_lock_taken:
  assumes "env_keeps env" "4 \<le> length m" "sint (lock_val h (env n m)) < 0"
  shows "read_lock h env n m = read_lock h env (Suc n) (env n m)"
  using assms by (simp add: read_lock.simps [of h env n m] i32_f.load_val env_keeps_def)

text \<open>
  A call that returns has made exactly one change: it found the lock in a state that lets it in and
  swapped in the new one.
\<close>

lemma read_lock_effect:
  assumes "read_lock h env n m = Some (Inr n', m')" "env_keeps env" "4 \<le> length m"
  shows "\<exists>m0. length m0 = length m \<and> 0 \<le> sint (lock_val h m0) \<and>
    m' = i32_upd h 0 (lock_val h m0 + 1) m0"
proof (rule read_lock_induct [where Q = "\<lambda>_ m. \<exists>m0. length m0 = length m \<and>
    0 \<le> sint (lock_val h m0) \<and> m' = i32_upd h 0 (lock_val h m0 + 1) m0", OF assms])
  fix n m w
  assume "0 \<le> sint (lock_val h (env n m))" "i32_add h (lock_val h (env n m)) 1 = Inr w"
    "lock_val h (env (Suc n) (env n m)) = lock_val h (env n m)"
    "(Inr n', m') = (Inr (n + 2), i32_upd h 0 w (env (Suc n) (env n m)))"
  then show "\<exists>m0. length m0 = length m \<and> 0 \<le> sint (lock_val h m0) \<and>
      m' = i32_upd h 0 (lock_val h m0 + 1) m0"
    using assms(2)
    by (intro exI [of _ "env (Suc n) (env n m)"])
      (auto simp: env_keeps_def i32_add_def split: if_splits)
qed (use assms(2) in \<open>auto simp: env_keeps_def\<close>)

lemma write_lock_effect:
  assumes "write_lock h env n m = Some (Inr n', m')" "env_keeps env" "4 \<le> length m"
  shows "\<exists>m0. length m0 = length m \<and> lock_val h m0 = 0 \<and> m' = i32_upd h 0 (- 1) m0"
  by (rule write_lock_induct [where Q = "\<lambda>_ m. \<exists>m0. length m0 = length m \<and>
    lock_val h m0 = 0 \<and> m' = i32_upd h 0 (- 1) m0", OF assms])
    (use assms(2) in \<open>auto simp: env_keeps_def\<close>)

text \<open>If nobody ever releases it, a lock that is taken is waited for without end.\<close>

lemma read_lock_spins:
  assumes "4 \<le> length m" "sint (lock_val h m) < 0"
  shows "read_lock h quiet n m = None"
proof (rule ccontr)
  assume "read_lock h quiet n m \<noteq> None"
  then obtain r where r: "read_lock h quiet n m = Some r" by blast
  have "0 \<le> sint (lock_val h m)"
    by (rule read_lock_induct [where Q = "\<lambda>_ m. 0 \<le> sint (lock_val h m)",
        OF r env_keeps_quiet assms(1)]) (simp_all add: quiet_def)
  with assms(2) show False by simp
qed

lemma write_lock_spins:
  assumes "4 \<le> length m" "lock_val h m \<noteq> 0"
  shows "write_lock h quiet n m = None"
proof (rule ccontr)
  assume "write_lock h quiet n m \<noteq> None"
  then obtain r where r: "write_lock h quiet n m = Some r" by blast
  have "lock_val h m = 0"
    by (rule write_lock_induct [where Q = "\<lambda>_ m. lock_val h m = 0",
        OF r env_keeps_quiet assms(1)]) (simp_all add: quiet_def)
  with assms(2) show False by simp
qed

text \<open>
  Progress: once the others leave the lock alone in a state that lets the caller in, it enters.
\<close>

lemma write_lock_waits:
  assumes "env_keeps env" "4 \<le> length m" "\<And>m. 4 \<le> length m \<Longrightarrow> lock_val h (env k m) = 0"
    and "n \<le> k"
  shows "\<exists>n' m'. write_lock h env n m = Some (Inr n', m')"
  using assms(2,4)
proof (induction "k - n" arbitrary: n m)
  case 0
  then have "write_lock h env n m = Some (Inr (Suc n), i32_upd h 0 (- 1) (env n m))"
    using assms(1,3) by (simp add: write_lock.simps [of h env n m] compare_exchange_eq env_keeps_def)
  then show ?case by blast
next
  case (Suc d)
  have l: "4 \<le> length (env n m)" using assms(1) Suc.prems by (simp add: env_keeps_def)
  show ?case
  proof (cases "lock_val h (env n m) = 0")
    case True
    then show ?thesis
      using l by (simp add: write_lock.simps [of h env n m] compare_exchange_eq)
  next
    case False
    have "d = k - Suc n" "Suc n \<le> k" using Suc by simp_all
    then show ?thesis
      using Suc.hyps(1) [of "Suc n" "env n m"] l False
      by (simp add: write_lock.simps [of h env n m] compare_exchange_eq)
  qed
qed

section \<open>What the guards promise\<close>

lemma i32_upd_id: "4 \<le> length m \<Longrightarrow> lock_val h m = v \<Longrightarrow> i32_upd h 0 v m = m"
  using overwrite_window [of 0 4 m]
  by (auto simp: i32_upd_def i32_at_def to_from_ne_bytes)

lemma i32_upd_twice: "4 \<le> length m \<Longrightarrow> i32_upd h 0 v (i32_upd h 0 w m) = i32_upd h 0 v m"
  by (simp add: i32_upd_def)

lemma drop_i32_upd: "4 \<le> length m \<Longrightarrow> drop 4 (i32_upd h 0 v m) = drop 4 m"
  by (simp add: i32_upd_def drop_overwrite_after)

text \<open>Outside the lock word, the lock changes nothing.\<close>

lemma raw_slice_i32_upd [simp]:
  "4 \<le> off \<Longrightarrow> 4 \<le> length m \<Longrightarrow> raw_slice off n (i32_upd h 0 v m) = raw_slice off n m"
  by (simp add: raw_slice_def i32_f.upd_length i32_f.upd_frame)

lemma overwrite_i32_upd:
  "4 \<le> off \<Longrightarrow> off + length bs \<le> length m \<Longrightarrow>
   i32_upd h 0 v (overwrite off bs m) = overwrite off bs (i32_upd h 0 v m)"
  unfolding i32_upd_def by (rule overwrite_swap) simp_all

lemma with_read_guard_free:
  assumes "4 \<le> length m" "0 \<le> sint (lock_val h m)" "sint (lock_val h m) < 2 ^ 31 - 1"
  shows "with_read_guard h quiet body m = Some (body (i32_upd h 0 (lock_val h m + 1) m), m)"
proof -
  let ?m = "i32_upd h 0 (lock_val h m + 1) m"
  have "read_unlock h ?m = Inr (i32_upd h 0 (lock_val h m) ?m)"
    using assms(1)
    by (simp add: read_unlock_def i32_f.load_val i32_f.store_upd i32_f.val_upd i32_f.upd_length)
  then show ?thesis
    using assms(1)
    by (simp add: with_read_guard_def read_lock_free [OF assms] quiet_def i32_upd_twice i32_upd_id)
qed

lemma with_write_guard_free:
  assumes "4 \<le> length m" "lock_val h m = 0"
    and "body (i32_upd h 0 (- 1) m) = (r, m1)" "4 \<le> length m1"
  shows "with_write_guard h quiet body m = Some (r, i32_upd h 0 0 m1)"
  using assms
  by (simp add: with_write_guard_def write_lock_free quiet_def write_unlock_def i32_f.store_upd)

lemma read_lock_error:
  assumes "read_lock h env n m = Some (Inl e, m')" "env_keeps env" "4 \<le> length m"
  shows "e = Panic ''attempt to add with overflow'' \<and> overflow_checks h \<and> length m' = length m"
  by (rule read_lock_induct [where Q = "\<lambda>_ m. e = Panic ''attempt to add with overflow'' \<and>
    overflow_checks h \<and> length m' = length m", OF assms])
    (use assms(2) in \<open>auto simp: env_keeps_def i32_add_def split: if_splits\<close>)

lemma write_lock_no_error:
  assumes "env_keeps env" "4 \<le> length m"
  shows "write_lock h env n m \<noteq> Some (Inl e, m')"
proof
  assume ret: "write_lock h env n m = Some (Inl e, m')"
  have "False"
    by (rule write_lock_induct [where Q = "\<lambda>_ _. False", OF ret assms]) auto
  then show False .
qed

text \<open>
  Whatever the others do, a guarded call that returns ran its body exactly once, on a region where it
  had just taken the lock.
\<close>

lemma with_read_guard_effect:
  assumes ret: "with_read_guard h env body m = Some (r, m')" and env: "env_keeps env" "4 \<le> length m"
  shows "length m' = length m \<and>
    (r = Inl (Panic ''attempt to add with overflow'') \<and> overflow_checks h \<or>
     (\<exists>m0. length m0 = length m \<and> 0 \<le> sint (lock_val h m0) \<and>
       r = body (i32_upd h 0 (lock_val h m0 + 1) m0)))"
proof -
  consider e m1 where "read_lock h env 0 m = Some (Inl e, m1)"
    | n m1 where "read_lock h env 0 m = Some (Inr n, m1)"
    using ret by (auto simp: with_read_guard_def split: option.splits prod.splits sum.splits)
  then show ?thesis
  proof cases
    case (1 e m1)
    then show ?thesis
      using ret read_lock_error [OF 1 env] by (simp add: with_read_guard_def)
  next
    case (2 n m1)
    obtain m0 where m0: "length m0 = length m" "0 \<le> sint (lock_val h m0)"
      and m1: "m1 = i32_upd h 0 (lock_val h m0 + 1) m0"
      using read_lock_effect [OF 2 env] by blast
    have len: "length (env n m1) = length m"
      using m0(1) m1 env by (simp add: env_keeps_def i32_f.upd_length)
    then obtain v where unl: "read_unlock h (env n m1) = Inr (i32_upd h 0 v (env n m1))"
      using env(2) by (auto simp: read_unlock_def i32_f.load_val i32_f.store_upd)
    have "r = body m1" "m' = i32_upd h 0 v (env n m1)"
      using ret 2 unl by (simp_all add: with_read_guard_def)
    then show ?thesis using m0 m1 len env(2) by (auto simp: i32_f.upd_length)
  qed
qed

lemma with_write_guard_effect:
  assumes ret: "with_write_guard h env body m = Some (r, m')" and env: "env_keeps env" "4 \<le> length m"
    and keeps: "\<And>m. length (snd (body m)) = length m"
  shows "\<exists>m0 n. length m0 = length m \<and> lock_val h m0 = 0 \<and>
    r = fst (body (i32_upd h 0 (- 1) m0)) \<and>
    m' = i32_upd h 0 0 (env n (snd (body (i32_upd h 0 (- 1) m0))))"
proof -
  obtain n m1 where got: "write_lock h env 0 m = Some (Inr n, m1)"
    using ret write_lock_no_error [OF env]
    by (auto simp: with_write_guard_def split: option.splits prod.splits sum.splits)
  obtain m0 where m0: "length m0 = length m" "lock_val h m0 = 0"
    and m1: "m1 = i32_upd h 0 (- 1) m0"
    using write_lock_effect [OF got env] by blast
  have "length (env n (snd (body m1))) = length m"
    using m0(1) m1 env keeps [of m1] by (simp add: env_keeps_def i32_f.upd_length)
  then have "r = fst (body m1) \<and> m' = i32_upd h 0 0 (env n (snd (body m1)))"
    using ret got env(2)
    by (simp add: with_write_guard_def write_unlock_def i32_f.store_upd split: prod.splits)
  then show ?thesis using m0 unfolding m1 by blast
qed

end
