(* ===== verification/RwLockConc.thy ===== *)
theory RwLockConc
  imports RwLock Transition
begin

text \<open>
  The lock under concurrent use: any number of threads of any processes, each at a program point of
  \<open>read_lock\<close>, \<open>write_lock\<close> or the code between lock and unlock, interleaved at single atomic accesses
  of the lock word. \<open>spin\<close> runs one thread's accesses on the region and is shown to be the loops of
  \<open>RwLock\<close>.
\<close>

section \<open>One thread\<close>

text \<open>
  \<open>RLoad\<close>: before the load of \<open>read_lock\<close>; \<open>RCas cur\<close>: before its exchange; \<open>WCas\<close>: before the exchange
  of \<open>write_lock\<close>; \<open>Reading\<close>, \<open>Writing\<close>: inside a guard, the next access being the unlock.
\<close>

datatype pc = Idle | RLoad | RCas i32 | Reading | WCas | Writing

fun lock_access :: "host \<Rightarrow> pc \<Rightarrow> i32 \<Rightarrow> fault + (pc \<times> i32)" where
  "lock_access h Idle v = Inr (Idle, v)"
| "lock_access h RLoad v =
     (if 0 \<le> sint v then bind (i32_add h v 1) (\<lambda>_. Inr (RCas v, v)) else Inr (RLoad, v))"
| "lock_access h (RCas cur) v = (if v = cur then Inr (Reading, cur + 1) else Inr (RLoad, v))"
| "lock_access h Reading v = Inr (Idle, v - 1)"
| "lock_access h WCas v = (if v = 0 then Inr (Writing, - 1) else Inr (WCas, v))"
| "lock_access h Writing v = Inr (Idle, 0)"

fun holding :: "pc \<Rightarrow> bool" where
  "holding Reading = True"
| "holding Writing = True"
| "holding _ = False"

partial_function (option) spin ::
    "host \<Rightarrow> env \<Rightarrow> nat \<Rightarrow> pc \<Rightarrow> memory \<Rightarrow> ((fault + nat) \<times> memory) option" where
  "spin h env n p m =
     (let m1 = env n m in
      case load_i32 h 0 m1 of
        Inl e \<Rightarrow> Some (Inl e, m1)
      | Inr v \<Rightarrow>
          (case lock_access h p v of
             Inl e \<Rightarrow> Some (Inl e, m1)
           | Inr r \<Rightarrow>
               (case store_i32 h 0 (snd r) m1 of
                  Inl e \<Rightarrow> Some (Inl e, m1)
                | Inr m2 \<Rightarrow>
                    if holding (fst r) then Some (Inr (Suc n), m2) else spin h env (Suc n) (fst r) m2)))"

lemma spin_unfold:
  assumes "env_keeps env" "4 \<le> length m"
  shows "spin h env n p m =
    (case lock_access h p (lock_val h (env n m)) of
       Inl e \<Rightarrow> Some (Inl e, env n m)
     | Inr r \<Rightarrow> if holding (fst r) then Some (Inr (Suc n), i32_upd h 0 (snd r) (env n m))
                else spin h env (Suc n) (fst r) (i32_upd h 0 (snd r) (env n m)))"
proof -
  have "4 \<le> length (env n m)" using assms by (simp add: env_keeps_def)
  then show ?thesis
    by (simp add: spin.simps [of h env n p m] i32_f.load_val i32_f.store_upd split: sum.splits)
qed

lemma read_lock_spin_Some:
  assumes "read_lock h env n m = Some r" "env_keeps env" "4 \<le> length m"
  shows "spin h env n RLoad m = Some r"
proof (rule read_lock_induct [where Q = "\<lambda>n m. spin h env n RLoad m = Some r", OF assms])
  fix n m w
  let ?a = "env n m" and ?b = "env (Suc n) (env n m)"
  assume m: "4 \<le> length m" and v: "0 \<le> sint (lock_val h ?a)"
    and w: "i32_add h (lock_val h ?a) 1 = Inr w" and same: "lock_val h ?b = lock_val h ?a"
    and r: "r = (Inr (n + 2), i32_upd h 0 w ?b)"
  have l: "4 \<le> length ?a" using m assms(2) by (simp add: env_keeps_def)
  have "w = lock_val h ?a + 1" using w by (simp add: i32_add_def split: if_splits)
  then show "spin h env n RLoad m = Some r"
    using spin_unfold [OF assms(2) m, of h n RLoad] spin_unfold [OF assms(2) l, of h "Suc n"]
    by (simp add: v w i32_upd_id [OF l] same r)
next
  fix n m e
  assume "4 \<le> length m" "0 \<le> sint (lock_val h (env n m))"
    "i32_add h (lock_val h (env n m)) 1 = Inl e" "r = (Inl e, env n m)"
  then show "spin h env n RLoad m = Some r"
    using spin_unfold [OF assms(2)] by simp
next
  fix n m
  let ?a = "env n m"
  assume m: "4 \<le> length m" and v: "sint (lock_val h ?a) < 0"
    and IH: "spin h env (Suc n) RLoad ?a = Some r"
  have "4 \<le> length ?a" using m assms(2) by (simp add: env_keeps_def)
  then show "spin h env n RLoad m = Some r"
    using spin_unfold [OF assms(2) m, of h n RLoad] v IH by (simp add: i32_upd_id)
next
  fix n m w
  let ?a = "env n m" and ?b = "env (Suc n) (env n m)"
  assume m: "4 \<le> length m" and v: "0 \<le> sint (lock_val h ?a)"
    and w: "i32_add h (lock_val h ?a) 1 = Inr w" and lost: "lock_val h ?b \<noteq> lock_val h ?a"
    and IH: "spin h env (n + 2) RLoad ?b = Some r"
  have l: "4 \<le> length ?a" "4 \<le> length ?b" using m assms(2) by (simp_all add: env_keeps_def)
  then show "spin h env n RLoad m = Some r"
    using spin_unfold [OF assms(2) m, of h n RLoad] spin_unfold [OF assms(2) l(1), of h "Suc n"] IH
    by (simp add: v w lost i32_upd_id)
qed

lemma write_lock_spin_Some:
  assumes "write_lock h env n m = Some r" "env_keeps env" "4 \<le> length m"
  shows "spin h env n WCas m = Some r"
proof (rule write_lock_induct [where Q = "\<lambda>n m. spin h env n WCas m = Some r", OF assms])
  fix n m
  assume "4 \<le> length m" "lock_val h (env n m) = 0"
    "r = (Inr (Suc n), i32_upd h 0 (- 1) (env n m))"
  then show "spin h env n WCas m = Some r" using spin_unfold [OF assms(2)] by simp
next
  fix n m
  assume m: "4 \<le> length m" and v: "lock_val h (env n m) \<noteq> 0"
    and IH: "spin h env (Suc n) WCas (env n m) = Some r"
  have "4 \<le> length (env n m)" using m assms(2) by (simp add: env_keeps_def)
  then show "spin h env n WCas m = Some r"
    using spin_unfold [OF assms(2) m, of h n WCas] v IH by (simp add: i32_upd_id)
qed

text \<open>\<open>resume p\<close>: what the loops of \<open>RwLock\<close> still do from a program point.\<close>

fun resume :: "host \<Rightarrow> env \<Rightarrow> nat \<Rightarrow> pc \<Rightarrow> memory \<Rightarrow> ((fault + nat) \<times> memory) option" where
  "resume h env n RLoad m = read_lock h env n m"
| "resume h env n WCas m = write_lock h env n m"
| "resume h env n (RCas cur) m =
     (if lock_val h (env n m) = cur then Some (Inr (Suc n), i32_upd h 0 (cur + 1) (env n m))
      else read_lock h env (Suc n) (env n m))"
| "resume h env n p m = None"

fun waiting :: "pc \<Rightarrow> bool" where
  "waiting RLoad = True"
| "waiting WCas = True"
| "waiting (RCas _) = True"
| "waiting _ = False"

lemma resume_unfold:
  assumes "env_keeps env" "4 \<le> length m" "waiting p"
  shows "resume h env n p m =
    (case lock_access h p (lock_val h (env n m)) of
       Inl e \<Rightarrow> Some (Inl e, env n m)
     | Inr r \<Rightarrow> if holding (fst r) then Some (Inr (Suc n), i32_upd h 0 (snd r) (env n m))
                else resume h env (Suc n) (fst r) (i32_upd h 0 (snd r) (env n m)))"
proof -
  have l: "4 \<le> length (env n m)" "4 \<le> length (env (Suc n) (env n m))"
    using assms by (simp_all add: env_keeps_def)
  show ?thesis
  proof (cases p)
    case RLoad
    show ?thesis
    proof (cases "0 \<le> sint (lock_val h (env n m))")
      case True
      then show ?thesis using l RLoad
        by (cases "i32_add h (lock_val h (env n m)) 1")
          (auto simp: read_lock.simps [of h env n m] i32_f.load_val compare_exchange_eq i32_upd_id
            i32_add_def split: if_splits)
    next
      case False
      then show ?thesis using l RLoad
        by (simp add: read_lock.simps [of h env n m] i32_f.load_val i32_upd_id)
    qed
  next
    case (RCas cur)
    then show ?thesis using l by (simp add: i32_upd_id)
  next
    case WCas
    then show ?thesis using l
      by (simp add: write_lock.simps [of h env n m] compare_exchange_eq i32_upd_id)
  qed (use assms(3) in simp_all)
qed

lemma lock_access_waiting:
  "lock_access h p v = Inr r \<Longrightarrow> waiting p \<Longrightarrow> holding (fst r) \<or> waiting (fst r)"
  by (cases p) (auto simp: bind_eq_Inr split: if_splits)

lemma spin_resume_Some:
  assumes "spin h env n p m = Some r" "env_keeps env" "4 \<le> length m" "waiting p"
  shows "resume h env n p m = Some r"
proof -
  let ?P = "\<lambda>h env n p m r. env_keeps env \<and> 4 \<le> length m \<and> waiting p \<longrightarrow> resume h env n p m = Some r"
  have "?P h env n p m r"
  proof (rule spin.raw_induct [where P = ?P, OF _ assms(1)], intro impI, elim conjE)
    fix f h env n p m r
    assume IH: "\<And>h env n p m r. f h env n p m = Some r \<Longrightarrow> ?P h env n p m r"
      and ok: "env_keeps env" "4 \<le> length m" "waiting p"
      and eq: "(let m1 = env n m in
        case load_i32 h 0 m1 of
          Inl e \<Rightarrow> Some (Inl e, m1)
        | Inr v \<Rightarrow>
            (case lock_access h p v of
               Inl e \<Rightarrow> Some (Inl e, m1)
             | Inr r \<Rightarrow>
                 (case store_i32 h 0 (snd r) m1 of
                    Inl e \<Rightarrow> Some (Inl e, m1)
                  | Inr m2 \<Rightarrow>
                      if holding (fst r) then Some (Inr (Suc n), m2)
                      else f h env (Suc n) (fst r) m2))) = Some r"
    have l: "4 \<le> length (env n m)" using ok by (simp add: env_keeps_def)
    show "resume h env n p m = Some r"
    proof (cases "lock_access h p (lock_val h (env n m))")
      case (Inl e)
      then show ?thesis
        using eq l resume_unfold [OF ok] by (simp add: i32_f.load_val)
    next
      case (Inr a)
      have l2: "4 \<le> length (i32_upd h 0 (snd a) (env n m))" using l by (simp add: i32_f.upd_length)
      show ?thesis
      proof (cases "holding (fst a)")
        case True
        then show ?thesis
          using eq l resume_unfold [OF ok] Inr by (simp add: i32_f.load_val i32_f.store_upd)
      next
        case False
        then have "f h env (Suc n) (fst a) (i32_upd h 0 (snd a) (env n m)) = Some r"
          using eq l Inr by (simp add: i32_f.load_val i32_f.store_upd)
        moreover have "waiting (fst a)" using lock_access_waiting [OF Inr ok(3)] False by simp
        ultimately show ?thesis
          using IH ok(1) l2 resume_unfold [OF ok, of h n] Inr False by simp
      qed
    qed
  qed
  then show ?thesis using assms by simp
qed

lemma option_eq_by_Some:
  "(\<And>r. a = Some r \<Longrightarrow> b = Some r) \<Longrightarrow> (\<And>r. b = Some r \<Longrightarrow> a = Some r) \<Longrightarrow> a = b"
  by (cases a; cases b) auto

lemma read_lock_is_spin:
  assumes "env_keeps env" "4 \<le> length m"
  shows "read_lock h env n m = spin h env n RLoad m"
proof (rule option_eq_by_Some)
  fix r
  show "read_lock h env n m = Some r \<Longrightarrow> spin h env n RLoad m = Some r"
    by (rule read_lock_spin_Some [OF _ assms])
  show "spin h env n RLoad m = Some r \<Longrightarrow> read_lock h env n m = Some r"
    using spin_resume_Some [OF _ assms, of h n RLoad r] by simp
qed

lemma write_lock_is_spin:
  assumes "env_keeps env" "4 \<le> length m"
  shows "write_lock h env n m = spin h env n WCas m"
proof (rule option_eq_by_Some)
  fix r
  show "write_lock h env n m = Some r \<Longrightarrow> spin h env n WCas m = Some r"
    by (rule write_lock_spin_Some [OF _ assms])
  show "spin h env n WCas m = Some r \<Longrightarrow> write_lock h env n m = Some r"
    using spin_resume_Some [OF _ assms, of h n WCas r] by simp
qed

section \<open>Any number of threads\<close>

record lock_sys =
  lock_word :: i32
  pcs :: "pc list"

text \<open>
  A thread starts a locking call, or makes its next atomic access; an access that panics ends the call.
\<close>

inductive lock_step :: "host \<Rightarrow> lock_sys \<Rightarrow> lock_sys \<Rightarrow> bool" for h :: host where
  begin_read: "i < length (pcs s) \<Longrightarrow> pcs s ! i = Idle \<Longrightarrow>
    lock_step h s (s\<lparr>pcs := (pcs s)[i := RLoad]\<rparr>)"
| begin_write: "i < length (pcs s) \<Longrightarrow> pcs s ! i = Idle \<Longrightarrow>
    lock_step h s (s\<lparr>pcs := (pcs s)[i := WCas]\<rparr>)"
| access: "i < length (pcs s) \<Longrightarrow> pcs s ! i \<noteq> Idle \<Longrightarrow>
    lock_access h (pcs s ! i) (lock_word s) = Inr (p, v) \<Longrightarrow>
    lock_step h s (s\<lparr>lock_word := v, pcs := (pcs s)[i := p]\<rparr>)"
| panic: "i < length (pcs s) \<Longrightarrow> lock_access h (pcs s ! i) (lock_word s) = Inl e \<Longrightarrow>
    lock_step h s (s\<lparr>pcs := (pcs s)[i := Idle]\<rparr>)"

definition lock_start :: "nat \<Rightarrow> lock_sys \<Rightarrow> bool" where
  "lock_start n s \<longleftrightarrow> lock_word s = 0 \<and> pcs s = replicate n Idle"

abbreviation readers :: "lock_sys \<Rightarrow> nat" where
  "readers s \<equiv> count_list (pcs s) Reading"

abbreviation writers :: "lock_sys \<Rightarrow> nat" where
  "writers s \<equiv> count_list (pcs s) Writing"

lemma count_list_update:
  "i < length xs \<Longrightarrow>
   count_list (xs[i := y]) x + of_bool (xs ! i = x) = count_list xs x + of_bool (y = x)"
proof (induction xs arbitrary: i)
  case (Cons a xs)
  then show ?case by (cases i) auto
qed simp

lemma count_list_less_length: "i < length xs \<Longrightarrow> xs ! i \<noteq> x \<Longrightarrow> count_list xs x < length xs"
proof (induction xs arbitrary: i)
  case (Cons a xs)
  then show ?case
    by (cases i) (auto simp: less_Suc_eq_le count_le_length Suc_le_eq)
qed simp

text \<open>
  The lock word is the number of readers while nobody writes, and -1 while one thread writes and nobody
  reads; a value loaded for an exchange is not negative.
\<close>

definition lock_inv :: "nat \<Rightarrow> lock_sys \<Rightarrow> bool" where
  "lock_inv n s \<longleftrightarrow> length (pcs s) = n \<and> (\<forall>v. RCas v \<in> set (pcs s) \<longrightarrow> 0 \<le> sint v) \<and>
     (if writers s = 0 then sint (lock_word s) = int (readers s)
      else writers s = 1 \<and> readers s = 0 \<and> lock_word s = - 1)"

lemma lock_inv_start: "lock_start n s \<Longrightarrow> lock_inv n s"
  by (auto simp: lock_start_def lock_inv_def count_list_0_iff)

lemma lock_inv_writing:
  assumes "lock_inv n s" "i < length (pcs s)" "pcs s ! i = Writing"
  shows "writers s = 1" "readers s = 0" "lock_word s = - 1"
proof -
  have "Writing \<in> set (pcs s)" using assms(2,3) by (metis nth_mem)
  then have "writers s \<noteq> 0" by (simp add: count_list_0_iff)
  then show "writers s = 1" "readers s = 0" "lock_word s = - 1"
    using assms(1) by (simp_all add: lock_inv_def)
qed

lemma lock_inv_reading:
  assumes "lock_inv n s" "i < length (pcs s)" "pcs s ! i = Reading"
  shows "writers s = 0" "0 < readers s" "sint (lock_word s) = int (readers s)"
proof -
  have "Reading \<in> set (pcs s)" using assms(2,3) by (metis nth_mem)
  then have "readers s \<noteq> 0" by (simp add: count_list_0_iff)
  then show "writers s = 0" "0 < readers s" "sint (lock_word s) = int (readers s)"
    using assms(1) by (auto simp: lock_inv_def split: if_splits)
qed

lemma count_list_ge_two:
  assumes "i < length xs" "j < length xs" "i \<noteq> j" "xs ! i = x" "xs ! j = x"
  shows "2 \<le> count_list xs x"
proof -
  have "card {i, j} \<le> card {k. k < length xs \<and> xs ! k = x}"
    using assms by (intro card_mono) auto
  then show ?thesis
    using assms(3) by (simp add: count_list_eq_length_filter length_filter_conv_card eq_commute)
qed

lemma lock_inv_exclusive:
  assumes "lock_inv n s" "i < length (pcs s)" "j < length (pcs s)" "i \<noteq> j" "pcs s ! i = Writing"
  shows "\<not> holding (pcs s ! j)"
proof -
  note w = lock_inv_writing [OF assms(1,2,5)]
  have "pcs s ! j \<noteq> Writing"
    using count_list_ge_two [OF assms(2-5)] w(1) by auto
  moreover have "pcs s ! j \<noteq> Reading"
    using w(2) assms(3) by (metis count_list_0_iff nth_mem)
  ultimately show ?thesis by (cases "pcs s ! j") auto
qed

lemma sint_i32_add1:
  "0 \<le> sint (v :: i32) \<Longrightarrow> sint v < 2 ^ 31 - 1 \<Longrightarrow> sint (v + 1) = sint v + 1"
  by (simp add: sint_word_add signed_take_bit_int_eq_self)

lemma sint_i32_sub1:
  "0 \<le> sint (v :: i32) \<Longrightarrow> sint (v - 1) = sint v - 1"
  using sint_i32_bounds [of v] sint_word_add [of v "- 1"] by (simp add: signed_take_bit_int_eq_self)

lemma pcs_update:
  assumes "i < length (pcs s)"
  shows "count_list ((pcs s)[i := p]) x + of_bool (pcs s ! i = x) = count_list (pcs s) x + of_bool (p = x)"
    and "RCas v \<in> set ((pcs s)[i := p]) \<Longrightarrow> RCas v \<in> set (pcs s) \<or> p = RCas v"
  using count_list_update [OF assms] set_update_subset_insert [of "pcs s" i p] by auto

lemma lock_inv_move:
  assumes "lock_inv n s" "i < length (pcs s)" "\<not> holding (pcs s ! i)" "\<not> holding p"
    and p: "\<And>v. p = RCas v \<Longrightarrow> 0 \<le> sint v"
  shows "lock_inv n (s\<lparr>pcs := (pcs s)[i := p]\<rparr>)"
proof -
  have same: "count_list ((pcs s)[i := p]) x = count_list (pcs s) x" if "holding x" for x
  proof -
    have "pcs s ! i \<noteq> x" "p \<noteq> x" using assms(3,4) that by auto
    then show ?thesis using pcs_update(1) [OF assms(2), of p x] by simp
  qed
  have cas: "0 \<le> sint v" if "RCas v \<in> set ((pcs s)[i := p])" for v
    using pcs_update(2) [OF assms(2) that] assms(1) p by (auto simp: lock_inv_def)
  show ?thesis
    using assms(1) cas same [of Reading] same [of Writing] by (simp add: lock_inv_def split: if_splits)
qed

lemma lock_inv_access:
  assumes inv: "lock_inv n s" and n: "n < 2 ^ 31" and i: "i < length (pcs s)"
    and acc: "lock_access h (pcs s ! i) (lock_word s) = Inr (p, v)"
  shows "lock_inv n (s\<lparr>lock_word := v, pcs := (pcs s)[i := p]\<rparr>)"
proof -
  note R = pcs_update(1) [OF i, of p Reading] and W = pcs_update(1) [OF i, of p Writing]
  have len: "length (pcs s) = n" using inv by (simp add: lock_inv_def)
  have mem: "pcs s ! i \<in> set (pcs s)" using i by simp
  have cas: "0 \<le> sint w" if "RCas w \<in> set (pcs s)" for w
    using inv that by (simp add: lock_inv_def)
  have cas': "0 \<le> sint w" if "RCas w \<in> set ((pcs s)[i := p])" "\<And>u. p \<noteq> RCas u" for w
    using pcs_update(2) [OF i that(1)] that(2) cas by blast
  have rd: "readers s < n" if "pcs s ! i \<noteq> Reading"
    using count_list_less_length [OF i that] len by simp
  have move: ?thesis
    if "v = lock_word s" "\<not> holding (pcs s ! i)" "\<not> holding p" "\<And>w. p = RCas w \<Longrightarrow> 0 \<le> sint w"
    using lock_inv_move [OF inv i that(2-4)] that(1) by simp
  show ?thesis
  proof (cases "pcs s ! i")
    case Idle
    then show ?thesis using acc by (intro move) auto
  next
    case RLoad
    then show ?thesis using acc by (intro move) (auto simp: bind_eq_Inr split: if_splits)
  next
    case (RCas cur)
    show ?thesis
    proof (cases "lock_word s = cur")
      case True
      then have pv: "p = Reading" "v = lock_word s + 1" using acc RCas by auto
      have nn: "0 \<le> sint (lock_word s)" using cas mem RCas True by simp
      then have w: "writers s = 0" "sint (lock_word s) = int (readers s)"
        using inv by (auto simp: lock_inv_def split: if_splits)
      have v: "sint v = int (readers s) + 1"
        using sint_i32_add1 [OF nn] rd RCas n pv(2) w(2) by simp
      have "count_list ((pcs s)[i := p]) Reading = Suc (readers s)"
        "count_list ((pcs s)[i := p]) Writing = 0"
        using R W RCas pv(1) w(1) by simp_all
      then show ?thesis using cas' v len pv(1) by (simp add: lock_inv_def)
    next
      case False
      then show ?thesis using acc RCas by (intro move) auto
    qed
  next
    case Reading
    note r = lock_inv_reading [OF inv i Reading]
    have pv: "p = Idle" "v = lock_word s - 1" using acc Reading by auto
    have v: "sint v = int (readers s) - 1"
      using sint_i32_sub1 [of "lock_word s"] r pv(2) by simp
    have "count_list ((pcs s)[i := p]) Reading = readers s - 1"
      "count_list ((pcs s)[i := p]) Writing = 0"
      using R W Reading pv(1) r(1) by simp_all
    then show ?thesis using cas' v len pv(1) r(2) by (simp add: lock_inv_def)
  next
    case WCas
    show ?thesis
    proof (cases "lock_word s = 0")
      case True
      then have pv: "p = Writing" "v = - 1" using acc WCas by auto
      have "writers s = 0" "readers s = 0"
        using inv True by (auto simp: lock_inv_def split: if_splits)
      then have "count_list ((pcs s)[i := p]) Reading = 0"
        "count_list ((pcs s)[i := p]) Writing = 1"
        using R W WCas pv(1) by simp_all
      then show ?thesis using cas' len pv by (simp add: lock_inv_def)
    next
      case False
      then show ?thesis using acc WCas by (intro move) auto
    qed
  next
    case Writing
    note w = lock_inv_writing [OF inv i Writing]
    have pv: "p = Idle" "v = 0" using acc Writing by auto
    have "count_list ((pcs s)[i := p]) Reading = 0"
      "count_list ((pcs s)[i := p]) Writing = 0"
      using R W Writing pv(1) w by simp_all
    then show ?thesis using cas' len pv by (simp add: lock_inv_def)
  qed
qed

lemma lock_inv_step:
  assumes "lock_inv n s" "n < 2 ^ 31" "lock_step h s t"
  shows "lock_inv n t"
  using assms(3)
proof cases
  case (begin_read i)
  then show ?thesis using lock_inv_move [OF assms(1), of i RLoad] by simp
next
  case (begin_write i)
  then show ?thesis using lock_inv_move [OF assms(1), of i WCas] by simp
next
  case (access i p v)
  then show ?thesis using lock_inv_access [OF assms(1,2)] by simp
next
  case (panic i e)
  then have "\<not> holding (pcs s ! i)" by (cases "pcs s ! i") auto
  then show ?thesis using lock_inv_move [OF assms(1), of i Idle] panic by simp
qed

text \<open>The bound on the number of threads is part of the invariant the system keeps.\<close>

interpretation lock_system: invariant_system
  "lock_start n" "lock_step h" "\<lambda>s. n < 2 ^ 31 \<longrightarrow> lock_inv n s"
  for n h
  by unfold_locales (auto simp: lock_inv_start intro: lock_inv_step)

end
