(* ===== verification/LockProps.thy ===== *)
theory LockProps
  imports RwLockConc
begin

text \<open>
  The properties of the reader-writer lock: what a single call does, and what holds in every state that
  any number of threads reach by interleaving their atomic accesses.
\<close>

section \<open>Facts on program points\<close>

lemma reach_lock_inv: "reach (lock_start n) (lock_step h) s \<Longrightarrow> n < 2 ^ 31 \<Longrightarrow> lock_inv n s"
  using lock_system.reach_inv by blast

lemma writers_pos: "0 < writers s \<longleftrightarrow> (\<exists>p \<in> set (pcs s). p = Writing)"
  using count_list_0_iff [of "pcs s" Writing] by auto

lemma idle_lock:
  assumes "lock_inv n s" "\<forall>p \<in> set (pcs s). \<not> holding p"
  shows "lock_word s = 0"
proof -
  have "writers s = 0" "readers s = 0"
    using assms(2) by (auto simp: count_list_0_iff)
  then have "sint (lock_word s) = 0" using assms(1) by (simp add: lock_inv_def)
  then show ?thesis by (metis signed_0 signed_word_eqI)
qed

text \<open>A lock word of -1 that belongs to no writer: nobody enters any more.\<close>

definition wedged :: "lock_sys \<Rightarrow> bool" where
  "wedged s \<longleftrightarrow> lock_word s = - 1 \<and> (\<forall>p \<in> set (pcs s). \<not> holding p) \<and>
     (\<forall>v. RCas v \<in> set (pcs s) \<longrightarrow> 0 \<le> sint v)"

lemma wedged_update:
  assumes "wedged s" "\<not> holding p" "\<And>v. p = RCas v \<Longrightarrow> 0 \<le> sint v"
  shows "wedged (s\<lparr>pcs := (pcs s)[i := p]\<rparr>)"
  using assms set_update_subset_insert [of "pcs s" i p] by (auto simp: wedged_def)

lemma wedged_step:
  assumes "wedged s" "lock_step h s t"
  shows "wedged t"
  using assms(2)
proof cases
  case (begin_read i)
  then show ?thesis using wedged_update [OF assms(1), of RLoad i] by simp
next
  case (begin_write i)
  then show ?thesis using wedged_update [OF assms(1), of WCas i] by simp
next
  case (access i p v)
  have w: "lock_word s = - 1" and mem: "pcs s ! i \<in> set (pcs s)"
    using assms(1) access by (simp_all add: wedged_def)
  have "\<not> holding p \<and> v = - 1 \<and> (\<forall>u. p = RCas u \<longrightarrow> 0 \<le> sint u)"
  proof (cases "pcs s ! i")
    case (RCas c)
    then have "c \<noteq> - 1" using assms(1) mem by (auto simp: wedged_def)
    then show ?thesis using access w RCas by auto
  next
    case Reading
    then show ?thesis using assms(1) mem by (auto simp: wedged_def)
  next
    case Writing
    then show ?thesis using assms(1) mem by (auto simp: wedged_def)
  qed (use access w in auto)
  then show ?thesis
    using wedged_update [OF assms(1), of p i] access w by (simp add: wedged_def)
next
  case (panic i e)
  then show ?thesis using wedged_update [OF assms(1), of Idle i] by simp
qed

interpretation wedged_system: invariant_system
  "(=) t" "lock_step h" "\<lambda>u. wedged t \<longrightarrow> wedged u"
  for t h
  by unfold_locales (auto intro: wedged_step)

text \<open>
  Setting the lock word to 0 while one thread is inside a read guard: its unlock leaves -1, for good.
\<close>

lemma init_in_use_wedges:
  assumes "lock_word s = 0" "i < length (pcs s)" "pcs s ! i = Reading"
    and "\<forall>j < length (pcs s). j \<noteq> i \<longrightarrow> \<not> holding (pcs s ! j)"
    and "\<forall>v. RCas v \<in> set (pcs s) \<longrightarrow> 0 \<le> sint v"
  shows "\<exists>t. lock_step h s t \<and> pcs t ! i = Idle \<and>
    (\<forall>u. reach ((=) t) (lock_step h) u \<longrightarrow> (\<forall>p \<in> set (pcs u). \<not> holding p))"
proof (intro exI conjI allI impI)
  let ?t = "s\<lparr>lock_word := - 1, pcs := (pcs s)[i := Idle]\<rparr>"
  show "lock_step h s ?t"
    using access [OF assms(2), of h Idle "- 1"] assms(1,3) by simp
  show "pcs ?t ! i = Idle" using assms(2) by simp
  have "\<not> holding ((pcs s)[i := Idle] ! j)" if "j < length (pcs s)" for j
    using assms(4) that by (cases "j = i") auto
  then have w: "wedged ?t"
    using assms(5) set_update_subset_insert [of "pcs s" i Idle]
    by (auto simp: wedged_def all_set_conv_all_nth)
  fix u
  assume "reach ((=) ?t) (lock_step h) u"
  then have "wedged u" using wedged_system.reach_inv w by blast
  then show "\<forall>p \<in> set (pcs u). \<not> holding p" by (simp add: wedged_def)
qed

section \<open>Runs used as examples\<close>

lemma reach_writer: "reach (lock_start 2) (lock_step le_host) \<lparr>lock_word = - 1, pcs = [Writing, Idle]\<rparr>"
proof -
  have "reach (lock_start 2) (lock_step le_host) \<lparr>lock_word = 0, pcs = [Idle, Idle]\<rparr>"
    by (rule reach_start) (simp add: lock_start_def numeral_2_eq_2)
  then have "reach (lock_start 2) (lock_step le_host) \<lparr>lock_word = 0, pcs = [WCas, Idle]\<rparr>"
    using begin_write [of 0 "\<lparr>lock_word = 0, pcs = [Idle, Idle]\<rparr>" le_host] by (auto intro: reach_step)
  then show ?thesis
    using access [of 0 "\<lparr>lock_word = 0, pcs = [WCas, Idle]\<rparr>" le_host Writing "- 1"]
    by (auto intro: reach_step)
qed

lemma reach_waiting: "reach (lock_start 2) (lock_step le_host) \<lparr>lock_word = 0, pcs = [Idle, WCas]\<rparr>"
proof -
  have "reach (lock_start 2) (lock_step le_host) \<lparr>lock_word = 0, pcs = [Idle, Idle]\<rparr>"
    by (rule reach_start) (simp add: lock_start_def numeral_2_eq_2)
  then show ?thesis
    using begin_write [of 1 "\<lparr>lock_word = 0, pcs = [Idle, Idle]\<rparr>" le_host] by (auto intro: reach_step)
qed

lemma reach_reader: "reach (lock_start 2) (lock_step le_host) \<lparr>lock_word = 1, pcs = [Reading, WCas]\<rparr>"
proof -
  have "reach (lock_start 2) (lock_step le_host) \<lparr>lock_word = 0, pcs = [RLoad, WCas]\<rparr>"
    using reach_waiting begin_read [of 0 "\<lparr>lock_word = 0, pcs = [Idle, WCas]\<rparr>" le_host] by (auto intro: reach_step)
  then have "reach (lock_start 2) (lock_step le_host) \<lparr>lock_word = 0, pcs = [RCas 0, WCas]\<rparr>"
    using access [of 0 "\<lparr>lock_word = 0, pcs = [RLoad, WCas]\<rparr>" le_host "RCas 0" 0]
    by (auto intro: reach_step simp: i32_add_def)
  then show ?thesis
    using access [of 0 "\<lparr>lock_word = 0, pcs = [RCas 0, WCas]\<rparr>" le_host Reading 1]
    by (auto intro: reach_step)
qed

section \<open>Properties\<close>

text \<open>
  C4: Mutual exclusion: in every reachable state of fewer than 2^31 threads, while one thread is
  inside a write guard no other thread is inside a read or a write guard.
\<close>

theorem lock_mutual_exclusion:
  assumes "reach (lock_start n) (lock_step h) s" "n < 2 ^ 31"
    and "i < length (pcs s)" "j < length (pcs s)" "i \<noteq> j" "pcs s ! i = Writing"
  shows "\<not> holding (pcs s ! j)"
  by (rule lock_inv_exclusive [OF reach_lock_inv [OF assms(1,2)] assms(3-6)])

theorem lock_mutual_exclusion_witness:
  "\<not> holding (pcs \<lparr>lock_word = - 1, pcs = [Writing, Idle]\<rparr> ! 1)"
  by (rule lock_mutual_exclusion [OF reach_writer, of 0]) simp_all

text \<open>
  C25: The lock word always tells who is inside: in a reachable state of the interleaved threads, a
  view whose lock word it is reports exactly the number of threads inside a read guard as
  reader_count, and reports is_write_locked exactly when some thread is inside a write guard.
\<close>

theorem lock_queries_exact:
  assumes "reach (lock_start n) (lock_step h) s" "n < 2 ^ 31"
    and "4 \<le> length m" "lock_val h m = lock_word s"
  shows "(\<exists>c. lock_reader_count h m = Inr c \<and> sint c = int (readers s)) \<and>
    lock_is_write_locked h m = Inr (Writing \<in> set (pcs s))"
proof -
  have inv: "lock_inv n s" by (rule reach_lock_inv [OF assms(1,2)])
  have "\<exists>c. lock_reader_count h m = Inr c \<and> sint c = int (readers s)"
    using inv assms(3,4)
    by (auto simp: lock_reader_count_def i32_f.load_val lock_inv_def split: if_splits)
  moreover have "lock_word s = - 1 \<longleftrightarrow> 0 < writers s"
    using inv by (auto simp: lock_inv_def split: if_splits)
  then have "lock_is_write_locked h m = Inr (Writing \<in> set (pcs s))"
    using assms(3,4) by (simp add: lock_is_write_locked_def i32_f.load_val writers_pos)
  ultimately show ?thesis by blast
qed

theorem lock_queries_exact_witness:
  "(\<exists>c. lock_reader_count le_host [1, 0, 0, 0] = Inr c \<and> sint c = 1) \<and>
    lock_is_write_locked le_host [1, 0, 0, 0] = Inr False"
  using lock_queries_exact [OF reach_reader, of "[1, 0, 0, 0]"]
  by (simp add: i32_at_def window_def from_ne_bytes_def)

text \<open>
  Nobody waits in vain once the lock is given up: in a reachable state of fewer than 2^31 - 1
  threads where no thread is inside a guard, a thread waiting in write_lock enters with its next
  atomic access, and one waiting in read_lock with its next two.
\<close>

theorem lock_progress:
  assumes "reach (lock_start n) (lock_step h) s" "n < 2 ^ 31 - 1"
    and "\<forall>p \<in> set (pcs s). \<not> holding p" "i < length (pcs s)"
  shows "(pcs s ! i = WCas \<longrightarrow>
      lock_step h s (s\<lparr>lock_word := - 1, pcs := (pcs s)[i := Writing]\<rparr>)) \<and>
    (pcs s ! i = RLoad \<longrightarrow>
      lock_step h s (s\<lparr>pcs := (pcs s)[i := RCas 0]\<rparr>) \<and>
      lock_step h (s\<lparr>pcs := (pcs s)[i := RCas 0]\<rparr>) (s\<lparr>lock_word := 1, pcs := (pcs s)[i := Reading]\<rparr>))"
proof -
  have zero: "lock_word s = 0"
    by (rule idle_lock [OF reach_lock_inv [OF assms(1)] assms(3)]) (use assms(2) in simp)
  show ?thesis
  proof (intro conjI impI)
    assume "pcs s ! i = WCas"
    then show "lock_step h s (s\<lparr>lock_word := - 1, pcs := (pcs s)[i := Writing]\<rparr>)"
      using access [OF assms(4), of h Writing "- 1"] zero by simp
  next
    assume r: "pcs s ! i = RLoad"
    then have "lock_access h (pcs s ! i) (lock_word s) = Inr (RCas 0, 0)"
      by (simp add: zero i32_add_def)
    then show "lock_step h s (s\<lparr>pcs := (pcs s)[i := RCas 0]\<rparr>)"
      using access [OF assms(4), of h "RCas 0" 0] r zero by (cases s) simp
    show "lock_step h (s\<lparr>pcs := (pcs s)[i := RCas 0]\<rparr>)
        (s\<lparr>lock_word := 1, pcs := (pcs s)[i := Reading]\<rparr>)"
      using access [of i "s\<lparr>pcs := (pcs s)[i := RCas 0]\<rparr>" h Reading 1] assms(4) zero by simp
  qed
qed

theorem lock_progress_witness:
  "lock_step le_host \<lparr>lock_word = 0, pcs = [Idle, WCas]\<rparr> \<lparr>lock_word = - 1, pcs = [Idle, Writing]\<rparr>"
  using lock_progress [OF reach_waiting, of 1] by simp

text \<open>
  No locking call ever panics: in a reachable state of fewer than 2^31 threads every atomic
  access goes through, because the reader count an access is about to raise is below the largest i32
  (also in builds that check the addition).
\<close>

theorem lock_never_panics:
  assumes "reach (lock_start n) (lock_step h) s" "n < 2 ^ 31" "i < length (pcs s)"
  shows "\<exists>p v. lock_access h (pcs s ! i) (lock_word s) = Inr (p, v)"
proof (cases "pcs s ! i = RLoad \<and> 0 \<le> sint (lock_word s)")
  case True
  have inv: "lock_inv n s" by (rule reach_lock_inv [OF assms(1,2)])
  then have "sint (lock_word s) = int (readers s)"
    using True by (auto simp: lock_inv_def split: if_splits)
  moreover have "readers s < n"
    using count_list_less_length [OF assms(3)] True inv by (simp add: lock_inv_def)
  ultimately have "i32_add h (lock_word s) 1 = Inr (lock_word s + 1)"
    using assms(2) by (intro i32_add_no_overflow) auto
  then show ?thesis using True by simp
next
  case False
  then show ?thesis by (cases "pcs s ! i") auto
qed

theorem lock_never_panics_witness:
  "\<exists>p v. lock_access le_host WCas 1 = Inr (p, v)"
  using lock_never_panics [OF reach_reader, of 1] by simp

text \<open>
  C31: The loops of read_lock and write_lock, whatever other processes do to the lock word between
  their atomic accesses, are exactly the accesses of the interleaved threads repeated until the guard
  is entered.
\<close>

theorem lock_calls_are_threads:
  assumes "env_keeps env" "4 \<le> length m"
  shows "read_lock h env n m = spin h env n RLoad m \<and> write_lock h env n m = spin h env n WCas m"
  using read_lock_is_spin [OF assms] write_lock_is_spin [OF assms] by blast

theorem lock_calls_are_threads_witness:
  "read_lock le_host quiet 0 [0, 0, 0, 0] = spin le_host quiet 0 RLoad [0, 0, 0, 0]"
  using lock_calls_are_threads [of quiet "[0, 0, 0, 0]"] by simp

text \<open>
  A locking call that returns has made one change to the region: it found a lock that lets it in
  (a non-negative count for a reader, exactly 0 for a writer) and swapped in the next value (one more
  reader, or -1), whatever the other processes did before.
\<close>

theorem lock_acquire_effect:
  assumes "env_keeps env" "4 \<le> length m"
  shows "(read_lock h env n m = Some (Inr k, m') \<longrightarrow>
      (\<exists>m0. length m0 = length m \<and> 0 \<le> sint (lock_val h m0) \<and> m' = i32_upd h 0 (lock_val h m0 + 1) m0)) \<and>
    (write_lock h env n m = Some (Inr k, m') \<longrightarrow>
      (\<exists>m0. length m0 = length m \<and> lock_val h m0 = 0 \<and> m' = i32_upd h 0 (- 1) m0))"
  using read_lock_effect [OF _ assms] write_lock_effect [OF _ assms] by blast

theorem lock_acquire_effect_witness:
  "\<exists>m0. length m0 = length [0, 0, 0, 0 :: u8] \<and> lock_val le_host m0 = 0 \<and> i32_upd le_host 0 (- 1) [0, 0, 0, 0] = i32_upd le_host 0 (- 1) m0"
proof -
  have m: "4 \<le> length [0, 0, 0, 0 :: u8]" by simp
  have "write_lock le_host quiet 0 [0, 0, 0, 0] = Some (Inr 1, i32_upd le_host 0 (- 1) [0, 0, 0, 0])"
    using write_lock_free [OF m, of le_host 0] by (simp add: i32_at_def window_def from_ne_bytes_def)
  then show ?thesis
    using lock_acquire_effect [OF env_keeps_quiet m, of le_host 0 1 "i32_upd le_host 0 (- 1) [0, 0, 0, 0]"]
    by simp
qed

text \<open>
  C32: A call on a lock that nobody else touches returns if and only if the lock lets it in:
  read_lock when no writer holds it (and the count can still be raised), write_lock when it is free;
  otherwise it spins for ever.
\<close>

theorem lock_returns_iff_free:
  assumes "4 \<le> length m" "sint (lock_val h m) < 2 ^ 31 - 1"
  shows "(read_lock h quiet n m \<noteq> None \<longleftrightarrow> 0 \<le> sint (lock_val h m)) \<and>
    (write_lock h quiet n m \<noteq> None \<longleftrightarrow> lock_val h m = 0)"
proof -
  have "read_lock h quiet n m \<noteq> None \<longleftrightarrow> 0 \<le> sint (lock_val h m)"
    using read_lock_free [OF assms(1) _ assms(2)] read_lock_spins [OF assms(1)]
    by (cases "0 \<le> sint (lock_val h m)") auto
  moreover have "write_lock h quiet n m \<noteq> None \<longleftrightarrow> lock_val h m = 0"
    using write_lock_free [OF assms(1)] write_lock_spins [OF assms(1)]
    by (cases "lock_val h m = 0") auto
  ultimately show ?thesis by blast
qed

theorem lock_returns_iff_free_witness:
  "\<not> write_lock le_host quiet 0 [1, 0, 0, 0] \<noteq> None \<and> read_lock le_host quiet 0 [1, 0, 0, 0] \<noteq> None"
  using lock_returns_iff_free [of "[1, 0, 0, 0]" le_host 0]
  by (simp add: i32_at_def window_def from_ne_bytes_def)

end
