(* ===== verification/LockLive.thy ===== *)
theory LockLive
  imports LockProps
begin

text \<open>
  Liveness of the reader-writer lock: the threads together always get on (the lock is lock-free), but one
  of them need not (a writer can starve among readers).
\<close>

section \<open>Steps in which nobody enters\<close>

text \<open>How many more steps a thread can make at a free lock before it enters a guard.\<close>

fun steps_left :: "pc \<Rightarrow> nat" where
  "steps_left Idle = 2"
| "steps_left (RCas v) = (if v = 0 then 0 else 2)"
| "steps_left RLoad = 1"
| "steps_left _ = 0"

definition all_left :: "lock_sys \<Rightarrow> nat" where
  "all_left s = sum_list (map steps_left (pcs s))"

lemma all_left_bound: "all_left s \<le> 2 * length (pcs s)"
proof -
  have two: "steps_left p \<le> 2" for p by (cases p) auto
  have "sum_list (map steps_left ps) \<le> 2 * length ps" for ps
  proof (induction ps)
    case (Cons p ps)
    then show ?case using two [of p] by simp
  qed simp
  then show ?thesis by (simp add: all_left_def)
qed

lemma all_left_move:
  assumes "i < length (pcs s)" "pcs t = (pcs s)[i := p]"
  shows "all_left t + steps_left (pcs s ! i) = all_left s + steps_left p"
proof -
  have "steps_left (pcs s ! i) \<le> all_left s"
    unfolding all_left_def using assms(1) by (intro member_le_sum_list) simp_all
  then show ?thesis
    using assms by (simp add: all_left_def map_update sum_list_update)
qed

lemma step_at_free_lock:
  assumes step: "lock_step h s t" and free: "lock_word s = 0"
    and out: "\<forall>p \<in> set (pcs s). \<not> holding p" "\<forall>p \<in> set (pcs t). \<not> holding p"
  shows "all_left t < all_left s"
  using step
proof cases
  case (begin_read i)
  then show ?thesis using all_left_move [of i s t RLoad] by simp
next
  case (begin_write i)
  then show ?thesis using all_left_move [of i s t WCas] by simp
next
  case (access i p v)
  have "\<not> holding (pcs s ! i)" "\<not> holding p"
    using out access(1,2) set_update_memI [OF access(2), of p] by auto
  then have "steps_left p < steps_left (pcs s ! i)"
    using access(3,4) free by (cases "pcs s ! i") (auto simp: i32_add_def split: if_splits)
  then show ?thesis using all_left_move [of i s t p] access(1,2) by simp
next
  case (panic i e)
  then show ?thesis using free by (cases "pcs s ! i") (auto simp: i32_add_def split: if_splits)
qed

text \<open>
  C29: The lock is lock-free. From a reachable state of n < 2^31 threads, whatever calls the threads start
  and however their atomic accesses interleave, at most 2n + 1 steps of all of them together go by
  before some thread is inside a guard.
\<close>

theorem somebody_enters:
  assumes "reach (lock_start n) (lock_step h) (r 0)" "n < 2 ^ 31"
    and "\<forall>k \<le> 2 * n. lock_step h (r k) (r (Suc k))"
  shows "\<exists>k \<le> Suc (2 * n). \<exists>p \<in> set (pcs (r k)). holding p"
proof (rule ccontr)
  assume "\<not> ?thesis"
  then have out: "\<forall>p \<in> set (pcs (r k)). \<not> holding p" if "k \<le> Suc (2 * n)" for k using that by blast
  have R: "reach (lock_start n) (lock_step h) (r k)" if "k \<le> Suc (2 * n)" for k
    using that assms(1,3) by (induction k) (auto intro: reach_step)
  have left: "all_left (r k) + k \<le> all_left (r 0)" if "k \<le> Suc (2 * n)" for k
    using that
  proof (induction k)
    case (Suc k)
    have "lock_word (r k) = 0"
      using idle_lock [OF reach_lock_inv [OF R assms(2)] out, of k] Suc.prems by simp
    then have "all_left (r (Suc k)) < all_left (r k)"
      using step_at_free_lock [of h "r k" "r (Suc k)"] assms(3) out [of k] out [of "Suc k"] Suc.prems by simp
    then show ?case using Suc by simp
  qed simp
  have "length (pcs (r 0)) = n" using reach_lock_inv [OF assms(1,2)] by (simp add: lock_inv_def)
  then show False using left [of "Suc (2 * n)"] all_left_bound [of "r 0"] by simp
qed

theorem somebody_enters_witness:
  "\<exists>r :: nat \<Rightarrow> lock_sys. (\<forall>k \<le> 2. lock_step le_host (r k) (r (Suc k))) \<and> pcs (r 0) = [Idle] \<and>
     (\<exists>k \<le> 3. \<exists>p \<in> set (pcs (r k)). holding p)"
proof -
  let ?r = "\<lambda>k. [\<lparr>lock_word = 0, pcs = [Idle]\<rparr>, \<lparr>lock_word = 0, pcs = [RLoad]\<rparr>,
    \<lparr>lock_word = 0, pcs = [RCas 0]\<rparr>, \<lparr>lock_word = 1, pcs = [Reading]\<rparr>] ! k"
  have "lock_step le_host (?r 0) (?r 1)" using begin_read [of 0 "?r 0" le_host] by simp
  moreover have "lock_step le_host (?r 1) (?r 2)"
    using access [of 0 "?r 1" le_host "RCas 0" 0] by (simp add: i32_add_def)
  moreover have "lock_step le_host (?r 2) (?r 3)"
    using access [of 0 "?r 2" le_host Reading 1] by (simp add: numeral_3_eq_3)
  ultimately have steps: "\<forall>k \<le> 2 * 1. lock_step le_host (?r k) (?r (Suc k))"
    by (auto simp: le_Suc_eq numeral_2_eq_2 numeral_3_eq_3)
  have "reach (lock_start 1) (lock_step le_host) (?r 0)" by (rule reach_start) (simp add: lock_start_def)
  moreover have "(1 :: nat) < 2 ^ 31" "Suc (2 * 1) = 3" by simp_all
  ultimately have "\<exists>k \<le> 3. \<exists>p \<in> set (pcs (?r k)). holding p"
    using somebody_enters [of 1 le_host ?r] steps by metis
  with steps show ?thesis by (intro exI [of _ ?r]) simp
qed

section \<open>A writer that starves\<close>

text \<open>
  The states of thread 0, a writer, and threads 1 and 2, readers, while all others do nothing: the start,
  and a cycle in which one of the readers is always inside. At its steps 3 and 8 the writer tries.
\<close>

definition among :: "nat \<Rightarrow> i32 \<Rightarrow> pc \<Rightarrow> pc \<Rightarrow> pc \<Rightarrow> lock_sys" where
  "among m v p q r = \<lparr>lock_word = v, pcs = p # q # r # replicate m Idle\<rparr>"

definition coming :: "nat \<Rightarrow> lock_sys list" where
  "coming m = [among m 0 Idle Idle Idle, among m 0 WCas Idle Idle, among m 0 WCas RLoad Idle,
     among m 0 WCas (RCas 0) Idle]"

definition turning :: "nat \<Rightarrow> lock_sys list" where
  "turning m = [among m 1 WCas Reading Idle, among m 1 WCas Reading RLoad, among m 1 WCas Reading (RCas 1),
     among m 2 WCas Reading Reading, among m 2 WCas Reading Reading,
     among m 1 WCas Idle Reading, among m 1 WCas RLoad Reading, among m 1 WCas (RCas 1) Reading,
     among m 2 WCas Reading Reading, among m 2 WCas Reading Reading]"

definition starving :: "nat \<Rightarrow> nat \<Rightarrow> lock_sys" where
  "starving m k = (if k < 4 then coming m ! k else turning m ! ((k - 4) mod 10))"

lemma among_simps [simp]:
  "lock_word (among m v p q r) = v" "pcs (among m v p q r) = p # q # r # replicate m Idle"
  by (simp_all add: among_def)

lemma among_moves:
  assumes "lock_access h x v = Inr (x', v')" "x \<noteq> Idle"
  shows "lock_step h (among m v x q r) (among m v' x' q r)"
    "lock_step h (among m v p x r) (among m v' p x' r)"
    "lock_step h (among m v p q x) (among m v' p q x')"
  using access [of 0 "among m v x q r" h x' v'] access [of 1 "among m v p x r" h x' v']
    access [of 2 "among m v p q x" h x' v'] assms
  by (simp_all add: among_def)

lemma among_begins:
  "lock_step h (among m v Idle q r) (among m v WCas q r)"
  "lock_step h (among m v p Idle r) (among m v p RLoad r)"
  "lock_step h (among m v p q Idle) (among m v p q RLoad)"
  using begin_write [of 0 "among m v Idle q r" h] begin_read [of 1 "among m v p Idle r" h]
    begin_read [of 2 "among m v p q Idle" h]
  by (simp_all add: among_def)

lemma coming_steps:
  "lock_step h (coming m ! 0) (coming m ! 1)" "lock_step h (coming m ! 1) (coming m ! 2)"
  "lock_step h (coming m ! 2) (coming m ! 3)" "lock_step h (coming m ! 3) (turning m ! 0)"
  by (simp_all add: coming_def turning_def among_begins)
    (rule among_moves, simp_all add: i32_add_def)+

lemma turning_steps:
  assumes "j < 10"
  shows "lock_step h (turning m ! j) (turning m ! (Suc j mod 10))"
proof -
  have "j = 0 \<or> j = 1 \<or> j = 2 \<or> j = 3 \<or> j = 4 \<or> j = 5 \<or> j = 6 \<or> j = 7 \<or> j = 8 \<or> j = 9"
    using assms by presburger
  then show ?thesis
    by (elim disjE; simp add: turning_def among_begins)
      (rule among_moves; simp add: i32_add_def)+
qed

lemma starving_turn: "i < 10 \<Longrightarrow> starving m (4 + 10 * k + i) = turning m ! i"
  by (simp add: starving_def)

lemma starving_steps: "lock_step h (starving m k) (starving m (Suc k))"
proof (cases "k < 4")
  case True
  then consider "k = 0" | "k = 1" | "k = 2" | "k = 3" by linarith
  then show ?thesis
  proof cases
    case 1 show ?thesis unfolding 1 starving_def using coming_steps(1) by simp
  next
    case 2 show ?thesis unfolding 2 starving_def using coming_steps(2) by (simp add: numeral_2_eq_2)
  next
    case 3 show ?thesis unfolding 3 starving_def using coming_steps(3) by (simp add: numeral_3_eq_3)
  next
    case 4 show ?thesis unfolding 4 starving_def using coming_steps(4) by simp
  qed
next
  case False
  then have "Suc k - 4 = Suc (k - 4)" by simp
  then show ?thesis
    using False turning_steps [of "(k - 4) mod 10" h m] by (simp add: starving_def mod_Suc_eq)
qed

lemma starving_writer: "0 < k \<Longrightarrow> pcs (starving m k) ! 0 = WCas"
proof (cases "k < 4")
  case True
  assume "0 < k"
  with True have "k = 1 \<or> k = 2 \<or> k = 3" by linarith
  then show ?thesis by (elim disjE) (simp_all add: starving_def coming_def)
next
  case False
  have "\<forall>s \<in> set (turning m). pcs s ! 0 = WCas" by (simp add: turning_def)
  moreover have "turning m ! ((k - 4) mod 10) \<in> set (turning m)"
    by (rule nth_mem) (simp add: turning_def)
  ultimately show ?thesis using False by (simp add: starving_def)
qed

text \<open>
  C30: A writer can wait for ever, also when every thread goes on making its accesses and no reader stays
  inside. For three threads or more there is an infinite execution in which a writer calls write_lock,
  tries its exchange again and again and always fails, while two readers enter and leave for ever: the lock
  gives no preference to a waiting writer.
\<close>

theorem writer_may_starve:
  "\<exists>r. lock_start (m + 3) (r 0) \<and> (\<forall>k. lock_step h (r k) (r (Suc k))) \<and> (\<forall>k. pcs (r (Suc k)) ! 0 = WCas) \<and>
     (\<forall>k. \<exists>j \<ge> k. lock_access h (pcs (r j) ! 0) (lock_word (r j)) = Inr (WCas, lock_word (r j)) \<and> r (Suc j) = r j) \<and>
     (\<forall>k. \<exists>j \<ge> k. pcs (r j) ! 1 \<noteq> Reading \<and> pcs (r (Suc j)) ! 1 = Reading) \<and>
     (\<forall>k. \<exists>j \<ge> k. pcs (r j) ! 2 \<noteq> Reading \<and> pcs (r (Suc j)) ! 2 = Reading)"
proof (intro exI [of _ "starving m"] conjI allI)
  show "lock_start (m + 3) (starving m 0)"
    by (simp add: starving_def coming_def lock_start_def numeral_3_eq_3)
  show "lock_step h (starving m k) (starving m (Suc k))" for k by (rule starving_steps)
  show "pcs (starving m (Suc k)) ! 0 = WCas" for k by (rule starving_writer) simp
  have at: "starving m (4 + 10 * k + i) = turning m ! i" "starving m (Suc (4 + 10 * k + i)) = turning m ! Suc i"
    if "Suc i < 10" for k i
    using that starving_turn [of i m k] starving_turn [of "Suc i" m k] by simp_all
  show "\<exists>j \<ge> k. lock_access h (pcs (starving m j) ! 0) (lock_word (starving m j)) =
      Inr (WCas, lock_word (starving m j)) \<and> starving m (Suc j) = starving m j" for k
    using at [of 3 k] by (intro exI [of _ "4 + 10 * k + 3"]) (simp add: turning_def)
  show "\<exists>j \<ge> k. pcs (starving m j) ! 1 \<noteq> Reading \<and> pcs (starving m (Suc j)) ! 1 = Reading" for k
    using at [of 7 k] by (intro exI [of _ "4 + 10 * k + 7"]) (simp add: turning_def)
  show "\<exists>j \<ge> k. pcs (starving m j) ! 2 \<noteq> Reading \<and> pcs (starving m (Suc j)) ! 2 = Reading" for k
    using at [of 2 k] by (intro exI [of _ "4 + 10 * k + 2"]) (simp add: turning_def)
qed

end
