(* ===== verification/MappedView.thy ===== *)
theory MappedView
  imports Codec RwLock Transition
begin

text \<open>
  The locked view of \<open>src/mapped_view.rs\<close>: the region starts with the lock word, the data area follows
  it, and every call on the data holds a guard. The region is the byte array the lock works on; the view
  itself keeps the size and the cursor. A call returns its outcome, the view and the region it leaves;
  \<open>None\<close> is a call that spins for ever on the lock.
\<close>

record mapped_view =
  view_size :: usize
  view_cursor :: usize

type_synonym 'a view_result = "((fault + 'a) \<times> mapped_view \<times> memory) option"

definition view_header :: usize where
  "view_header = of_nat rwlock_size"

text \<open>An offset into the data area, as an offset into the region.\<close>

definition data_at :: "usize \<Rightarrow> nat" where
  "data_at pos = rwlock_size + unat pos"

definition data_size :: "host \<Rightarrow> mapped_view \<Rightarrow> fault + usize" where
  "data_size h v = usub h (view_size v) view_header"

definition view_new :: "host \<Rightarrow> usize \<Rightarrow> bool \<Rightarrow> memory \<Rightarrow> (fault + mapped_view) \<times> memory" where
  "view_new h msize is_creator =
     (if msize \<le> view_header then
        sdo (invalid_arg (''segment size must be > '' @ show_usize view_header @ '' bytes (rwlock header)''))
      else
        sbind (if is_creator then supd (lock_init h) else sreturn ()) (\<lambda>_.
        sreturn \<lparr>view_size = msize, view_cursor = 0\<rparr>))"

definition view_check_bounds :: "host \<Rightarrow> mapped_view \<Rightarrow> usize \<Rightarrow> usize \<Rightarrow> fault + unit" where
  "view_check_bounds h v offset len =
     (if len = 0 then invalid_arg ''length cannot be zero''
      else bind (data_size h v) (\<lambda>ds.
        if ds < saturating_add offset len then
          invalid_arg (''out of bounds: offset='' @ show_usize offset @ '' + length='' @ show_usize len @
            '' > data_size='' @ show_usize ds)
        else Inr ()))"

section \<open>Sequencing around the guard\<close>

text \<open>
  \<open>before\<close>: what a call computes without the lock, leaving early on an error. \<open>after\<close>: the guarded
  part, followed on success by a change of the view.
\<close>

definition before :: "mapped_view \<Rightarrow> memory \<Rightarrow> fault + 'a \<Rightarrow> ('a \<Rightarrow> 'b view_result) \<Rightarrow> 'b view_result" where
  "before v m r f = (case r of Inl e \<Rightarrow> Some (Inl e, v, m) | Inr x \<Rightarrow> f x)"

definition after ::
    "mapped_view \<Rightarrow> ((fault + 'a) \<times> memory) option \<Rightarrow> ('a \<Rightarrow> 'b \<times> mapped_view) \<Rightarrow> 'b view_result" where
  "after v r f =
     (case r of
        None \<Rightarrow> None
      | Some (Inl e, m) \<Rightarrow> Some (Inl e, v, m)
      | Some (Inr x, m) \<Rightarrow> Some (Inr (fst (f x)), snd (f x), m))"

text \<open>\<open>fetch_add\<close> on the cursor wraps.\<close>

definition advance :: "usize \<Rightarrow> mapped_view \<Rightarrow> mapped_view" where
  "advance n v = v\<lparr>view_cursor := view_cursor v + n\<rparr>"

definition position :: "mapped_view \<Rightarrow> usize option \<Rightarrow> usize" where
  "position v offset = (case offset of Some p \<Rightarrow> p | None \<Rightarrow> view_cursor v)"

section \<open>The calls\<close>

definition read_all :: "host \<Rightarrow> env \<Rightarrow> mapped_view \<Rightarrow> memory \<Rightarrow> py view_result" where
  "read_all h env v m =
     after v
       (with_read_guard h env (\<lambda>m.
          bind (data_size h v) (\<lambda>n. bind (raw_slice (data_at 0) (unat n) m) (\<lambda>bs. Inr (PyBytes bs)))) m)
       (\<lambda>r. (r, v))"

definition read_range ::
    "host \<Rightarrow> env \<Rightarrow> mapped_view \<Rightarrow> usize \<Rightarrow> usize \<Rightarrow> memory \<Rightarrow> py view_result" where
  "read_range h env v offset len m =
     before v m (view_check_bounds h v offset len) (\<lambda>_.
     after v
       (with_read_guard h env (\<lambda>m.
          bind (raw_slice (data_at offset) (unat len) m) (\<lambda>bs. Inr (PyBytes bs))) m)
       (\<lambda>r. (r, v)))"

text \<open>The common tail of \<open>write\<close> and \<open>write_mixed\<close>, which the source spells out in both.\<close>

definition write_packed ::
    "host \<Rightarrow> env \<Rightarrow> mapped_view \<Rightarrow> u8 list \<Rightarrow> usize option \<Rightarrow> memory \<Rightarrow> unit view_result" where
  "write_packed h env v bytes offset m =
     (let pos = position v offset in
      before v m (view_check_bounds h v pos (slice_len bytes)) (\<lambda>_.
      after v (with_write_guard h env (supd (copy_in (data_at pos) bytes)) m)
        (\<lambda>_. ((), if offset = None then advance (slice_len bytes) v else v))))"

definition view_write ::
    "host \<Rightarrow> env \<Rightarrow> mapped_view \<Rightarrow> py \<Rightarrow> usize option \<Rightarrow> memory \<Rightarrow> unit view_result" where
  "view_write h env v data offset m =
     before v m (pack_value h data []) (\<lambda>bytes. write_packed h env v bytes offset m)"

definition write_mixed ::
    "host \<Rightarrow> env \<Rightarrow> mapped_view \<Rightarrow> py list \<Rightarrow> usize option \<Rightarrow> memory \<Rightarrow> unit view_result" where
  "write_mixed h env v items offset m =
     before v m (pack_mixed h items) (\<lambda>bytes. write_packed h env v bytes offset m)"

definition seek :: "host \<Rightarrow> mapped_view \<Rightarrow> usize \<Rightarrow> memory \<Rightarrow> unit view_result" where
  "seek h v pos m =
     before v m (data_size h v) (\<lambda>ds.
     if ds < pos then
       Some (invalid_arg (''seek position '' @ show_usize pos @ '' exceeds data_size '' @ show_usize ds), v, m)
     else Some (Inr (), v\<lparr>view_cursor := pos\<rparr>, m))"

definition tell :: "mapped_view \<Rightarrow> usize" where
  "tell v = view_cursor v"

definition view_read :: "host \<Rightarrow> env \<Rightarrow> mapped_view \<Rightarrow> string \<Rightarrow> memory \<Rightarrow> py view_result" where
  "view_read h env v tag m =
     (let pos = view_cursor v in
      after v
        (with_read_guard h env (\<lambda>m.
           bind (data_size h v) (\<lambda>ds.
           bind (usub h ds pos) (\<lambda>n.
           bind (raw_slice (data_at pos) (unat n) m) (\<lambda>data.
           unpack_one h data tag)))) m)
        (\<lambda>(x, bytes_read). (x, advance bytes_read v)))"

definition read_mixed ::
    "host \<Rightarrow> env \<Rightarrow> mapped_view \<Rightarrow> py list \<Rightarrow> usize option \<Rightarrow> memory \<Rightarrow> py view_result" where
  "read_mixed h env v schema offset m =
     (let pos = position v offset in
      before v m (data_size h v) (\<lambda>ds.
      let available = saturating_sub ds pos in
      if available = 0 then
        Some (invalid_arg ''read_mixed: no data available at current cursor position'', v, m)
      else
        after v
          (with_read_guard h env (\<lambda>m.
             bind (raw_slice (data_at pos) (unat available) m) (\<lambda>data.
             unpack_mixed_counted h data schema)) m)
          (\<lambda>(xs, bytes_read). (PyList xs, if offset = None then advance bytes_read v else v))))"

definition view_zero :: "host \<Rightarrow> env \<Rightarrow> mapped_view \<Rightarrow> memory \<Rightarrow> unit view_result" where
  "view_zero h env v m =
     after v
       (with_write_guard h env (\<lambda>m.
          sbind (sdo (data_size h v)) (\<lambda>n. supd (copy_in (data_at 0) (replicate (unat n) 0))) m) m)
       (\<lambda>_. ((), v))"

definition view_reader_count :: "host \<Rightarrow> env \<Rightarrow> mapped_view \<Rightarrow> memory \<Rightarrow> i32 view_result" where
  "view_reader_count h env v m = (let m = env 0 m in Some (lock_reader_count h m, v, m))"

definition view_is_write_locked :: "host \<Rightarrow> env \<Rightarrow> mapped_view \<Rightarrow> memory \<Rightarrow> bool view_result" where
  "view_is_write_locked h env v m = (let m = env 0 m in Some (lock_is_write_locked h m, v, m))"

text \<open>\<open>size\<close> of the class.\<close>

definition view_len :: "host \<Rightarrow> mapped_view \<Rightarrow> fault + usize" where
  "view_len h v = data_size h v"

definition view_repr :: "host \<Rightarrow> env \<Rightarrow> mapped_view \<Rightarrow> memory \<Rightarrow> string view_result" where
  "view_repr h env v m =
     before v m (data_size h v) (\<lambda>ds.
     let m = env 0 m in
     before v m (lock_reader_count h m) (\<lambda>n.
     let m = env 1 m in
     before v m (lock_is_write_locked h m) (\<lambda>w.
     Some (Inr (''MappedView(data_size='' @ show_usize ds @ '', readers='' @ show_int (sint n) @
       '', write_locked='' @ show_bool w @ '')''), v, m))))"

end
