(* ===== verification/ViewSpec.thy ===== *)
theory ViewSpec
  imports MappedView
begin

text \<open>
  What a view promises: a file of bytes of fixed length with a position. \<open>file_call\<close> is that
  specification; every call of \<open>MappedView\<close> on a free lock is shown to follow it, and every call that
  returns, whatever other processes do to the region, to be free of undefined behaviour.
\<close>

section \<open>The specification\<close>

datatype view_op =
    ReadAll
  | ReadRange usize usize
  | Write py "usize option"
  | Seek usize
  | Read string
  | ReadMixed "py list" "usize option"
  | WriteMixed "py list" "usize option"
  | Zero
  | Size
  | Tell
  | ReaderCount
  | IsWriteLocked
  | Repr

datatype view_val = Done | Got py

datatype view_seen = Seen view_val | Rejected | Crashed

fun seen :: "fault + view_val \<Rightarrow> view_seen" where
  "seen (Inr x) = Seen x"
| "seen (Inl (Raise e)) = Rejected"
| "seen (Inl (Panic s)) = Crashed"
| "seen (Inl (UB s)) = Crashed"

lemma seen_handled: "handled (Inl e) \<Longrightarrow> seen (Inl e) = Rejected"
  by (cases e) auto

type_synonym byte_file = "u8 list \<times> nat"

definition file_pos :: "usize option \<Rightarrow> byte_file \<Rightarrow> nat" where
  "file_pos off f = (case off of None \<Rightarrow> snd f | Some p \<Rightarrow> unat p)"

definition file_move :: "usize option \<Rightarrow> nat \<Rightarrow> byte_file \<Rightarrow> nat" where
  "file_move off n f = (case off of None \<Rightarrow> snd f + n | Some _ \<Rightarrow> snd f)"

fun file_put :: "fault + u8 list \<Rightarrow> usize option \<Rightarrow> byte_file \<Rightarrow> view_seen \<times> byte_file" where
  "file_put (Inl e) off f = (seen (Inl e), f)"
| "file_put (Inr bs) off f =
     (if bs \<noteq> [] \<and> file_pos off f + length bs \<le> length (fst f)
      then (Seen Done, overwrite (file_pos off f) bs (fst f), file_move off (length bs) f)
      else (Rejected, f))"

fun file_call :: "host \<Rightarrow> view_op \<Rightarrow> byte_file \<Rightarrow> view_seen \<times> byte_file" where
  "file_call h ReadAll f = (Seen (Got (PyBytes (fst f))), f)"
| "file_call h (ReadRange off n) f =
     (if n \<noteq> 0 \<and> unat off + unat n \<le> length (fst f)
      then (Seen (Got (PyBytes (window (unat off) (unat n) (fst f)))), f) else (Rejected, f))"
| "file_call h (Write v off) f = file_put (pack_value h v []) off f"
| "file_call h (WriteMixed vs off) f = file_put (pack_mixed h vs) off f"
| "file_call h (Seek p) f =
     (if unat p \<le> length (fst f) then (Seen Done, fst f, unat p) else (Rejected, f))"
| "file_call h (Read tag) f =
     (case unpack_one h (drop (snd f) (fst f)) tag of
        Inl _ \<Rightarrow> (Rejected, f)
      | Inr (x, n) \<Rightarrow> (Seen (Got x), fst f, snd f + unat n))"
| "file_call h (ReadMixed schema off) f =
     (if length (fst f) \<le> file_pos off f then (Rejected, f)
      else case unpack_mixed_counted h (drop (file_pos off f) (fst f)) schema of
        Inl _ \<Rightarrow> (Rejected, f)
      | Inr (xs, n) \<Rightarrow> (Seen (Got (PyList xs)), fst f, file_move off (unat n) f))"
| "file_call h Zero f = (Seen Done, replicate (length (fst f)) 0, snd f)"
| "file_call h Size f = (Seen (Got (PyInt (int (length (fst f))))), f)"
| "file_call h Tell f = (Seen (Got (PyInt (int (snd f)))), f)"
| "file_call h ReaderCount f = (Seen (Got (PyInt 0)), f)"
| "file_call h IsWriteLocked f = (Seen (Got (PyBool False)), f)"
| "file_call h Repr f =
     (Seen (Got (py_str (''MappedView(data_size='' @ show_nat (length (fst f)) @
       '', readers=0, write_locked=false)''))), f)"

section \<open>The calls of the view\<close>

definition result_map :: "('a \<Rightarrow> 'b) \<Rightarrow> 'a view_result \<Rightarrow> 'b view_result" where
  "result_map f r = map_option (\<lambda>(x, v, m). (case x of Inl e \<Rightarrow> Inl e | Inr y \<Rightarrow> Inr (f y), v, m)) r"

fun view_call :: "host \<Rightarrow> env \<Rightarrow> view_op \<Rightarrow> mapped_view \<Rightarrow> memory \<Rightarrow> view_val view_result" where
  "view_call h env ReadAll v m = result_map Got (read_all h env v m)"
| "view_call h env (ReadRange off n) v m = result_map Got (read_range h env v off n m)"
| "view_call h env (Write x off) v m = result_map (\<lambda>_. Done) (view_write h env v x off m)"
| "view_call h env (WriteMixed xs off) v m = result_map (\<lambda>_. Done) (write_mixed h env v xs off m)"
| "view_call h env (Seek p) v m = result_map (\<lambda>_. Done) (seek h v p m)"
| "view_call h env (Read tag) v m = result_map Got (view_read h env v tag m)"
| "view_call h env (ReadMixed schema off) v m = result_map Got (read_mixed h env v schema off m)"
| "view_call h env Zero v m = result_map (\<lambda>_. Done) (view_zero h env v m)"
| "view_call h env Size v m = result_map (Got \<circ> PyInt \<circ> int \<circ> unat) (Some (view_len h v, v, m))"
| "view_call h env Tell v m = Some (Inr (Got (PyInt (int (unat (tell v))))), v, m)"
| "view_call h env ReaderCount v m = result_map (Got \<circ> PyInt \<circ> sint) (view_reader_count h env v m)"
| "view_call h env IsWriteLocked v m = result_map (Got \<circ> PyBool) (view_is_write_locked h env v m)"
| "view_call h env Repr v m = result_map (Got \<circ> py_str) (view_repr h env v m)"

text \<open>The view and the region belong together: the size is the length of the region.\<close>

definition view_ok :: "mapped_view \<Rightarrow> memory \<Rightarrow> bool" where
  "view_ok v m \<longleftrightarrow> unat (view_size v) = length m \<and> 4 < length m \<and> length m \<le> isize_max \<and>
     4 + unat (view_cursor v) \<le> length m"

text \<open>A view of a region nobody else uses holds the file \<open>f\<close>.\<close>

definition view_holds :: "host \<Rightarrow> mapped_view \<times> memory \<Rightarrow> byte_file \<Rightarrow> bool" where
  "view_holds h s f \<longleftrightarrow> view_ok (fst s) (snd s) \<and> lock_val h (snd s) = 0 \<and>
     f = (drop 4 (snd s), unat (view_cursor (fst s)))"

definition quiet_call ::
    "host \<Rightarrow> view_op \<Rightarrow> mapped_view \<times> memory \<Rightarrow> (view_seen \<times> (mapped_view \<times> memory)) option" where
  "quiet_call h x s =
     map_option (\<lambda>(r, v, m). (seen r, v, m)) (view_call h quiet x (fst s) (snd s))"

section \<open>Every call follows the specification\<close>

lemma view_ok_data_size:
  assumes "view_ok v m"
  shows "data_size h v = Inr (view_size v - 4)" "unat (view_size v - 4) = length m - 4"
proof -
  have "unat (4 :: usize) \<le> unat (view_size v)" using assms by (simp add: view_ok_def)
  then have le: "4 \<le> view_size v" by (simp add: word_le_nat_alt)
  then show "data_size h v = Inr (view_size v - 4)"
    by (simp add: data_size_def view_header_def rwlock_size_def)
  show "unat (view_size v - 4) = length m - 4"
    using le assms by (simp add: unat_sub view_ok_def)
qed

lemma view_holds_D:
  assumes "view_holds h (v, m) f"
  shows "view_ok v m" "lock_val h m = 0" "f = (drop 4 m, unat (view_cursor v))"
    "4 \<le> length m" "length m \<le> isize_max"
  using assms by (auto simp: view_holds_def view_ok_def)

lemma guarded_read:
  "4 \<le> length m \<Longrightarrow> lock_val h m = 0 \<Longrightarrow>
   with_read_guard h quiet body m = Some (body (i32_upd h 0 1 m), m)"
  using with_read_guard_free [of m h body] by simp

lemma data_slice:
  assumes "4 \<le> length m" "unat pos + n \<le> length m - 4"
  shows "raw_slice (data_at pos) n m = Inr (window (unat pos) n (drop 4 m))"
  using assms by (simp add: raw_slice_def data_at_def rwlock_size_def window_drop)

lemma data_slice_guarded [simp]:
  "4 \<le> length m \<Longrightarrow> raw_slice (data_at pos) n (i32_upd h 0 v m) = raw_slice (data_at pos) n m"
  by (rule raw_slice_i32_upd) (simp_all add: data_at_def rwlock_size_def)

lemma guarded_write:
  assumes "4 \<le> length m" "lock_val h m = 0" "4 + unat pos + length bs \<le> length m"
  shows "with_write_guard h quiet (supd (copy_in (data_at pos) bs)) m =
    Some (Inr (), overwrite (data_at pos) bs m)"
proof -
  have off: "4 \<le> data_at pos" "data_at pos + length bs \<le> length m"
    using assms by (simp_all add: data_at_def rwlock_size_def)
  have "supd (copy_in (data_at pos) bs) (i32_upd h 0 (- 1) m) =
      (Inr (), overwrite (data_at pos) bs (i32_upd h 0 (- 1) m))"
    using assms(1) off by (simp add: supd_def copy_in_def i32_f.upd_length)
  then show ?thesis
    using assms(1,2) off
    by (simp add: with_write_guard_free i32_f.upd_length overwrite_i32_upd i32_upd_twice i32_upd_id)
qed

lemma view_bounds_eq:
  assumes "view_ok v m"
  shows "view_check_bounds h v off len =
    (if len = 0 then invalid_arg ''length cannot be zero''
     else if unat off + unat len \<le> length m - 4 then Inr ()
     else invalid_arg (''out of bounds: offset='' @ show_usize off @ '' + length='' @ show_usize len @
            '' > data_size='' @ show_usize (view_size v - 4)))"
proof -
  note d = view_ok_data_size [OF assms]
  have "length m - 4 < 2 ^ 64 - 1" using assms by (auto simp: view_ok_def isize_max_def)
  then have "view_size v - 4 < saturating_add off len \<longleftrightarrow> \<not> unat off + unat len \<le> length m - 4"
    using d(2) by (auto simp: word_less_nat_alt unat_saturating_add)
  then show ?thesis by (simp add: view_check_bounds_def d(1))
qed

lemma view_holds_overwrite:
  assumes "view_holds h (v, m) f" "4 + unat pos + length bs \<le> length m"
    and "view_size v' = view_size v" "4 + unat (view_cursor v') \<le> length m"
  shows "view_holds h (v', overwrite (data_at pos) bs m)
    (overwrite (unat pos) bs (drop 4 m), unat (view_cursor v'))"
proof -
  note D = view_holds_D [OF assms(1)]
  have "lock_val h (overwrite (data_at pos) bs m) = 0"
    using D assms(2) by (simp add: i32_f.val_overwrite data_at_def rwlock_size_def)
  then show ?thesis
    using D assms(2-4) drop_overwrite [of 4 "unat pos" bs m]
    by (simp add: view_holds_def view_ok_def data_at_def rwlock_size_def)
qed

lemma advance_holds:
  assumes "view_ok v m" "unat (view_cursor v) + unat n \<le> length m - 4"
  shows "unat (view_cursor (advance n v)) = unat (view_cursor v) + unat n"
    "4 + unat (view_cursor (advance n v)) \<le> length m"
proof -
  have "unat (view_cursor v) + unat n < 2 ^ 64"
    using assms by (auto simp: view_ok_def isize_max_def)
  then show "unat (view_cursor (advance n v)) = unat (view_cursor v) + unat n"
    by (simp add: advance_def unat_add_usize)
  then show "4 + unat (view_cursor (advance n v)) \<le> length m"
    using assms by (auto simp: view_ok_def)
qed

lemma view_holds_advance:
  assumes "view_holds h (v, m) f" "unat (view_cursor v) + unat n \<le> length m - 4"
  shows "view_holds h (advance n v, m) (fst f, snd f + unat n)"
  using assms(1) advance_holds [OF view_holds_D(1) [OF assms(1)] assms(2)]
  by (simp add: view_holds_def view_ok_def advance_def)

lemma file_pos_position:
  "view_holds h (v, m) f \<Longrightarrow> file_pos off f = unat (position v off)"
  by (auto simp: file_pos_def position_def view_holds_def split: option.splits)

text \<open>\<open>follows h s x a\<close>: the call answers what the specification does and leaves the view holding its file.\<close>

definition follows ::
    "host \<Rightarrow> (view_seen \<times> mapped_view \<times> memory) option \<Rightarrow> view_seen \<times> byte_file \<Rightarrow> bool" where
  "follows h r a \<longleftrightarrow> (\<exists>s. r = Some (fst a, s) \<and> view_holds h s (snd a))"

definition observed :: "view_val view_result \<Rightarrow> (view_seen \<times> mapped_view \<times> memory) option" where
  "observed r = map_option (\<lambda>(x, v, m). (seen x, v, m)) r"

lemma observed_Some [simp]: "observed (Some (x, v, m)) = Some (seen x, v, m)"
  by (simp add: observed_def)

lemma result_map_Some [simp]:
  "result_map f (Some (Inl e, v, m)) = Some (Inl e, v, m)"
  "result_map f (Some (Inr x, v, m)) = Some (Inr (f x), v, m)"
  by (simp_all add: result_map_def)

lemma before_simps [simp]: "before v m (Inl e) f = Some (Inl e, v, m)" "before v m (Inr x) f = f x"
  by (simp_all add: before_def)

lemma before_shm_err [simp]: "before v m (shm_err e) f = Some (shm_err e, v, m)"
  by (simp add: shm_err_def)

lemma after_simps [simp]:
  "after v (Some (Inl e, m)) f = Some (Inl e, v, m)"
  "after v (Some (Inr x, m)) f = Some (Inr (fst (f x)), snd (f x), m)"
  by (simp_all add: after_def)

lemma result_map_shm_err [simp]: "result_map f (Some (shm_err e, v, m)) = Some (shm_err e, v, m)"
  by (simp add: shm_err_def)

lemma seen_shm_err [simp]: "seen (shm_err e) = Rejected"
  by (simp add: shm_err_def)

lemma write_packed_follows:
  assumes "view_holds h (v, m) f" "length bs \<le> isize_max"
  shows "follows h (observed (result_map (\<lambda>_. Done) (write_packed h quiet v bs off m)))
    (file_put (Inr bs) off f)"
proof (cases "bs \<noteq> [] \<and> unat (position v off) + length bs \<le> length m - 4")
  case True
  note D = view_holds_D [OF assms(1)]
  let ?v = "if off = None then advance (slice_len bs) v else v"
  have len: "unat (slice_len bs) = length bs" "slice_len bs \<noteq> 0"
    using assms(2) True unat_slice_len [of bs] unat_eq_zero [of "slice_len bs"] by simp_all
  have fits: "4 + unat (position v off) + length bs \<le> length m" using True D(4) by linarith
  have v': "view_size ?v = view_size v" "4 + unat (view_cursor ?v) \<le> length m"
    "unat (view_cursor ?v) = file_move off (length bs) f"
    using advance_holds [OF D(1), of "slice_len bs"] True len(1) D(1,3)
    by (auto simp: position_def file_move_def advance_def view_ok_def split: option.splits)
  have "write_packed h quiet v bs off m = Some (Inr (), ?v, overwrite (data_at (position v off)) bs m)"
    using True D(1) guarded_write [OF D(4,2) fits] len
    by (simp add: write_packed_def Let_def view_bounds_eq)
  moreover have "view_holds h (?v, overwrite (data_at (position v off)) bs m)
      (overwrite (unat (position v off)) bs (drop 4 m), file_move off (length bs) f)"
    using view_holds_overwrite [OF assms(1) fits v'(1,2)] v'(3) by simp
  ultimately show ?thesis
    using True D(3) file_pos_position [OF assms(1), of off] by (simp add: follows_def)
next
  case False
  note D = view_holds_D [OF assms(1)]
  have "unat (slice_len bs) = length bs" using assms(2) by simp
  then have "slice_len bs = 0 \<or> \<not> unat (position v off) + unat (slice_len bs) \<le> length m - 4"
    using False by (auto simp: slice_len_def)
  then have "\<exists>e. write_packed h quiet v bs off m = Some (shm_err e, v, m)"
    using D(1) by (auto simp: write_packed_def Let_def view_bounds_eq)
  then show ?thesis
    using False D(3) assms(1) file_pos_position [OF assms(1), of off] by (auto simp: follows_def)
qed

lemma read_all_follows:
  assumes "view_holds h (v, m) f"
  shows "follows h (observed (view_call h quiet ReadAll v m)) (file_call h ReadAll f)"
proof -
  note D = view_holds_D [OF assms] and d = view_ok_data_size [OF view_holds_D(1) [OF assms]]
  have "raw_slice (data_at 0) (length m - 4) m = Inr (drop 4 m)"
    using data_slice [of m 0 "length m - 4"] D(4) window_all [of "drop 4 m"] by simp
  then show ?thesis
    using assms D d by (simp add: read_all_def guarded_read follows_def)
qed

lemma read_range_follows:
  assumes "view_holds h (v, m) f"
  shows "follows h (observed (view_call h quiet (ReadRange off n) v m)) (file_call h (ReadRange off n) f)"
proof (cases "n \<noteq> 0 \<and> unat off + unat n \<le> length m - 4")
  case True
  note D = view_holds_D [OF assms]
  show ?thesis
    using True assms D data_slice [OF D(4), of off "unat n"]
    by (simp add: read_range_def view_bounds_eq guarded_read follows_def)
next
  case False
  note D = view_holds_D [OF assms]
  have "\<exists>e. read_range h quiet v off n m = Some (shm_err e, v, m)"
    using False D(1) by (auto simp: read_range_def view_bounds_eq)
  then show ?thesis using False assms D(3) by (auto simp: follows_def)
qed

lemma seek_follows:
  assumes "view_holds h (v, m) f"
  shows "follows h (observed (view_call h quiet (Seek p) v m)) (file_call h (Seek p) f)"
proof -
  note D = view_holds_D [OF assms] and d = view_ok_data_size [OF view_holds_D(1) [OF assms]]
  have lt: "view_size v - 4 < p \<longleftrightarrow> \<not> unat p \<le> length m - 4"
    by (simp add: word_less_nat_alt d(2) not_le)
  show ?thesis
  proof (cases "unat p \<le> length m - 4")
    case True
    then have "4 + unat p \<le> length m" using D(4) by linarith
    then show ?thesis
      using True assms D(1-3) d lt
      by (auto simp: seek_def follows_def view_holds_def view_ok_def)
  next
    case False
    then show ?thesis
      using assms D(3) d lt by (auto simp: seek_def follows_def)
  qed
qed

lemma zero_follows:
  assumes "view_holds h (v, m) f"
  shows "follows h (observed (view_call h quiet Zero v m)) (file_call h Zero f)"
proof -
  note D = view_holds_D [OF assms] and d = view_ok_data_size [OF view_holds_D(1) [OF assms]]
  let ?z = "replicate (length m - 4) (0 :: u8)"
  have body: "(\<lambda>m. sbind (sdo (data_size h v)) (\<lambda>n. supd (copy_in (data_at 0) (replicate (unat n) 0))) m)
      = supd (copy_in (data_at 0) ?z)"
    by (simp add: d fun_eq_iff)
  have "4 + unat (0 :: usize) + length ?z \<le> length m" using D(4) by simp
  then have run: "view_zero h quiet v m = Some (Inr (), v, overwrite (data_at 0) ?z m)"
    and holds: "view_holds h (v, overwrite (data_at 0) ?z m)
      (overwrite 0 ?z (drop 4 m), unat (view_cursor v))"
    using guarded_write [OF D(4,2), of 0 ?z] view_holds_overwrite [OF assms, of 0 ?z v] D(1)
    unfolding view_zero_def body by (simp_all add: view_ok_def)
  have "overwrite 0 ?z (drop 4 m) = ?z" by (simp add: overwrite_def)
  then show ?thesis using run holds D(3) by (simp add: follows_def)
qed

lemma read_follows:
  assumes "view_holds h (v, m) f"
  shows "follows h (observed (view_call h quiet (Read tag) v m)) (file_call h (Read tag) f)"
proof -
  note D = view_holds_D [OF assms] and d = view_ok_data_size [OF view_holds_D(1) [OF assms]]
  let ?c = "view_cursor v"
  have le: "unat ?c \<le> length m - 4" using D(1) by (auto simp: view_ok_def)
  then have lew: "?c \<le> view_size v - 4" by (simp add: word_le_nat_alt d(2))
  have n: "unat (view_size v - 4 - ?c) = length m - 4 - unat ?c"
    using lew d(2) by (simp add: unat_sub)
  have data: "raw_slice (data_at ?c) (length m - 4 - unat ?c) m = Inr (drop (unat ?c) (drop 4 m))"
    using data_slice [OF D(4), of ?c "length m - 4 - unat ?c"] le
    by (simp add: window_def)
  have run: "view_read h quiet v tag m =
      after v (Some (unpack_one h (drop (unat ?c) (drop 4 m)) tag, m)) (\<lambda>(x, k). (x, advance k v))"
    using D d lew n data by (simp add: view_read_def guarded_read)
  show ?thesis
  proof (cases "unpack_one h (drop (unat ?c) (drop 4 m)) tag")
    case (Inl e)
    then have "seen (Inl e) = Rejected"
      using handled_unpack_one [of h "drop (unat ?c) (drop 4 m)" tag] seen_handled by metis
    then show ?thesis using run Inl D(3) assms by (simp add: follows_def add.commute)
  next
    case (Inr a)
    obtain x k where a: "a = (x, k)" by fastforce
    have "unat ?c + unat k \<le> length m - 4"
      using unpack_one_bounds [OF Inr [unfolded a]] le by simp linarith
    then show ?thesis
      using run Inr a D(3) view_holds_advance [OF assms] by (simp add: follows_def add.commute)
  qed
qed

lemma write_follows:
  assumes "view_holds h (v, m) f"
  shows "follows h (observed (view_call h quiet (Write x off) v m)) (file_call h (Write x off) f)"
proof (cases "pack_value h x []")
  case (Inl e)
  then show ?thesis using assms by (simp add: view_write_def follows_def)
next
  case (Inr bs)
  then show ?thesis
    using write_packed_follows [OF assms pack_value_length [OF Inr]] by (simp add: view_write_def)
qed

lemma write_mixed_follows:
  assumes "view_holds h (v, m) f"
  shows "follows h (observed (view_call h quiet (WriteMixed xs off) v m))
    (file_call h (WriteMixed xs off) f)"
proof (cases "pack_mixed h xs")
  case (Inl e)
  then show ?thesis using assms by (simp add: write_mixed_def follows_def)
next
  case (Inr bs)
  then show ?thesis
    using write_packed_follows [OF assms pack_mixed_length [OF Inr]] by (simp add: write_mixed_def)
qed

lemma file_move_holds:
  assumes "view_holds h (v, m) f" "file_pos off f + unat n \<le> length m - 4"
  shows "view_holds h (if off = None then advance n v else v, m) (fst f, file_move off (unat n) f)"
proof (cases off)
  case None
  then show ?thesis
    using view_holds_advance [OF assms(1), of n] assms view_holds_D(3) [OF assms(1)]
    by (simp add: file_pos_def file_move_def)
next
  case (Some p)
  then show ?thesis using assms(1) by (simp add: file_move_def)
qed

lemma read_mixed_follows:
  assumes "view_holds h (v, m) f"
  shows "follows h (observed (view_call h quiet (ReadMixed schema off) v m))
    (file_call h (ReadMixed schema off) f)"
proof -
  note D = view_holds_D [OF assms] and d = view_ok_data_size [OF view_holds_D(1) [OF assms]]
  let ?p = "position v off"
  let ?n = "saturating_sub (view_size v - 4) ?p"
  have p: "file_pos off f = unat ?p" by (rule file_pos_position [OF assms])
  have n: "unat ?n = length m - 4 - unat ?p" by (simp add: unat_saturating_sub d(2))
  show ?thesis
  proof (cases "length m - 4 \<le> unat ?p")
    case True
    then have "?n = 0" using n by (simp add: unat_eq_zero [symmetric])
    then have "read_mixed h quiet v schema off m =
        Some (invalid_arg ''read_mixed: no data available at current cursor position'', v, m)"
      by (simp add: read_mixed_def Let_def d(1))
    then show ?thesis using True p D(3) assms by (auto simp: follows_def)
  next
    case False
    let ?data = "drop (unat ?p) (drop 4 m)"
    have n0: "?n \<noteq> 0" using n False by auto
    have "raw_slice (data_at ?p) (unat ?n) m = Inr ?data"
      using data_slice [OF D(4), of ?p "unat ?n"] n False by (simp add: window_def)
    then have run: "read_mixed h quiet v schema off m =
        after v (Some (unpack_mixed_counted h ?data schema, m))
          (\<lambda>(xs, k). (PyList xs, if off = None then advance k v else v))"
      using D n0 by (simp add: read_mixed_def Let_def d(1) guarded_read)
    have wth: "within ?data 0 (unpack_mixed_counted h ?data schema)"
      using D(5) by (intro unpack_mixed_within) simp
    show ?thesis
    proof (cases "unpack_mixed_counted h ?data schema")
      case (Inl e)
      then obtain x where "e = Raise x" using wth by (auto simp: within_def)
      then show ?thesis
        using run Inl p D(3) False assms by (auto simp: follows_def)
    next
      case (Inr a)
      obtain xs k where a: "a = (xs, k)" by fastforce
      have "unat k \<le> length m - 4 - unat ?p"
        using wth Inr a by (simp add: within_def add.commute)
      then have "file_pos off f + unat k \<le> length m - 4" using p False by linarith
      from file_move_holds [OF assms this] show ?thesis
        using run Inr a p D(3) False by (auto simp: follows_def)
    qed
  qed
qed

lemma queries_follow:
  assumes "view_holds h (v, m) f"
  shows "follows h (observed (view_call h quiet Size v m)) (file_call h Size f)"
    "follows h (observed (view_call h quiet Tell v m)) (file_call h Tell f)"
    "follows h (observed (view_call h quiet ReaderCount v m)) (file_call h ReaderCount f)"
    "follows h (observed (view_call h quiet IsWriteLocked v m)) (file_call h IsWriteLocked f)"
    "follows h (observed (view_call h quiet Repr v m)) (file_call h Repr f)"
proof -
  note D = view_holds_D [OF assms] and d = view_ok_data_size [OF view_holds_D(1) [OF assms]]
  have lock: "lock_reader_count h m = Inr 0" "lock_is_write_locked h m = Inr False"
    using D(2,4) by (simp_all add: lock_reader_count_def lock_is_write_locked_def i32_f.load_val)
  have repr: "show_usize (view_size v - 4) = show_nat (length m - 4)" "show_int 0 = ''0''"
    "show_bool False = ''false''"
    by (simp_all add: show_usize_def d(2) show_int_def show_nat.simps [of 0] show_bool_def char_of_def bit_iff_odd)
  note eqs = follows_def view_len_def tell_def view_reader_count_def view_is_write_locked_def
    view_repr_def quiet_def
  show "follows h (observed (view_call h quiet Size v m)) (file_call h Size f)"
    "follows h (observed (view_call h quiet Tell v m)) (file_call h Tell f)"
    "follows h (observed (view_call h quiet ReaderCount v m)) (file_call h ReaderCount f)"
    "follows h (observed (view_call h quiet IsWriteLocked v m)) (file_call h IsWriteLocked f)"
    "follows h (observed (view_call h quiet Repr v m)) (file_call h Repr f)"
    using lock d repr assms D(3) by (simp_all add: eqs Let_def)
qed

lemma view_call_follows:
  assumes "view_holds h (v, m) f"
  shows "follows h (observed (view_call h quiet x v m)) (file_call h x f)"
  using assms
  by (cases x) (simp_all only: read_all_follows read_range_follows write_follows seek_follows
    read_follows read_mixed_follows write_mixed_follows zero_follows queries_follow)

interpretation view: simulation "quiet_call h" "file_call h" "view_holds h" for h
proof
  fix s f x
  assume "view_holds h s f"
  then have "follows h (observed (view_call h quiet x (fst s) (snd s))) (file_call h x f)"
    by (intro view_call_follows) simp
  then show "\<exists>s'. quiet_call h x s = Some (fst (file_call h x f), s') \<and>
      view_holds h s' (snd (file_call h x f))"
    by (auto simp: follows_def quiet_call_def observed_def)
qed

section \<open>The file keeps its length\<close>

lemma length_file_put: "length (fst (snd (file_put r off f))) = length (fst f)"
  by (cases r) auto

lemma length_file_call: "length (fst (snd (file_call h x f))) = length (fst f)"
  by (cases x) (auto simp: length_file_put split: sum.splits)

lemma length_run_spec: "length (fst (snd (run_spec (file_call h) xs f))) = length (fst f)"
proof (induction xs arbitrary: f)
  case (Cons x xs)
  then show ?case
    using length_file_call [of h x f] by (simp add: Let_def split: prod.splits) (metis fst_conv snd_conv)
qed simp

end
