(* ===== verification/ViewSafety.thy ===== *)
theory ViewSafety
  imports ViewSpec
begin

text \<open>
  The calls of a view while other processes use the region: no call touches memory outside the region
  and none moves the cursor out of the data area, whatever the others write and however the lock word is
  changed under the call.
\<close>

section \<open>Results without undefined behaviour\<close>

fun no_ub :: "fault + 'a \<Rightarrow> bool" where
  "no_ub (Inl (UB s)) = False"
| "no_ub r = True"

lemma no_ub_Inl: "no_ub (Inl e) \<longleftrightarrow> (\<forall>s. e \<noteq> UB s)"
  by (cases e) auto

lemma no_ub_Inr [simp]: "no_ub (Inr x)"
  by simp

lemma no_ub_shm_err [simp]: "no_ub (shm_err e)"
  by (simp add: shm_err_def)

lemma no_ub_map_err [simp]: "no_ub (map_err Raise r)"
  by (cases r) auto

lemma handled_no_ub: "handled r \<Longrightarrow> no_ub r"
  by (cases r) (auto simp: handled_Inl)

lemma no_ub_bind [intro]:
  "no_ub r \<Longrightarrow> (\<And>x. r = Inr x \<Longrightarrow> no_ub (f x)) \<Longrightarrow> no_ub (bind r f)"
  by (cases r) (auto simp: no_ub_Inl)

lemma no_ub_vec_extend [simp]: "no_ub (vec_extend out bs)"
  by (simp add: vec_extend_def)

lemma no_ub_pack_value: "no_ub (pack_value h v out)"
  by (cases v) (auto intro!: no_ub_bind)

lemma no_ub_pack_all: "no_ub (pack_all h vs out)"
  by (induction vs arbitrary: out) (auto intro: no_ub_pack_value)

lemma no_ub_pack_items: "no_ub (pack_items h vs out)"
proof (induction vs arbitrary: out)
  case (Cons v vs)
  have "no_ub (case v of PyList sub \<Rightarrow> pack_all h sub out | _ \<Rightarrow> pack_value h v out)"
    by (cases v) (simp_all only: py.case no_ub_pack_all no_ub_pack_value)
  then show ?case using Cons.IH by auto
qed simp

definition safe :: "'a view_result \<Rightarrow> bool" where
  "safe r \<longleftrightarrow> (\<forall>x v m. r = Some (x, v, m) \<longrightarrow> no_ub x \<and> view_ok v m)"

lemma safe_Some [simp]: "safe (Some (x, v, m)) \<longleftrightarrow> no_ub x \<and> view_ok v m"
  by (simp add: safe_def)

lemma no_ub_Inl_cast: "no_ub (Inl e :: fault + 'a) \<Longrightarrow> no_ub (Inl e :: fault + 'b)"
  by (simp add: no_ub_Inl)

lemma safe_result_map: "safe r \<Longrightarrow> safe (result_map f r)"
  by (cases r) (auto simp: safe_def result_map_def intro: no_ub_Inl_cast split: sum.splits)

lemma safe_before:
  "view_ok v m \<Longrightarrow> no_ub r \<Longrightarrow> (\<And>x. r = Inr x \<Longrightarrow> safe (f x)) \<Longrightarrow> safe (before v m r f)"
  by (cases r) (auto intro: no_ub_Inl_cast)

lemma view_ok_length: "view_ok v m \<Longrightarrow> length m' = length m \<Longrightarrow> view_ok v m'"
  by (simp add: view_ok_def)

lemma safe_after_read:
  assumes "env_keeps env" "view_ok v m"
    and body: "\<And>m1. length m1 = length m \<Longrightarrow> no_ub (body m1) \<and>
      (\<forall>x. body m1 = Inr x \<longrightarrow> view_ok (snd (f x)) m)"
  shows "safe (after v (with_read_guard h env body m) f)"
proof (cases "with_read_guard h env body m")
  case None
  then show ?thesis by (simp add: after_def safe_def)
next
  case (Some a)
  obtain r m' where a: "a = (r, m')" by fastforce
  have len: "4 \<le> length m" using assms(2) by (simp add: view_ok_def)
  note E = with_read_guard_effect [OF Some [unfolded a] assms(1) len]
  show ?thesis
  proof (cases r)
    case (Inl e)
    have "no_ub r"
      using E body len by (auto simp: i32_f.upd_length)
    then show ?thesis
      using Some a Inl E view_ok_length [OF assms(2), of m'] no_ub_Inl_cast by auto
  next
    case (Inr x)
    then obtain m0 where m0: "length m0 = length m"
      and r: "body (i32_upd h 0 (lock_val h m0 + 1) m0) = Inr x"
      using E by auto
    have "view_ok (snd (f x)) m"
      using body [of "i32_upd h 0 (lock_val h m0 + 1) m0"] r m0 len by (simp add: i32_f.upd_length)
    then show ?thesis
      using Some a Inr E view_ok_length [of "snd (f x)" m m'] by simp
  qed
qed

lemma safe_after_write:
  assumes "env_keeps env" "view_ok v m"
    and keeps: "\<And>m. length (snd (body m)) = length m"
    and body: "\<And>m1. length m1 = length m \<Longrightarrow> no_ub (fst (body m1))"
    and f: "\<And>x. view_ok (snd (f x)) m"
  shows "safe (after v (with_write_guard h env body m) f)"
proof (cases "with_write_guard h env body m")
  case None
  then show ?thesis by (simp add: after_def safe_def)
next
  case (Some a)
  obtain r m' where a: "a = (r, m')" by fastforce
  have len: "4 \<le> length m" using assms(2) by (simp add: view_ok_def)
  obtain m0 n where m0: "length m0 = length m"
    and r: "r = fst (body (i32_upd h 0 (- 1) m0))"
    and m': "m' = i32_upd h 0 0 (env n (snd (body (i32_upd h 0 (- 1) m0))))"
    using with_write_guard_effect [OF Some [unfolded a] assms(1) len keeps] by blast
  have l': "length m' = length m"
    using m0 m' len assms(1) keeps [of "i32_upd h 0 (- 1) m0"] by (simp add: env_keeps_def i32_f.upd_length)
  have "no_ub r"
    using body [of "i32_upd h 0 (- 1) m0"] m0 len by (simp add: r i32_f.upd_length)
  then show ?thesis
    using Some a l' view_ok_length [OF assms(2) l'] view_ok_length [OF f l'] no_ub_Inl_cast
    by (cases r) auto
qed

section \<open>Every call is safe\<close>

lemma length_copy_in: "length (snd (supd (copy_in off bs) m)) = length m"
  by (simp add: supd_def copy_in_def)

lemma no_ub_copy_in: "off + length bs \<le> length m \<Longrightarrow> no_ub (fst (supd (copy_in off bs) m))"
  by (simp add: supd_def copy_in_def)

lemma no_ub_check_bounds: "view_ok v m \<Longrightarrow> no_ub (view_check_bounds h v off n)"
  by (auto simp: view_bounds_eq)

lemma check_bounds_fits:
  "view_ok v m \<Longrightarrow> view_check_bounds h v off n = Inr u \<Longrightarrow> 4 + unat off + unat n \<le> length m"
  by (auto simp: view_bounds_eq view_ok_def split: if_splits)

lemma safe_write_packed:
  assumes "env_keeps env" "view_ok v m" "length bs \<le> isize_max"
  shows "safe (write_packed h env v bs off m)"
proof -
  have fits: "safe (after v (with_write_guard h env (supd (copy_in (data_at (position v off)) bs)) m)
        (\<lambda>_. ((), if off = None then advance (slice_len bs) v else v)))"
    if ok: "view_check_bounds h v (position v off) (slice_len bs) = Inr u" for u
  proof (rule safe_after_write [OF assms(1,2) length_copy_in])
    have le: "4 + unat (position v off) + length bs \<le> length m"
      using check_bounds_fits [OF assms(2) ok] assms(3) by simp
    then show "no_ub (fst (supd (copy_in (data_at (position v off)) bs) m1))"
      if "length m1 = length m" for m1
      using that by (intro no_ub_copy_in) (simp add: data_at_def rwlock_size_def)
    show "view_ok (snd ((), if off = None then advance (slice_len bs) v else v)) m"
      using assms(2,3) le advance_holds(2) [OF assms(2), of "slice_len bs"]
      by (auto simp: position_def view_ok_def advance_def split: option.splits)
  qed
  show ?thesis
    unfolding write_packed_def Let_def
    by (rule safe_before [OF assms(2) no_ub_check_bounds [OF assms(2)] fits])
qed

lemma data_slice_exists:
  "view_ok v m \<Longrightarrow> length m1 = length m \<Longrightarrow> unat pos + n \<le> length m - 4 \<Longrightarrow>
   raw_slice (data_at pos) n m1 = Inr (window (unat pos) n (drop 4 m1))"
  using data_slice [of m1 pos n] by (simp add: view_ok_def)

lemma safe_view_read:
  assumes "env_keeps env" "view_ok v m"
  shows "safe (view_read h env v tag m)"
  unfolding view_read_def Let_def
proof (rule safe_after_read [OF assms])
  fix m1 :: memory
  assume l: "length m1 = length m"
  note d = view_ok_data_size [OF assms(2)]
  let ?c = "view_cursor v" and ?d = "window (unat (view_cursor v)) (length m - 4 - unat (view_cursor v)) (drop 4 m1)"
  have le: "unat ?c \<le> length m - 4" using assms(2) by (auto simp: view_ok_def)
  then have lew: "?c \<le> view_size v - 4" by (simp add: word_le_nat_alt d(2))
  then have n: "unat (view_size v - 4 - ?c) = length m - 4 - unat ?c"
    using d(2) by (simp add: unat_sub)
  have "raw_slice (data_at ?c) (length m - 4 - unat ?c) m1 = Inr ?d"
    using le by (intro data_slice_exists [OF assms(2) l]) simp
  then have eq: "bind (data_size h v) (\<lambda>ds. bind (usub h ds ?c) (\<lambda>n.
      bind (raw_slice (data_at ?c) (unat n) m1) (\<lambda>data. unpack_one h data tag))) = unpack_one h ?d tag"
    using d lew n by simp
  have "view_ok (advance k v) m" if "unpack_one h ?d tag = Inr (x, k)" for x k
  proof -
    have "unat ?c + unat k \<le> length m - 4"
      using unpack_one_bounds [OF that] le l by simp linarith
    then show ?thesis
      using advance_holds(2) [OF assms(2)] assms(2) by (simp add: view_ok_def advance_def)
  qed
  then show "no_ub (bind (data_size h v) (\<lambda>ds. bind (usub h ds ?c) (\<lambda>n.
      bind (raw_slice (data_at ?c) (unat n) m1) (\<lambda>data. unpack_one h data tag)))) \<and>
    (\<forall>x. bind (data_size h v) (\<lambda>ds. bind (usub h ds ?c) (\<lambda>n.
      bind (raw_slice (data_at ?c) (unat n) m1) (\<lambda>data. unpack_one h data tag))) = Inr x \<longrightarrow>
      view_ok (snd (case x of (x, bytes_read) \<Rightarrow> (x, advance bytes_read v))) m)"
    unfolding eq using handled_no_ub [OF handled_unpack_one] by auto
qed

lemma safe_read_mixed:
  assumes "env_keeps env" "view_ok v m"
  shows "safe (read_mixed h env v schema off m)"
proof -
  note d = view_ok_data_size [OF assms(2)]
  let ?p = "position v off"
  let ?n = "saturating_sub (view_size v - 4) ?p"
  have n: "unat ?n = length m - 4 - unat ?p" by (simp add: unat_saturating_sub d(2))
  have "safe (after v (with_read_guard h env (\<lambda>m. bind (raw_slice (data_at ?p) (unat ?n) m)
        (\<lambda>data. unpack_mixed_counted h data schema)) m)
      (\<lambda>(xs, k). (PyList xs, if off = None then advance k v else v)))"
    if "?n \<noteq> 0"
  proof (rule safe_after_read [OF assms])
    fix m1 :: memory
    assume l: "length m1 = length m"
    let ?d = "window (unat ?p) (unat ?n) (drop 4 m1)"
    have lt: "unat ?p < length m - 4"
      using n that unat_eq_zero [of ?n] by linarith
    then have eq: "bind (raw_slice (data_at ?p) (unat ?n) m1)
        (\<lambda>data. unpack_mixed_counted h data schema) = unpack_mixed_counted h ?d schema"
      using n by (subst data_slice_exists [OF assms(2) l]) simp_all
    have "length ?d \<le> isize_max" using assms(2) l by (auto simp: view_ok_def)
    then have wth: "within ?d 0 (unpack_mixed_counted h ?d schema)" by (rule unpack_mixed_within)
    have "view_ok (if off = None then advance k v else v) m"
      if "unpack_mixed_counted h ?d schema = Inr (xs, k)" for xs k
    proof (cases off)
      case None
      have "unat (view_cursor v) + unat k \<le> length m - 4"
        using wth that n l lt None by (auto simp: within_def position_def)
      then show ?thesis
        using None advance_holds(2) [OF assms(2)] assms(2) by (simp add: view_ok_def advance_def)
    next
      case (Some p)
      then show ?thesis using assms(2) by simp
    qed
    moreover have "no_ub (unpack_mixed_counted h ?d schema)"
      using wth by (auto simp: within_def no_ub_Inl split: sum.splits)
    ultimately show "no_ub (bind (raw_slice (data_at ?p) (unat ?n) m1)
        (\<lambda>data. unpack_mixed_counted h data schema)) \<and>
      (\<forall>x. bind (raw_slice (data_at ?p) (unat ?n) m1)
        (\<lambda>data. unpack_mixed_counted h data schema) = Inr x \<longrightarrow>
        view_ok (snd (case x of (xs, k) \<Rightarrow> (PyList xs, if off = None then advance k v else v))) m)"
      unfolding eq by auto
  qed
  then show ?thesis
    using assms(2) by (simp add: read_mixed_def Let_def d(1))
qed

lemma safe_read_all:
  assumes "env_keeps env" "view_ok v m"
  shows "safe (read_all h env v m)"
  unfolding read_all_def
proof (rule safe_after_read [OF assms])
  fix m1 :: memory
  assume l: "length m1 = length m"
  have "raw_slice (data_at 0) (length m - 4) m1 = Inr (window 0 (length m - 4) (drop 4 m1))"
    using data_slice_exists [OF assms(2) l, of 0] by simp
  then show "no_ub (bind (data_size h v) (\<lambda>n. bind (raw_slice (data_at 0) (unat n) m1)
      (\<lambda>bs. Inr (PyBytes bs)))) \<and>
    (\<forall>x. bind (data_size h v) (\<lambda>n. bind (raw_slice (data_at 0) (unat n) m1)
      (\<lambda>bs. Inr (PyBytes bs))) = Inr x \<longrightarrow> view_ok (snd (x, v)) m)"
    using view_ok_data_size [OF assms(2)] assms(2) by simp
qed

lemma safe_read_range:
  assumes "env_keeps env" "view_ok v m"
  shows "safe (read_range h env v off n m)"
  unfolding read_range_def
proof (rule safe_before [OF assms(2) no_ub_check_bounds [OF assms(2)]], rule safe_after_read [OF assms])
  fix u and m1 :: memory
  assume ok: "view_check_bounds h v off n = Inr u" and l: "length m1 = length m"
  have "unat off + unat n \<le> length m - 4" using check_bounds_fits [OF assms(2) ok] by simp
  then show "no_ub (bind (raw_slice (data_at off) (unat n) m1) (\<lambda>bs. Inr (PyBytes bs))) \<and>
    (\<forall>x. bind (raw_slice (data_at off) (unat n) m1) (\<lambda>bs. Inr (PyBytes bs)) = Inr x \<longrightarrow>
      view_ok (snd (x, v)) m)"
    using assms(2) by (simp add: data_slice_exists [OF assms(2) l])
qed

lemma safe_view_zero:
  assumes "env_keeps env" "view_ok v m"
  shows "safe (view_zero h env v m)"
  unfolding view_zero_def
proof (rule safe_after_write [OF assms])
  note d = view_ok_data_size [OF assms(2)]
  show "length (snd (sbind (sdo (data_size h v))
      (\<lambda>n. supd (copy_in (data_at 0) (replicate (unat n) 0))) m)) = length m" for m
    by (simp add: d(1) length_copy_in)
  show "no_ub (fst (sbind (sdo (data_size h v))
      (\<lambda>n. supd (copy_in (data_at 0) (replicate (unat n) 0))) m1))" if "length m1 = length m" for m1
    using that assms(2) d
    by (auto simp: data_at_def rwlock_size_def view_ok_def intro!: no_ub_copy_in)
qed (use assms(2) in simp)

lemma safe_seek: "view_ok v m \<Longrightarrow> safe (seek h v p m)"
  using view_ok_data_size [of v m]
  by (auto simp: seek_def view_ok_def word_less_nat_alt not_less)

lemma safe_queries:
  assumes "env_keeps env" "view_ok v m"
  shows "safe (view_call h env Size v m)" "safe (view_call h env Tell v m)"
    "safe (view_call h env ReaderCount v m)" "safe (view_call h env IsWriteLocked v m)"
    "safe (view_call h env Repr v m)"
proof -
  note d = view_ok_data_size [OF assms(2)]
  have ok: "view_ok v (env k m')" if "view_ok v m'" for k m'
    using view_ok_length [OF that] assms(1) by (simp add: env_keeps_def)
  have lock: "\<exists>n. lock_reader_count h m' = Inr n" "\<exists>b. lock_is_write_locked h m' = Inr b" if "view_ok v m'" for m'
    using that by (simp_all add: lock_reader_count_def lock_is_write_locked_def i32_f.load_val view_ok_def)
  note m0 = ok [OF assms(2), of 0] and m1 = ok [OF ok [OF assms(2), of 0], of 1]
  obtain n b b' where "lock_reader_count h (env 0 m) = Inr n" "lock_is_write_locked h (env 0 m) = Inr b"
    "lock_is_write_locked h (env 1 (env 0 m)) = Inr b'"
    using lock [OF m0] lock(2) [OF m1] by blast
  then show "safe (view_call h env Size v m)" "safe (view_call h env Tell v m)"
    "safe (view_call h env ReaderCount v m)" "safe (view_call h env IsWriteLocked v m)"
    "safe (view_call h env Repr v m)"
    using assms(2) m0 m1 d
    by (simp_all add: view_len_def view_reader_count_def view_is_write_locked_def view_repr_def Let_def)
qed

lemma safe_view_call:
  assumes "env_keeps env" "view_ok v m"
  shows "safe (view_call h env x v m)"
proof (cases x)
  case (Write y off)
  show ?thesis
    unfolding Write view_call.simps view_write_def
    by (intro safe_result_map safe_before assms no_ub_pack_value safe_write_packed)
      (auto dest: pack_value_length)
next
  case (WriteMixed ys off)
  show ?thesis
    unfolding WriteMixed view_call.simps write_mixed_def
    by (intro safe_result_map safe_before assms safe_write_packed)
      (auto simp: pack_mixed_def intro: no_ub_pack_items dest: pack_mixed_length [unfolded pack_mixed_def])
qed (use safe_queries [OF assms] in \<open>simp_all add: assms safe_result_map safe_read_all safe_read_range
    safe_seek safe_view_read safe_read_mixed safe_view_zero\<close>)

end
