(* ===== verification/ViewConc.thy ===== *)
theory ViewConc
  imports RwLockConc
begin

text \<open>
  Calls of views under concurrent use: any number of threads inside \<open>read_range\<close> and \<open>write\<close> of the same
  segment. A call waits for its guard by the accesses of \<open>RwLockConc\<close>, copies its bytes while it is
  inside, one at a time in whatever order the copy takes them (\<open>copy_nonoverlapping\<close> and \<open>to_vec\<close> promise
  none), and leaves; everything interleaves. The lock makes each copy atomic: a reader sees whole
  writes only.
\<close>

section \<open>The system\<close>

text \<open>
  \<open>ReadJob off dst\<close>: a read at \<open>off\<close> whose destination is filled so far as \<open>dst\<close>; \<open>WriteJob off bs todo\<close>:
  a write of \<open>bs\<close> at \<open>off\<close> that has still to copy the bytes with index in \<open>todo\<close>. \<open>area\<close> is the data area, \<open>committed\<close> the file that
  every writer changes by its whole write at once, when it leaves: what atomic writes would have made.
\<close>

datatype view_job =
    NoJob
  | ReadJob nat "u8 option list"
  | WriteJob nat "u8 list" "nat set"

record view_sys =
  guard :: lock_sys
  jobs :: "view_job list"
  area :: "u8 list"
  committed :: "u8 list"

inductive view_step :: "host \<Rightarrow> view_sys \<Rightarrow> view_sys \<Rightarrow> bool" for h :: host where
  start_read: "i < length (pcs (guard s)) \<Longrightarrow> pcs (guard s) ! i = Idle \<Longrightarrow> off + n \<le> length (area s) \<Longrightarrow>
    view_step h s (s\<lparr>guard := (guard s)\<lparr>pcs := (pcs (guard s))[i := RLoad]\<rparr>,
      jobs := (jobs s)[i := ReadJob off (replicate n None)]\<rparr>)"
| start_write: "i < length (pcs (guard s)) \<Longrightarrow> pcs (guard s) ! i = Idle \<Longrightarrow>
    off + length bs \<le> length (area s) \<Longrightarrow>
    view_step h s (s\<lparr>guard := (guard s)\<lparr>pcs := (pcs (guard s))[i := WCas]\<rparr>,
      jobs := (jobs s)[i := WriteJob off bs {..<length bs}]\<rparr>)"
| wait: "i < length (pcs (guard s)) \<Longrightarrow> waiting (pcs (guard s) ! i) \<Longrightarrow>
    lock_access h (pcs (guard s) ! i) (lock_word (guard s)) = Inr (p, v) \<Longrightarrow>
    view_step h s (s\<lparr>guard := (guard s)\<lparr>lock_word := v, pcs := (pcs (guard s))[i := p]\<rparr>\<rparr>)"
| wait_panic: "i < length (pcs (guard s)) \<Longrightarrow>
    lock_access h (pcs (guard s) ! i) (lock_word (guard s)) = Inl e \<Longrightarrow>
    view_step h s (s\<lparr>guard := (guard s)\<lparr>pcs := (pcs (guard s))[i := Idle]\<rparr>, jobs := (jobs s)[i := NoJob]\<rparr>)"
| read_byte: "i < length (pcs (guard s)) \<Longrightarrow> pcs (guard s) ! i = Reading \<Longrightarrow>
    jobs s ! i = ReadJob off dst \<Longrightarrow> k < length dst \<Longrightarrow> dst ! k = None \<Longrightarrow>
    view_step h s (s\<lparr>jobs := (jobs s)[i := ReadJob off (dst[k := Some (area s ! (off + k))])]\<rparr>)"
| write_byte: "i < length (pcs (guard s)) \<Longrightarrow> pcs (guard s) ! i = Writing \<Longrightarrow>
    jobs s ! i = WriteJob off bs todo \<Longrightarrow> k \<in> todo \<Longrightarrow>
    view_step h s (s\<lparr>jobs := (jobs s)[i := WriteJob off bs (todo - {k})], area := (area s)[off + k := bs ! k]\<rparr>)"
| end_read: "i < length (pcs (guard s)) \<Longrightarrow> pcs (guard s) ! i = Reading \<Longrightarrow>
    jobs s ! i = ReadJob off dst \<Longrightarrow> None \<notin> set dst \<Longrightarrow>
    lock_access h Reading (lock_word (guard s)) = Inr (p, v) \<Longrightarrow>
    view_step h s (s\<lparr>guard := (guard s)\<lparr>lock_word := v, pcs := (pcs (guard s))[i := p]\<rparr>,
      jobs := (jobs s)[i := NoJob]\<rparr>)"
| end_write: "i < length (pcs (guard s)) \<Longrightarrow> pcs (guard s) ! i = Writing \<Longrightarrow>
    jobs s ! i = WriteJob off bs todo \<Longrightarrow> todo = {} \<Longrightarrow>
    lock_access h Writing (lock_word (guard s)) = Inr (p, v) \<Longrightarrow>
    view_step h s (s\<lparr>guard := (guard s)\<lparr>lock_word := v, pcs := (pcs (guard s))[i := p]\<rparr>,
      jobs := (jobs s)[i := NoJob], committed := overwrite off bs (committed s)\<rparr>)"

definition view_start :: "nat \<Rightarrow> view_sys \<Rightarrow> bool" where
  "view_start n s \<longleftrightarrow> lock_start n (guard s) \<and> jobs s = replicate n NoJob \<and> committed s = area s"

section \<open>The invariant\<close>

text \<open>\<open>c\<close> where the write of \<open>bs\<close> at \<open>off\<close> has been made but for the indices in \<open>todo\<close>.\<close>

definition partly_written :: "nat \<Rightarrow> u8 list \<Rightarrow> nat set \<Rightarrow> u8 list \<Rightarrow> u8 list" where
  "partly_written off bs todo c =
     map (\<lambda>x. if off \<le> x \<and> x < off + length bs \<and> x - off \<notin> todo then bs ! (x - off) else c ! x) [0..<length c]"

lemma partly_written_length [simp]: "length (partly_written off bs todo c) = length c"
  by (simp add: partly_written_def)

lemma partly_written_none [simp]: "partly_written off bs {..<length bs} c = c"
  by (rule nth_equalityI) (auto simp: partly_written_def)

lemma partly_written_all:
  "off + length bs \<le> length c \<Longrightarrow> partly_written off bs {} c = overwrite off bs c"
  by (rule nth_equalityI) (auto simp: partly_written_def overwrite_def nth_append min_def)

lemma partly_written_next:
  assumes "k \<in> todo" "todo \<subseteq> {..<length bs}" "off + length bs \<le> length c"
  shows "(partly_written off bs todo c)[off + k := bs ! k] = partly_written off bs (todo - {k}) c"
proof -
  have "k < length bs" "off + k < length c" using assms by auto
  then show ?thesis
    using assms(1) by (intro nth_equalityI) (auto simp: partly_written_def nth_list_update)
qed

text \<open>What a thread at a program point of the lock has to do and has done.\<close>

fun job_ok :: "u8 list \<Rightarrow> u8 list \<Rightarrow> pc \<Rightarrow> view_job \<Rightarrow> bool" where
  "job_ok a c Reading (ReadJob off dst) \<longleftrightarrow>
     a = c \<and> off + length dst \<le> length a \<and> (\<forall>k < length dst. dst ! k \<in> {None, Some (c ! (off + k))})"
| "job_ok a c Writing (WriteJob off bs todo) \<longleftrightarrow>
     off + length bs \<le> length c \<and> todo \<subseteq> {..<length bs} \<and> a = partly_written off bs todo c"
| "job_ok a c Reading job \<longleftrightarrow> False"
| "job_ok a c Writing job \<longleftrightarrow> False"
| "job_ok a c RLoad job \<longleftrightarrow> (\<exists>off n. job = ReadJob off (replicate n None) \<and> off + n \<le> length c)"
| "job_ok a c (RCas v) job \<longleftrightarrow> (\<exists>off n. job = ReadJob off (replicate n None) \<and> off + n \<le> length c)"
| "job_ok a c WCas job \<longleftrightarrow> (\<exists>off bs. job = WriteJob off bs {..<length bs} \<and> off + length bs \<le> length c)"
| "job_ok a c Idle job \<longleftrightarrow> True"

definition view_inv :: "nat \<Rightarrow> view_sys \<Rightarrow> bool" where
  "view_inv n s \<longleftrightarrow> lock_inv n (guard s) \<and> length (jobs s) = n \<and> length (area s) = length (committed s) \<and>
     (writers (guard s) = 0 \<longrightarrow> area s = committed s) \<and>
     (\<forall>i < n. job_ok (area s) (committed s) (pcs (guard s) ! i) (jobs s ! i))"

lemma view_inv_D:
  assumes "view_inv n s"
  shows "lock_inv n (guard s)" "length (jobs s) = n" "length (pcs (guard s)) = n"
    "length (area s) = length (committed s)" "writers (guard s) = 0 \<Longrightarrow> area s = committed s"
    "i < n \<Longrightarrow> job_ok (area s) (committed s) (pcs (guard s) ! i) (jobs s ! i)"
  using assms unfolding view_inv_def lock_inv_def by blast+

lemma view_inv_start: "view_start n s \<Longrightarrow> view_inv n s"
  using lock_inv_start [of n "guard s"] by (auto simp: view_start_def view_inv_def lock_start_def)

text \<open>A thread outside its guard relies on nothing but the length of the area.\<close>

lemma job_ok_outside:
  "\<not> holding p \<Longrightarrow> job_ok a c p job \<Longrightarrow> length c' = length c \<Longrightarrow> job_ok a' c' p job"
  by (cases p) auto

text \<open>A step of thread \<open>i\<close>: what it has to show for itself, the others being undisturbed.\<close>

lemma view_inv_update:
  assumes inv: "view_inv n s" and i: "i < n"
    and pcs: "pcs (guard t) = (pcs (guard s))[i := p]" and jobs: "jobs t = (jobs s)[i := jb]"
    and len: "length (area t) = length (committed t)" "length (committed t) = length (committed s)"
    and lock: "lock_inv n (guard t)" and clean: "writers (guard t) = 0 \<Longrightarrow> area t = committed t"
    and ok: "job_ok (area t) (committed t) p jb"
    and others: "area t = area s \<and> committed t = committed s \<or> pcs (guard s) ! i = Writing"
  shows "view_inv n t"
proof -
  note D = view_inv_D [OF inv]
  have "job_ok (area t) (committed t) (pcs (guard t) ! j) (jobs t ! j)" if j: "j < n" for j
  proof (cases "j = i")
    case True
    then show ?thesis using ok i D(2,3) by (simp add: pcs jobs)
  next
    case False
    have "\<not> holding (pcs (guard s) ! j)" if "pcs (guard s) ! i = Writing"
      using lock_inv_exclusive [OF D(1)] i j False D(3) that by simp
    then show ?thesis
      using D(6) [OF j] job_ok_outside [OF _ D(6) [OF j] len(2)] others False by (auto simp: pcs jobs)
  qed
  then show ?thesis
    using lock clean len D(2) by (simp add: view_inv_def jobs)
qed

section \<open>Every step keeps it\<close>

lemma writers_update:
  assumes "i < length (pcs l)" "pcs l' = (pcs l)[i := p]" "pcs l ! i \<noteq> Writing"
  shows "writers l' = writers l + of_bool (p = Writing)"
  using pcs_update(1) [OF assms(1), of p Writing] assms(2,3) by simp

lemma job_enters:
  assumes "job_ok a c p jb" "waiting p" "lock_access h p v = Inr (q, v')" "holding q \<Longrightarrow> a = c"
  shows "job_ok a c q jb"
  using assms by (cases p) (auto simp: bind_eq_Inr split: if_splits)

lemma view_inv_wait:
  assumes inv: "view_inv n s" and n: "n < 2 ^ 31" and i: "i < n" and wait: "waiting (pcs (guard s) ! i)"
    and acc: "lock_access h (pcs (guard s) ! i) (lock_word (guard s)) = Inr (p, v)"
  shows "view_inv n (s\<lparr>guard := (guard s)\<lparr>lock_word := v, pcs := (pcs (guard s))[i := p]\<rparr>\<rparr>)"
proof -
  note D = view_inv_D [OF inv]
  let ?g = "(guard s)\<lparr>lock_word := v, pcs := (pcs (guard s))[i := p]\<rparr>"
  have lock: "lock_inv n ?g" using lock_inv_access [OF D(1) n _ acc] i D(3) by simp
  have "pcs (guard s) ! i \<noteq> Writing" using wait by auto
  then have w: "writers ?g = writers (guard s) + of_bool (p = Writing)"
    using i D(3) by (intro writers_update) simp_all
  have "writers (guard s) = 0" if "holding p"
  proof (cases "p = Writing")
    case True
    then show ?thesis using w lock by (auto simp: lock_inv_def split: if_splits)
  next
    case False
    then have "p = Reading" using that by (cases p) auto
    then show ?thesis using lock_inv_reading(1) [OF lock, of i] w i D(3) by simp
  qed
  then have ok: "job_ok (area s) (committed s) p (jobs s ! i)"
    using job_enters [OF D(6) [OF i] wait acc] D(5) by blast
  show ?thesis
    using lock ok D(4,5) w
    by (intro view_inv_update [OF inv i, where p = p and jb = "jobs s ! i"]) auto
qed


lemma lock_inv_set_pc:
  assumes "view_inv n s" "i < n" "pcs (guard s) ! i = Idle" "p = RLoad \<or> p = WCas \<or> p = Idle"
  shows "lock_inv n ((guard s)\<lparr>pcs := (pcs (guard s))[i := p]\<rparr>)"
    "writers ((guard s)\<lparr>pcs := (pcs (guard s))[i := p]\<rparr>) = writers (guard s)"
proof -
  note D = view_inv_D [OF assms(1)]
  show "lock_inv n ((guard s)\<lparr>pcs := (pcs (guard s))[i := p]\<rparr>)"
    using assms D(3) by (intro lock_inv_move [OF D(1)]) auto
  show "writers ((guard s)\<lparr>pcs := (pcs (guard s))[i := p]\<rparr>) = writers (guard s)"
    using assms D(3) pcs_update(1) [of i "guard s" p Writing] by auto
qed

lemma view_inv_step:
  assumes inv: "view_inv n s" and n: "n < 2 ^ 31" and step: "view_step h s t"
  shows "view_inv n t"
proof -
  note D = view_inv_D [OF inv]
  from step show ?thesis
  proof cases
    case (start_read i off m)
    then have i: "i < n" using D(3) by simp
    note L = lock_inv_set_pc [OF inv i start_read(3), of RLoad]
    show ?thesis
      using start_read L D(4,5)
      by (intro view_inv_update [OF inv i, where p = RLoad and jb = "ReadJob off (replicate m None)"]) auto
  next
    case (start_write i off bs)
    then have i: "i < n" using D(3) by simp
    note L = lock_inv_set_pc [OF inv i start_write(3), of WCas]
    show ?thesis
      using start_write L D(4,5)
      by (intro view_inv_update [OF inv i, where p = WCas and jb = "WriteJob off bs {..<length bs}"]) auto
  next
    case (wait i p v)
    then show ?thesis using view_inv_wait [OF inv n] D(3) by simp
  next
    case (wait_panic i e)
    then have i: "i < n" and p: "pcs (guard s) ! i = RLoad"
      using D(3) by (simp, cases "pcs (guard s) ! i") (auto split: if_splits)
    have L: "lock_inv n ((guard s)\<lparr>pcs := (pcs (guard s))[i := Idle]\<rparr>)"
      using p i D(3) by (intro lock_inv_move [OF D(1)]) auto
    have w: "writers ((guard s)\<lparr>pcs := (pcs (guard s))[i := Idle]\<rparr>) = writers (guard s)"
      using pcs_update(1) [of i "guard s" Idle Writing] p i D(3) by auto
    show ?thesis
      using wait_panic L w D(4,5)
      by (intro view_inv_update [OF inv i, where p = Idle and jb = NoJob]) auto
  next
    case (read_byte i off dst k)
    then have i: "i < n" using D(3) by simp
    have ok: "job_ok (area s) (committed s) Reading (ReadJob off dst)"
      using D(6) [OF i] unfolding read_byte(3,4) .
    then have "job_ok (area s) (committed s) Reading (ReadJob off (dst[k := Some (area s ! (off + k))]))"
      using read_byte(5) by (auto simp: nth_list_update)
    then show ?thesis
      using read_byte D(1,4,5) i D(3) list_update_id [of "pcs (guard s)" i]
      by (intro view_inv_update [OF inv i, where p = Reading
            and jb = "ReadJob off (dst[k := Some (area s ! (off + k))])"]) auto
  next
    case (write_byte i off bs todo k)
    then have i: "i < n" using D(3) by simp
    have ok: "job_ok (area s) (committed s) Writing (WriteJob off bs todo)"
      using D(6) [OF i] unfolding write_byte(3,4) .
    then have "job_ok ((area s)[off + k := bs ! k]) (committed s) Writing (WriteJob off bs (todo - {k}))"
      using write_byte(5) partly_written_next [of k todo bs off "committed s"] by auto
    then show ?thesis
      using write_byte D(1,4) i D(3) list_update_id [of "pcs (guard s)" i]
        lock_inv_writing(1) [OF D(1), of i]
      by (intro view_inv_update [OF inv i, where p = Writing and jb = "WriteJob off bs (todo - {k})"]) auto
  next
    case (end_read i off dst p v)
    then have i: "i < n" using D(3) by simp
    have p: "p = Idle" using end_read(6) by simp
    let ?g = "(guard s)\<lparr>lock_word := v, pcs := (pcs (guard s))[i := p]\<rparr>"
    have L: "lock_inv n ?g" using lock_inv_access [OF D(1) n, of i h p v] end_read(2,3,6) by simp
    have w: "writers ?g = writers (guard s)"
      using writers_update [of i "guard s" ?g p] end_read(2,3) p by simp
    show ?thesis
      using end_read L w D(4,5) p
      by (intro view_inv_update [OF inv i, where p = p and jb = NoJob]) auto
  next
    case (end_write i off bs todo p v)
    then have i: "i < n" using D(3) by simp
    have p: "p = Idle" using end_write(6) by simp
    let ?g = "(guard s)\<lparr>lock_word := v, pcs := (pcs (guard s))[i := p]\<rparr>"
    have L: "lock_inv n ?g" using lock_inv_access [OF D(1) n, of i h p v] end_write(2,3,6) by simp
    have "job_ok (area s) (committed s) Writing (WriteJob off bs todo)"
      using D(6) [OF i] unfolding end_write(3,4) .
    then have "area s = overwrite off bs (committed s)" "off + length bs \<le> length (committed s)"
      using end_write(5) partly_written_all [of off bs "committed s"] by simp_all
    then show ?thesis
      using end_write L p
      by (intro view_inv_update [OF inv i, where p = p and jb = NoJob]) auto
  qed
qed

text \<open>What the invariant says of a thread inside a guard.\<close>

lemma view_inv_jobs:
  assumes inv: "view_inv n s" and i: "i < n"
  shows "(\<forall>off dst. pcs (guard s) ! i = Reading \<and> jobs s ! i = ReadJob off dst \<longrightarrow>
      area s = committed s \<and> (\<forall>k < length dst. dst ! k \<in> {None, Some (committed s ! (off + k))})) \<and>
    (\<forall>off bs todo. pcs (guard s) ! i = Writing \<and> jobs s ! i = WriteJob off bs todo \<longrightarrow>
      area s = partly_written off bs todo (committed s) \<and>
      (\<forall>k < n. k \<noteq> i \<longrightarrow> \<not> holding (pcs (guard s) ! k)))"
proof -
  note D = view_inv_D [OF inv] and job = view_inv_D(6) [OF inv i]
  have "area s = committed s \<and> (\<forall>k < length dst. dst ! k \<in> {None, Some (committed s ! (off + k))})"
    if "pcs (guard s) ! i = Reading \<and> jobs s ! i = ReadJob off dst" for off dst
  proof -
    have "job_ok (area s) (committed s) Reading (ReadJob off dst)" using job that by metis
    then show ?thesis unfolding job_ok.simps by blast
  qed
  moreover have "area s = partly_written off bs todo (committed s) \<and>
      (\<forall>k < n. k \<noteq> i \<longrightarrow> \<not> holding (pcs (guard s) ! k))"
    if "pcs (guard s) ! i = Writing \<and> jobs s ! i = WriteJob off bs todo" for off bs todo
    using job that lock_inv_exclusive [OF D(1), of i] D(3) i by auto
  ultimately show ?thesis by blast
qed

interpretation view_system: invariant_system
  "view_start n" "view_step h" "\<lambda>s. n < 2 ^ 31 \<longrightarrow> view_inv n s"
  for n h
  by unfold_locales (auto simp: view_inv_start intro: view_inv_step)

end
