(* ===== verification/ViewProps.thy ===== *)
theory ViewProps
  imports ViewSafety ViewConc
begin

text \<open>
  The properties of the locked view: the file it is, its safety under interference, and the round trips
  between its writing and reading calls.
\<close>

section \<open>An example view\<close>

definition view16 :: mapped_view where
  "view16 = \<lparr>view_size = 20, view_cursor = 0\<rparr>"

definition region20 :: memory where
  "region20 = replicate 20 0"

lemma le_word_zeros [simp]: "le_word (replicate n 0) = 0"
  by (induction n) simp_all

lemma region20_holds: "view_holds le_host (view16, region20) (replicate 16 0, 0)"
  by (simp add: view_holds_def view_ok_def view16_def region20_def isize_max_def i32_at_def
      window_def from_ne_bytes_def)

lemma view16_ok: "view_ok view16 region20" "lock_val le_host region20 = 0"
  using view_holds_D [OF region20_holds] by simp_all

section \<open>Properties\<close>

text \<open>
  C8: A view of a region nobody else uses is a file of fixed length with a position: any sequence of
  read_all, read_range, write, seek, tell, read, read_mixed, write_mixed, zero, size and the queries
  of the lock answers what the specification file_call answers, error or value, never panics or
  spins, keeps the lock free and the cursor inside the data area, and leaves exactly the bytes and
  position the specification leaves.
\<close>

theorem view_is_file:
  assumes "view_ok v m" "lock_val h m = 0"
  shows "\<exists>v' m'. run_calls (quiet_call h) xs (v, m) =
      Some (fst (run_spec (file_call h) xs (drop 4 m, unat (view_cursor v))), v', m') \<and>
    view_ok v' m' \<and> lock_val h m' = 0 \<and>
    (drop 4 m', unat (view_cursor v')) = snd (run_spec (file_call h) xs (drop 4 m, unat (view_cursor v)))"
proof -
  have "view_holds h (v, m) (drop 4 m, unat (view_cursor v))"
    using assms by (simp add: view_holds_def)
  from view.run_sim [OF this, of xs] show ?thesis
    by (auto simp: view_holds_def)
qed

theorem view_is_file_witness:
  "\<exists>v' m'. run_calls (quiet_call le_host)
      [Write (PyBytes [1, 2, 3]) None, Seek 1, ReadRange 0 4, Write (PyBytes []) None] (view16, region20) =
    Some ([Seen Done, Seen Done, Seen (Got (PyBytes [1, 2, 3, 0])), Rejected], v', m')"
  using view_is_file [OF view16_ok, of
      "[Write (PyBytes [1, 2, 3]) None, Seek 1, ReadRange 0 4, Write (PyBytes []) None]"]
  by (auto simp: region20_def view16_def vec_extend_def isize_max_def file_pos_def file_move_def
      overwrite_def window_def)

text \<open>
  C9: Memory safety under interference: whatever other processes do to the bytes of the region and to
  the lock word before each access that a call makes of the lock, the release of its guard included (they
  only cannot change the size of the region), a call that returns has not touched memory outside the
  region, and the cursor is still inside the data area. The copy inside a guard is one step here.
\<close>

theorem view_safe:
  assumes "env_keeps env" "view_ok v m" "view_call h env x v m = Some (r, v', m')"
  shows "(\<forall>u. r \<noteq> Inl (UB u)) \<and> view_ok v' m'"
  using safe_view_call [OF assms(1,2), of h x] assms(3) by (auto simp: no_ub_Inl)

text \<open>
  Others who change every byte of the data area before every access, hold the lock at the first, release
  it before the second, and change even the lock word inside the guard.
\<close>

definition meddle :: env where
  "meddle n m = take (length m)
     ((if n = 0 then [255, 255, 255, 255] else if n = 1 then [0, 0, 0, 0]
       else if n = 2 then take 4 m else [9, 9, 9, 9]) @ map (\<lambda>b. b + of_nat (n + 1)) (drop 4 m))"

lemma meddle_keeps: "env_keeps meddle"
  by (auto simp: env_keeps_def meddle_def)

lemma meddle_runs:
  "meddle 0 [0, 0, 0, 0, 0, 0, 0, 0] = [255, 255, 255, 255, 1, 1, 1, 1]"
  "meddle (Suc 0) [255, 255, 255, 255, 1, 1, 1, 1] = [0, 0, 0, 0, 3, 3, 3, 3]"
  "meddle (Suc (Suc 0)) [0, 0, 0, 0, 3, 3, 3, 3] = [0, 0, 0, 0, 6, 6, 6, 6]"
  "meddle 3 [1, 0, 0, 0, 6, 6, 6, 6] = [9, 9, 9, 9, 10, 10, 10, 10]"
  by (simp_all add: meddle_def)

lemma meddled_lock:
  "read_lock le_host meddle 0 [0, 0, 0, 0, 0, 0, 0, 0] = Some (Inr 3, [1, 0, 0, 0, 6, 6, 6, 6])"
proof -
  have taken: "lock_val le_host [255, 255, 255, 255, 1, 1, 1, 1] = - 1"
    by (simp add: i32_at_def window_def from_ne_bytes_def)
  have free: "lock_val le_host [0, 0, 0, 0, 3, 3, 3, 3] = 0" "lock_val le_host [0, 0, 0, 0, 6, 6, 6, 6] = 0"
    by (simp_all add: i32_at_def window_def from_ne_bytes_def)
  have "le_bytes (Suc (Suc (Suc (Suc 0)))) (1 :: i32) = [1, 0, 0, 0]" by simp
  moreover have "Suc (Suc (Suc (Suc 0))) = 4" by simp
  ultimately have bytes: "le_bytes 4 (1 :: i32) = [1, 0, 0, 0]" by (simp only:)
  have one: "i32_upd le_host 0 1 [0, 0, 0, 0, 6, 6, 6, 6] = [1, 0, 0, 0, 6, 6, 6, 6]"
    using bytes by (simp add: i32_upd_def overwrite_def to_ne_bytes_def)
  have "read_lock le_host meddle (Suc 0) [255, 255, 255, 255, 1, 1, 1, 1] =
      Some (Inr (Suc 0 + 2), i32_upd le_host 0 1 (meddle (Suc (Suc 0)) (meddle (Suc 0) [255, 255, 255, 255, 1, 1, 1, 1])))"
    by (rule read_lock_enters [OF meddle_keeps]) (simp_all only: meddle_runs free, simp_all add: i32_add_def)
  also have "\<dots> = Some (Inr 3, [1, 0, 0, 0, 6, 6, 6, 6])"
    unfolding meddle_runs one by simp
  finally have "read_lock le_host meddle (Suc 0) [255, 255, 255, 255, 1, 1, 1, 1] =
      Some (Inr 3, [1, 0, 0, 0, 6, 6, 6, 6])" .
  moreover have "read_lock le_host meddle 0 [0, 0, 0, 0, 0, 0, 0, 0] =
      read_lock le_host meddle (Suc 0) (meddle 0 [0, 0, 0, 0, 0, 0, 0, 0])"
    by (rule read_lock_taken [OF meddle_keeps]) (simp_all add: meddle_runs taken)
  ultimately show ?thesis unfolding meddle_runs by (simp only:)
qed

lemma meddled_read:
  "\<exists>m. view_call le_host meddle (ReadRange 1 2) \<lparr>view_size = 8, view_cursor = 0\<rparr> [0, 0, 0, 0, 0, 0, 0, 0] =
     Some (Inr (Got (PyBytes [6, 6])), \<lparr>view_size = 8, view_cursor = 0\<rparr>, m)"
proof -
  let ?v = "\<lparr>view_size = 8, view_cursor = 0\<rparr>"
  have ok: "view_ok ?v [0, 0, 0, 0, 0, 0, 0, 0]" by (simp add: view_ok_def isize_max_def)
  have "\<exists>m. read_unlock le_host [9, 9, 9, 9, 10, 10, 10, 10] = Inr m"
    by (simp add: read_unlock_def i32_f.load_val i32_f.store_upd)
  then obtain m where "read_unlock le_host [9, 9, 9, 9, 10, 10, 10, 10] = Inr m" ..
  moreover have "raw_slice (data_at 1) 2 [1, 0, 0, 0, 6, 6, 6, 6] = Inr [6, 6]"
    by (simp add: raw_slice_def data_at_def rwlock_size_def window_def)
  ultimately show ?thesis
    by (simp add: read_range_def view_bounds_eq [OF ok] with_read_guard_def meddled_lock meddle_runs
        result_map_def)
qed

theorem view_safe_witness:
  "\<exists>v m. view_call le_host meddle (ReadRange 1 2) \<lparr>view_size = 8, view_cursor = 0\<rparr> [0, 0, 0, 0, 0, 0, 0, 0] =
     Some (Inr (Got (PyBytes [6, 6])), v, m) \<and> view_ok v m"
proof -
  have ok: "view_ok \<lparr>view_size = 8, view_cursor = 0\<rparr> [0, 0, 0, 0, 0, 0, 0, 0]"
    by (simp add: view_ok_def isize_max_def)
  from meddled_read view_safe [OF meddle_keeps ok] show ?thesis by metis
qed

text \<open>
  What is written is read back: on a view of a region nobody else uses, writing a value at the
  cursor, seeking back and reading with the matching tag gives the value, and the cursor ends where
  the write left it.
\<close>

theorem write_seek_read:
  assumes "host_ok h" "view_ok v m" "lock_val h m = 0" "readable tag x"
    and "pack_value h x [] = Inr bs" "unat (view_cursor v) + length bs \<le> length m - 4"
  shows "\<exists>v' m'. run_calls (quiet_call h) [Write x None, Seek (view_cursor v), Read tag] (v, m) =
      Some ([Seen Done, Seen Done, Seen (Got x)], v', m') \<and>
    unat (view_cursor v') = unat (view_cursor v) + length bs"
proof -
  let ?f = "(drop 4 m, unat (view_cursor v))"
  have holds: "view_holds h (v, m) ?f" using assms(2,3) by (simp add: view_holds_def)
  let ?c = "unat (view_cursor v)" and ?d = "overwrite (unat (view_cursor v)) bs (drop 4 m)"
  have "unpack_one h (bs @ []) tag = Inr (x, slice_len bs)"
    by (rule pack_unpack_one [OF assms(1,4,5)])
  then have n: "bs \<noteq> []" using unpack_one_bounds [of h bs tag x "slice_len bs"] by auto
  have "drop ?c ?d = bs @ drop (?c + length bs) (drop 4 m)"
    using assms(6) by (simp add: overwrite_def)
  then have rd: "unpack_one h (drop ?c ?d) tag = Inr (x, slice_len bs)"
    using pack_unpack_one [OF assms(1,4,5)] by simp
  have len: "length ?d = length m - 4" using assms(6) by simp
  have "unat (slice_len bs) = length bs"
    using pack_value_length [OF assms(5)] by simp
  then have "run_spec (file_call h) [Write x None, Seek (view_cursor v), Read tag] ?f =
      ([Seen Done, Seen Done, Seen (Got x)], ?d, ?c + length bs)"
    using n assms(5,6) rd len
    by (simp add: file_pos_def file_move_def del: length_overwrite)
  with view.run_sim [OF holds, of "[Write x None, Seek (view_cursor v), Read tag]"] show ?thesis
    by (auto simp: view_holds_def)
qed

theorem write_seek_read_witness:
  "\<exists>v' m'. run_calls (quiet_call le_host) [Write (PyInt 42) None, Seek 0, Read ''int''] (view16, region20) =
    Some ([Seen Done, Seen Done, Seen (Got (PyInt 42))], v', m')"
proof -
  have "pack_value le_host (PyInt 42) [] = Inr (to_ne_bytes LittleEndian (42 :: i64))"
    by (simp add: cpython_def in_i64_def vec_extend_def isize_max_def)
  then show ?thesis
    using write_seek_read [OF cpython_ok view16_ok, of "''int''" "PyInt 42"]
    by (auto simp: view16_def region20_def in_i64_def)
qed

text \<open>
  C27: Messages of several groups go through a view: on a region nobody else uses, write_mixed of
  groups at an offset followed by read_mixed at the same offset with the matching schema gives the
  groups, and neither moves the cursor.
\<close>

theorem write_read_mixed:
  assumes "host_ok h" "view_ok v m" "lock_val h m = 0" "list_all (group_ok h) gs"
    and "pack_mixed h (map group_item gs) = Inr bs" "bs \<noteq> []" "unat off + length bs \<le> length m - 4"
  shows "\<exists>v' m'. run_calls (quiet_call h)
      [WriteMixed (map group_item gs) (Some off), ReadMixed (map group_schema gs) (Some off)] (v, m) =
      Some ([Seen Done, Seen (Got (PyList (map group_result gs)))], v', m') \<and>
    view_cursor v' = view_cursor v"
proof -
  let ?f = "(drop 4 m, unat (view_cursor v))"
  let ?xs = "[WriteMixed (map group_item gs) (Some off), ReadMixed (map group_schema gs) (Some off)]"
  have holds: "view_holds h (v, m) ?f" using assms(2,3) by (simp add: view_holds_def)
  let ?d = "overwrite (unat off) bs (drop 4 m)"
  have "drop (unat off) ?d = bs @ drop (unat off + length bs) (drop 4 m)"
    using assms(7) by (simp add: overwrite_def)
  moreover have "length (bs @ drop (unat off + length bs) (drop 4 m)) \<le> isize_max"
    using assms(2,7) by (auto simp: view_ok_def)
  ultimately have rd: "unpack_mixed_counted h (drop (unat off) ?d) (map group_schema gs) =
      Inr (map group_result gs, slice_len bs)"
    using pack_unpack_mixed [OF assms(1,4,5)] by simp
  have "0 < length bs" using assms(6) by simp
  then have "unat off < length m - 4" using assms(7) by linarith
  then have lt: "\<not> length ?d \<le> unat off" using assms(7) by simp
  have "run_spec (file_call h) ?xs ?f =
      ([Seen Done, Seen (Got (PyList (map group_result gs)))], ?d, unat (view_cursor v))"
    using assms(5-7) rd lt by (simp add: file_pos_def file_move_def del: length_overwrite)
  with view.run_sim [OF holds, of ?xs] show ?thesis
    by (auto simp: view_holds_def simp flip: word_unat_eq_iff)
qed

theorem write_read_mixed_witness:
  "\<exists>v' m'. run_calls (quiet_call le_host)
      [WriteMixed [PyList [PyBool True, PyBool False]] (Some 3),
       ReadMixed [PyTuple [py_str ''bool'', PyInt 2]] (Some 3)] (view16, region20) =
    Some ([Seen Done, Seen (Got (PyList [PyList [PyBool True, PyBool False]]))], v', m')"
proof -
  let ?gs = "[(''bool'', [PyBool True, PyBool False])]"
  have "list_all (group_ok le_host) ?gs"
    by (simp add: group_ok_def element_body_def is_ascii_def)
  moreover have "pack_mixed le_host (map group_item ?gs) = Inr [1, 0]"
    by (simp add: pack_mixed_def group_item_def vec_extend_def isize_max_def)
  ultimately show ?thesis
    using write_read_mixed [OF cpython_ok view16_ok, of ?gs "[1, 0]" 3]
    by (auto simp: group_item_def group_schema_def group_result_def region20_def)
qed

text \<open>
  C23: A write is one step for everybody: whatever other processes do before and after, a write that
  returns without an error took the lock from 0 to -1 on some state of the region, replaced exactly
  the addressed bytes of the data area there, and released the lock at the end; the cursor moves only
  if no offset was given.
\<close>

theorem write_is_atomic:
  assumes "env_keeps env" "view_ok v m" "view_write h env v x off m = Some (Inr (), v', m')"
  shows "\<exists>bs m0 n. pack_value h x [] = Inr bs \<and> length m0 = length m \<and> lock_val h m0 = 0 \<and>
    4 + unat (position v off) + length bs \<le> length m \<and>
    m' = i32_upd h 0 0 (env n (overwrite (4 + unat (position v off)) bs (i32_upd h 0 (- 1) m0))) \<and>
    v' = (if off = None then advance (slice_len bs) v else v)"
proof -
  obtain bs where bs: "pack_value h x [] = Inr bs"
    and wp: "write_packed h env v bs off m = Some (Inr (), v', m')"
    using assms(3) by (auto simp: view_write_def before_def split: sum.splits)
  let ?body = "supd (copy_in (data_at (position v off)) bs)"
  obtain u where ok: "view_check_bounds h v (position v off) (slice_len bs) = Inr u"
    using wp by (auto simp: write_packed_def Let_def before_def split: sum.splits)
  have wg: "with_write_guard h env ?body m = Some (Inr (), m')"
    and v': "v' = (if off = None then advance (slice_len bs) v else v)"
    using wp ok by (auto simp: write_packed_def Let_def after_def split: option.splits sum.splits prod.splits)
  have len: "4 \<le> length m" using assms(2) by (simp add: view_ok_def)
  have fits: "4 + unat (position v off) + length bs \<le> length m"
    using check_bounds_fits [OF assms(2) ok] pack_value_length [OF bs] by simp
  obtain m0 n where m0: "length m0 = length m" "lock_val h m0 = 0"
    and m': "m' = i32_upd h 0 0 (env n (snd (?body (i32_upd h 0 (- 1) m0))))"
    using with_write_guard_effect [OF wg assms(1) len length_copy_in] by blast
  have "snd (?body (i32_upd h 0 (- 1) m0)) =
      overwrite (4 + unat (position v off)) bs (i32_upd h 0 (- 1) m0)"
    using fits len m0(1)
    by (simp add: supd_def copy_in_def data_at_def rwlock_size_def i32_f.upd_length)
  then show ?thesis using bs m0 m' v' fits by auto
qed

theorem write_is_atomic_witness:
  "\<exists>m0 n. length m0 = 20 \<and> lock_val le_host m0 = 0 \<and>
    overwrite 4 [1, 2] region20 = i32_upd le_host 0 0 (quiet n (overwrite 4 [1, 2] (i32_upd le_host 0 (- 1) m0)))"
proof -
  have l: "length region20 = 20" by (simp add: region20_def)
  have "with_write_guard le_host quiet (supd (copy_in (data_at 0) [1, 2])) region20 =
      Some (Inr (), overwrite (data_at 0) [1, 2] region20)"
    by (rule guarded_write) (simp_all add: view16_ok l)
  then have "view_write le_host quiet view16 (PyBytes [1, 2]) (Some 0) region20 =
      Some (Inr (), view16, overwrite 4 [1, 2] region20)"
    using view_ok_data_size [OF view16_ok(1)] l
    by (simp add: view_write_def vec_extend_def isize_max_def write_packed_def position_def
        slice_len_def view_bounds_eq [OF view16_ok(1)] data_at_def rwlock_size_def)
  from write_is_atomic [OF env_keeps_quiet view16_ok(1) this] show ?thesis
    by (auto simp: l position_def vec_extend_def isize_max_def)
qed


text \<open>
  No read is torn under sequential consistency: the system without stale loads of the lock word.
\<close>

theorem reads_not_torn:
  assumes "n < 2 ^ 31" "reach (view_start n) (view_step h) s" "i < n"
  shows "(\<forall>off dst. pcs (guard s) ! i = Reading \<and> jobs s ! i = ReadJob off dst \<longrightarrow>
      area s = committed s \<and> (\<forall>k < length dst. dst ! k \<in> {None, Some (committed s ! (off + k))})) \<and>
    (\<forall>off bs todo. pcs (guard s) ! i = Writing \<and> jobs s ! i = WriteJob off bs todo \<longrightarrow>
      area s = partly_written off bs todo (committed s) \<and>
      (\<forall>k < n. k \<noteq> i \<longrightarrow> \<not> holding (pcs (guard s) ! k)))"
  using view_system.reach_inv [OF assms(2)] view_inv_jobs [OF _ assms(3)] assms(1) by blast

end
