(* ===== verification/ViewWeak.thy ===== *)
theory ViewWeak
  imports ViewConc MemoryOrder
begin

text \<open>
  Calls of views under the memory model of the language: the steps of \<open>ViewConc\<close>, but a load of the lock
  word, a failed exchange included, may return any value of it not older than the last one the thread
  has seen; the copied bytes are ordered only by what the lock's accesses tell one another, and a data
  race on a byte is undefined behaviour.
\<close>

section \<open>The system\<close>

text \<open>
  The orderings of the accesses of the lock: the load and the exchange of \<open>read_lock\<close>, the decrement of
  \<open>read_unlock\<close>, the exchange of \<open>write_lock\<close> and the store of \<open>write_unlock\<close>. A failed exchange is relaxed.
\<close>

record lock_orderings =
  read_load :: ordering
  read_exchange :: ordering
  read_release :: ordering
  write_exchange :: ordering
  write_release :: ordering

definition source_lock_orderings :: lock_orderings where
  "source_lock_orderings =
     \<lparr>read_load = Acquire, read_exchange = AcqRel, read_release = Release,
      write_exchange = AcqRel, write_release = Release\<rparr>"

text \<open>
  A clock gives for each thread the time up to which its accesses are ahead. \<open>words\<close> are the values of
  the lock word in order, with what each tells, \<open>seen_word\<close> the newest that a thread has loaded, \<open>knows\<close>
  the clock of each thread, its own time included; \<open>written_at\<close> and \<open>read_at\<close> are the times of each
  thread's last write and read of each byte of the area.
\<close>

type_synonym clock = "nat \<Rightarrow> nat"

record weak_view =
  views :: view_sys
  words :: "(i32 \<times> clock) list"
  seen_word :: "nat \<Rightarrow> nat"
  knows :: "nat \<Rightarrow> clock"
  written_at :: "nat \<Rightarrow> clock"
  read_at :: "nat \<Rightarrow> clock"

abbreviation pc_of :: "weak_view \<Rightarrow> nat \<Rightarrow> pc" where
  "pc_of w i \<equiv> pcs (guard (views w)) ! i"

text \<open>Thread \<open>i\<close> may copy byte \<open>x\<close> next, and does not know of another thread's conflicting access.\<close>

fun next_bytes :: "pc \<Rightarrow> view_job \<Rightarrow> nat set" where
  "next_bytes Reading (ReadJob off dst) = {off + k | k. k < length dst \<and> dst ! k = None}"
| "next_bytes Writing (WriteJob off bs todo) = {off + k | k. k \<in> todo}"
| "next_bytes p job = {}"

definition view_races :: "weak_view \<Rightarrow> bool" where
  "view_races w \<longleftrightarrow>
     (\<exists>i < length (pcs (guard (views w))). \<exists>x \<in> next_bytes (pc_of w i) (jobs (views w) ! i). \<exists>j.
        knows w i j < written_at w x j \<or> pc_of w i = Writing \<and> knows w i j < read_at w x j)"

text \<open>
  The clock after an atomic access of thread \<open>i\<close> that stores: its time goes on. An exchange or a decrement
  passes on what the value it replaces tells; a plain store does not.
\<close>

definition pass_time :: "nat \<Rightarrow> clock \<Rightarrow> clock" where
  "pass_time i c = c(i := Suc (c i))"

definition exchange_order :: "lock_orderings \<Rightarrow> pc \<Rightarrow> ordering" where
  "exchange_order ords p = (if p = WCas then write_exchange ords else read_exchange ords)"

definition enter_guard :: "lock_orderings \<Rightarrow> nat \<Rightarrow> pc \<Rightarrow> i32 \<Rightarrow> weak_view \<Rightarrow> weak_view" where
  "enter_guard ords i q v w =
     (let s = views w; g = guard s; ord = exchange_order ords (pcs g ! i); t = snd (last (words w));
          c = learns ord t (knows w i) in
      w\<lparr>views := s\<lparr>guard := g\<lparr>lock_word := v, pcs := (pcs g)[i := q]\<rparr>\<rparr>,
        words := words w @ [(v, sup t (tells ord c))],
        seen_word := (seen_word w)(i := length (words w)),
        knows := (knows w)(i := pass_time i c)\<rparr>)"

definition leave_read :: "lock_orderings \<Rightarrow> nat \<Rightarrow> pc \<Rightarrow> i32 \<Rightarrow> weak_view \<Rightarrow> weak_view" where
  "leave_read ords i q v w =
     (let s = views w; g = guard s; c = knows w i in
      w\<lparr>views := s\<lparr>guard := g\<lparr>lock_word := v, pcs := (pcs g)[i := q]\<rparr>, jobs := (jobs s)[i := NoJob]\<rparr>,
        words := words w @ [(v, sup (snd (last (words w))) (tells (read_release ords) c))],
        seen_word := (seen_word w)(i := length (words w)),
        knows := (knows w)(i := pass_time i c)\<rparr>)"

definition leave_write :: "lock_orderings \<Rightarrow> nat \<Rightarrow> pc \<Rightarrow> i32 \<Rightarrow> nat \<Rightarrow> u8 list \<Rightarrow> weak_view \<Rightarrow> weak_view" where
  "leave_write ords i q v off bs w =
     (let s = views w; g = guard s; c = knows w i in
      w\<lparr>views := s\<lparr>guard := g\<lparr>lock_word := v, pcs := (pcs g)[i := q]\<rparr>, jobs := (jobs s)[i := NoJob],
          committed := overwrite off bs (committed s)\<rparr>,
        words := words w @ [(v, tells (write_release ords) c)],
        seen_word := (seen_word w)(i := length (words w)),
        knows := (knows w)(i := pass_time i c)\<rparr>)"

inductive weak_view_step :: "lock_orderings \<Rightarrow> host \<Rightarrow> weak_view \<Rightarrow> weak_view \<Rightarrow> bool"
  for ords :: lock_orderings and h :: host where
  weak_start_read: "i < length (pcs (guard (views w))) \<Longrightarrow> pc_of w i = Idle \<Longrightarrow>
    off + n \<le> length (area (views w)) \<Longrightarrow>
    weak_view_step ords h w (w\<lparr>views := (views w)\<lparr>
      guard := (guard (views w))\<lparr>pcs := (pcs (guard (views w)))[i := RLoad]\<rparr>,
      jobs := (jobs (views w))[i := ReadJob off (replicate n None)]\<rparr>\<rparr>)"
| weak_start_write: "i < length (pcs (guard (views w))) \<Longrightarrow> pc_of w i = Idle \<Longrightarrow>
    off + length bs \<le> length (area (views w)) \<Longrightarrow>
    weak_view_step ords h w (w\<lparr>views := (views w)\<lparr>
      guard := (guard (views w))\<lparr>pcs := (pcs (guard (views w)))[i := WCas]\<rparr>,
      jobs := (jobs (views w))[i := WriteJob off bs {..<length bs}]\<rparr>\<rparr>)"
| weak_wait: "i < length (pcs (guard (views w))) \<Longrightarrow> waiting (pc_of w i) \<Longrightarrow>
    seen_word w i \<le> j \<Longrightarrow> j < length (words w) \<Longrightarrow>
    lock_access h (pc_of w i) (fst (words w ! j)) = Inr (q, v) \<Longrightarrow> \<not> holding q \<Longrightarrow>
    weak_view_step ords h w (w\<lparr>views := (views w)\<lparr>
        guard := (guard (views w))\<lparr>pcs := (pcs (guard (views w)))[i := q]\<rparr>\<rparr>,
      seen_word := (seen_word w)(i := j),
      knows := (knows w)(i := learns (if pc_of w i = RLoad then read_load ords else Relaxed)
        (snd (words w ! j)) (knows w i))\<rparr>)"
| weak_wait_panic: "i < length (pcs (guard (views w))) \<Longrightarrow> waiting (pc_of w i) \<Longrightarrow>
    seen_word w i \<le> j \<Longrightarrow> j < length (words w) \<Longrightarrow>
    lock_access h (pc_of w i) (fst (words w ! j)) = Inl e \<Longrightarrow>
    weak_view_step ords h w (w\<lparr>views := (views w)\<lparr>
      guard := (guard (views w))\<lparr>pcs := (pcs (guard (views w)))[i := Idle]\<rparr>,
      jobs := (jobs (views w))[i := NoJob]\<rparr>\<rparr>)"
| weak_enter: "i < length (pcs (guard (views w))) \<Longrightarrow> waiting (pc_of w i) \<Longrightarrow>
    lock_access h (pc_of w i) (lock_word (guard (views w))) = Inr (q, v) \<Longrightarrow> holding q \<Longrightarrow>
    weak_view_step ords h w (enter_guard ords i q v w)"
| weak_read_byte: "\<not> view_races w \<Longrightarrow> i < length (pcs (guard (views w))) \<Longrightarrow> pc_of w i = Reading \<Longrightarrow>
    jobs (views w) ! i = ReadJob off dst \<Longrightarrow> k < length dst \<Longrightarrow> dst ! k = None \<Longrightarrow>
    weak_view_step ords h w (w\<lparr>views := (views w)\<lparr>
        jobs := (jobs (views w))[i := ReadJob off (dst[k := Some (area (views w) ! (off + k))])]\<rparr>,
      read_at := (read_at w)(off + k := (read_at w (off + k))(i := knows w i i))\<rparr>)"
| weak_write_byte: "\<not> view_races w \<Longrightarrow> i < length (pcs (guard (views w))) \<Longrightarrow> pc_of w i = Writing \<Longrightarrow>
    jobs (views w) ! i = WriteJob off bs todo \<Longrightarrow> k \<in> todo \<Longrightarrow>
    weak_view_step ords h w (w\<lparr>views := (views w)\<lparr>
        jobs := (jobs (views w))[i := WriteJob off bs (todo - {k})],
        area := (area (views w))[off + k := bs ! k]\<rparr>,
      written_at := (written_at w)(off + k := (written_at w (off + k))(i := knows w i i))\<rparr>)"
| weak_end_read: "i < length (pcs (guard (views w))) \<Longrightarrow> pc_of w i = Reading \<Longrightarrow>
    jobs (views w) ! i = ReadJob off dst \<Longrightarrow> None \<notin> set dst \<Longrightarrow>
    lock_access h Reading (lock_word (guard (views w))) = Inr (q, v) \<Longrightarrow>
    weak_view_step ords h w (leave_read ords i q v w)"
| weak_end_write: "i < length (pcs (guard (views w))) \<Longrightarrow> pc_of w i = Writing \<Longrightarrow>
    jobs (views w) ! i = WriteJob off bs todo \<Longrightarrow> todo = {} \<Longrightarrow>
    lock_access h Writing (lock_word (guard (views w))) = Inr (q, v) \<Longrightarrow>
    weak_view_step ords h w (leave_write ords i q v off bs w)"
| undefined_behaviour: "view_races w \<Longrightarrow> weak_view_step ords h w t"

definition weak_view_start :: "nat \<Rightarrow> weak_view \<Rightarrow> bool" where
  "weak_view_start n w \<longleftrightarrow> view_start n (views w) \<and> words w = [(0, bot)] \<and>
     seen_word w = (\<lambda>_. 0) \<and> knows w = (\<lambda>i. bot(i := 1)) \<and>
     written_at w = (\<lambda>_. bot) \<and> read_at w = (\<lambda>_. bot)"

section \<open>The invariant of the calls\<close>

lemma view_inv_outside:
  assumes inv: "view_inv n s" and i: "i < n" and "\<not> holding (pcs (guard s) ! i)" "\<not> holding p"
    and "\<And>v. p = RCas v \<Longrightarrow> 0 \<le> sint v" and job: "job_ok (area s) (committed s) p jb"
  shows "view_inv n (s\<lparr>guard := (guard s)\<lparr>pcs := (pcs (guard s))[i := p]\<rparr>, jobs := (jobs s)[i := jb]\<rparr>)"
proof -
  note D = view_inv_D [OF inv]
  have lock: "lock_inv n ((guard s)\<lparr>pcs := (pcs (guard s))[i := p]\<rparr>)"
    using assms D(3) by (intro lock_inv_move [OF D(1)]) auto
  have "pcs (guard s) ! i \<noteq> Writing" "p \<noteq> Writing" using assms(3,4) by auto
  then have "writers ((guard s)\<lparr>pcs := (pcs (guard s))[i := p]\<rparr>) = writers (guard s)"
    using pcs_update(1) [of i "guard s" p Writing] i D(3) by simp
  then show ?thesis
    using lock job D(4,5) by (intro view_inv_update [OF inv i, where p = p and jb = jb]) auto
qed

lemma weak_wait_moves:
  assumes "lock_access h p u = Inr (q, v)" "waiting p" "\<not> holding q" "job_ok a c p jb"
  shows "q = RCas w \<Longrightarrow> 0 \<le> sint w" "waiting q" "job_ok a c q jb"
  using assms by (cases p; auto simp: bind_eq_Inr split: if_splits)+

lemma weak_view_inv_step:
  assumes inv: "view_inv n (views w)" and n: "n < 2 ^ 31" and step: "weak_view_step ords h w t"
    and ok: "\<not> view_races w"
  shows "view_inv n (views t)"
proof -
  note D = view_inv_D [OF inv]
  note sc = view_inv_step [OF inv n]
  from step show ?thesis
  proof cases
    case (weak_start_read i off m)
    then show ?thesis using sc [OF view_step.start_read] by simp
  next
    case (weak_start_write i off bs)
    then show ?thesis using sc [OF view_step.start_write] by simp
  next
    case (weak_wait i j q v)
    then have i: "i < n" using D(3) by simp
    note moves = weak_wait_moves [OF weak_wait(6,3,7) D(6) [OF i]]
    have "\<not> holding (pc_of w i)" using weak_wait(3) by (cases "pc_of w i") auto
    then show ?thesis
      using view_inv_outside [OF inv i _ weak_wait(7), where jb = "jobs (views w) ! i"] moves weak_wait(1) by simp
  next
    case (weak_wait_panic i j e)
    then have "i < n" "\<not> holding (pc_of w i)" using D(3) by (simp, cases "pc_of w i") auto
    then show ?thesis
      using view_inv_outside [OF inv, where p = Idle and jb = NoJob] weak_wait_panic(1) by simp
  next
    case (weak_enter i q v)
    then show ?thesis
      using sc [OF view_step.wait [of i "views w" h q v]] by (simp add: enter_guard_def Let_def)
  next
    case (weak_read_byte i off dst k)
    then show ?thesis using sc [OF view_step.read_byte] by simp
  next
    case (weak_write_byte i off bs todo k)
    then show ?thesis using sc [OF view_step.write_byte] by simp
  next
    case (weak_end_read i off dst q v)
    then show ?thesis
      using sc [OF view_step.end_read [of i "views w" off dst h q v]] by (simp add: leave_read_def Let_def)
  next
    case (weak_end_write i off bs todo q v)
    then show ?thesis
      using sc [OF view_step.end_write [of i "views w" off bs todo h q v]] by (simp add: leave_write_def Let_def)
  qed (use ok in simp)
qed

section \<open>What the threads know\<close>

definition lock_synchronised :: "lock_orderings \<Rightarrow> bool" where
  "lock_synchronised ords \<longleftrightarrow>
     acquires (read_exchange ords) \<and> releases (read_release ords) \<and>
     acquires (write_exchange ords) \<and> releases (write_release ords)"

text \<open>
  The newest value of the lock word tells of the writes of every thread that is not writing and of the
  reads of every thread that is not reading; who is inside knows of the accesses it conflicts with.
\<close>

definition knows_inv :: "weak_view \<Rightarrow> bool" where
  "knows_inv w \<longleftrightarrow>
     words w \<noteq> [] \<and>
     (\<forall>i x. written_at w x i \<le> knows w i i \<and> read_at w x i \<le> knows w i i) \<and>
     (\<forall>i x. \<not> (i < length (pcs (guard (views w))) \<and> pc_of w i = Writing) \<longrightarrow>
        written_at w x i \<le> snd (last (words w)) i) \<and>
     (\<forall>i x. \<not> (i < length (pcs (guard (views w))) \<and> pc_of w i = Reading) \<longrightarrow>
        read_at w x i \<le> snd (last (words w)) i) \<and>
     (\<forall>i < length (pcs (guard (views w))). pc_of w i = Reading \<or> pc_of w i = Writing \<longrightarrow>
        (\<forall>x j. written_at w x j \<le> knows w i j)) \<and>
     (\<forall>i < length (pcs (guard (views w))). pc_of w i = Writing \<longrightarrow> (\<forall>x j. read_at w x j \<le> knows w i j))"

lemma knows_inv_D:
  assumes "knows_inv w"
  shows "words w \<noteq> []" "written_at w x i \<le> knows w i i" "read_at w x i \<le> knows w i i"
    "i < length (pcs (guard (views w))) \<and> pc_of w i = Writing \<or> written_at w x i \<le> snd (last (words w)) i"
    "i < length (pcs (guard (views w))) \<and> pc_of w i = Reading \<or> read_at w x i \<le> snd (last (words w)) i"
    "i < length (pcs (guard (views w))) \<Longrightarrow> pc_of w i = Reading \<or> pc_of w i = Writing \<Longrightarrow>
      written_at w x j \<le> knows w i j"
    "i < length (pcs (guard (views w))) \<Longrightarrow> pc_of w i = Writing \<Longrightarrow> read_at w x j \<le> knows w i j"
  using assms unfolding knows_inv_def by blast+

lemma knows_inv_start: "weak_view_start n w \<Longrightarrow> knows_inv w"
  by (auto simp: knows_inv_def weak_view_start_def view_start_def lock_start_def)

lemma knows_no_race: "knows_inv w \<Longrightarrow> \<not> view_races w"
proof
  assume inv: "knows_inv w" and "view_races w"
  then obtain i x j where i: "i < length (pcs (guard (views w)))" "x \<in> next_bytes (pc_of w i) (jobs (views w) ! i)"
    and r: "knows w i j < written_at w x j \<or> pc_of w i = Writing \<and> knows w i j < read_at w x j"
    by (auto simp: view_races_def)
  have "pc_of w i = Reading \<or> pc_of w i = Writing"
    using i(2) by (cases "pc_of w i") auto
  then show False
    using r knows_inv_D(6) [OF inv i(1), of x j] knows_inv_D(7) [OF inv i(1), of x j] by auto
qed

lemma pass_time_le: "c j \<le> pass_time i c j"
  by (simp add: pass_time_def)

text \<open>Changes that leave every thread outside its guard or as it was.\<close>

lemma knows_inv_more:
  assumes inv: "knows_inv w" and len: "length (pcs (guard (views t))) = length (pcs (guard (views w)))"
    and pc: "\<And>i. i < length (pcs (guard (views w))) \<Longrightarrow> pc_of t i = pc_of w i \<or>
      \<not> holding (pc_of w i) \<and> \<not> holding (pc_of t i)"
    and same: "words t = words w" "written_at t = written_at w" "read_at t = read_at w"
    and more: "\<And>i j. knows w i j \<le> knows t i j"
  shows "knows_inv t"
proof -
  note K = knows_inv_D [OF inv]
  have out: "pc_of t i = p \<longleftrightarrow> pc_of w i = p" if "i < length (pcs (guard (views w)))" "holding p" for i p
    using pc [OF that(1)] that(2) by auto
  have "written_at w x i \<le> knows t i i \<and> read_at w x i \<le> knows t i i" for i x
    using K(2,3) [of x i] more [of i i] by (meson order_trans)
  moreover have "i < length (pcs (guard (views w))) \<and> pc_of t i = Writing \<or> written_at w x i \<le> snd (last (words w)) i"
    "i < length (pcs (guard (views w))) \<and> pc_of t i = Reading \<or> read_at w x i \<le> snd (last (words w)) i" for i x
    using K(4,5) [of i x] out by auto
  moreover have "written_at w x j \<le> knows t i j"
    if "i < length (pcs (guard (views w)))" "pc_of t i = Reading \<or> pc_of t i = Writing" for i x j
    using order_trans [OF K(6) [OF that(1), of x j] more] out [OF that(1), of Reading] out [OF that(1), of Writing]
      that(2) by auto
  moreover have "read_at w x j \<le> knows t i j"
    if "i < length (pcs (guard (views w)))" "pc_of t i = Writing" for i x j
    using order_trans [OF K(7) [OF that(1), of x j] more] out [OF that(1), of Writing] that(2) by auto
  ultimately show ?thesis
    using K(1) unfolding knows_inv_def same len by blast
qed

lemma enter_alone:
  assumes inv: "lock_inv n g" and acc: "lock_access h p (lock_word g) = Inr (q, v)"
    and p: "p \<in> set (pcs g)" "waiting p" and q: "holding q" and j: "j < length (pcs g)"
  shows "pcs g ! j \<noteq> Writing" "q = Writing \<Longrightarrow> pcs g ! j \<noteq> Reading" "q = Reading \<or> q = Writing"
proof -
  have pos: "0 \<le> sint (lock_word g) \<and> (q = Reading \<or> q = Writing \<and> lock_word g = 0)"
    using acc p q inv by (cases p) (auto simp: lock_inv_def bind_eq_Inr split: if_splits)
  then show "q = Reading \<or> q = Writing" by blast
  show "pcs g ! j \<noteq> Writing"
    using lock_inv_writing(3) [OF inv j] pos by auto
  show "pcs g ! j \<noteq> Reading" if "q = Writing"
    using lock_inv_reading(2,3) [OF inv j] pos that by auto
qed

lemma knows_inv_enter:
  assumes inv: "knows_inv w" and lock: "lock_inv n (guard (views w))"
    and i: "i < length (pcs (guard (views w)))" "waiting (pc_of w i)"
    and acc: "lock_access h (pc_of w i) (lock_word (guard (views w))) = Inr (q, v)" "holding q"
    and sync: "acquires (exchange_order ords (pc_of w i))"
  shows "knows_inv (enter_guard ords i q v w)"
proof -
  note K = knows_inv_D [OF inv]
  let ?n = "length (pcs (guard (views w)))" and ?T = "snd (last (words w))"
    and ?ord = "exchange_order ords (pc_of w i)"
  let ?c = "learns ?ord ?T (knows w i)"
  let ?k = "pass_time i ?c"
  have "pc_of w i \<in> set (pcs (guard (views w)))" using i(1) by simp
  note alone = enter_alone [OF lock acc(1) this i(2) acc(2)]
  have pc_i: "pc_of w i \<noteq> Reading" "pc_of w i \<noteq> Writing" using i(2) by auto
  have T: "?T j \<le> ?k j" and mine: "knows w i j \<le> ?k j" for j
    using le_funD [OF learns_told [OF sync order_refl, of ?T "knows w i"], of j]
      le_funD [OF learns_known [OF order_refl, of "knows w i" ?ord ?T], of j] pass_time_le [of ?c j i]
    by (meson order_trans)+
  have T': "?T j \<le> sup ?T (tells ?ord ?c) j" for j by (rule le_funD [OF sup_ge1])
  have A: "written_at w x j \<le> ?T j" for x j using K(4) [of j x] alone(1) by auto
  have B: "read_at w x j \<le> ?T j" if "pcs (guard (views w)) ! j \<noteq> Reading \<or> \<not> j < ?n" for x j
    using K(5) [of j x] that by auto
  have "written_at w x j \<le> ?k j" "q = Writing \<Longrightarrow> read_at w x j \<le> ?k j"
    "written_at w x j \<le> sup ?T (tells ?ord ?c) j"
    "\<not> (j < ?n \<and> pc_of w j = Reading) \<Longrightarrow> read_at w x j \<le> sup ?T (tells ?ord ?c) j" for x j
    using A [of x j] T [of j] T' [of j] B [of j x] alone(2) by (meson order_trans)+
  moreover have "written_at w x i \<le> ?k i" "read_at w x i \<le> ?k i" for x
    using K(2,3) [of x i] mine [of i] by (meson order_trans)+
  ultimately show ?thesis
    using K(2,3,6,7) pc_i i(1)
    by (auto simp: knows_inv_def enter_guard_def Let_def nth_list_update)
qed

lemma knows_inv_leave_read:
  assumes inv: "knows_inv w" and i: "i < length (pcs (guard (views w)))" "pc_of w i = Reading"
    and sync: "releases (read_release ords)"
  shows "knows_inv (leave_read ords i Idle v w)"
proof -
  note K = knows_inv_D [OF inv]
  let ?n = "length (pcs (guard (views w)))" and ?T = "snd (last (words w))"
  let ?T' = "sup ?T (tells (read_release ords) (knows w i))"
  have T': "?T j \<le> ?T' j" "knows w i j \<le> ?T' j" for j
    using sync by (simp_all add: tells_def)
  have "written_at w x j \<le> ?T' j" if "\<not> (j < ?n \<and> pc_of w j = Writing)" for x j
    using K(4) [of j x] that T'(1) [of j] by (meson order_trans)
  moreover have "read_at w x j \<le> ?T' j" if "\<not> (j < ?n \<and> pc_of w j = Reading) \<or> j = i" for x j
    using K(5) [of j x] K(3) [of x i] that T' [of j] by (metis order_trans)
  moreover have mine: "written_at w x j \<le> pass_time i (knows w i) j" for x j
    using K(6) [OF i(1), of x j] i(2) pass_time_le [of "knows w i" j i] by (meson order_trans)
  moreover have "read_at w x i \<le> pass_time i (knows w i) i" for x
    using K(3) [of x i] pass_time_le [of "knows w i" i i] by (meson order_trans)
  ultimately show ?thesis
    using K(2,3,6,7) i by (auto simp: knows_inv_def leave_read_def Let_def nth_list_update)
qed

lemma knows_inv_leave_write:
  assumes inv: "knows_inv w" and lock: "lock_inv n (guard (views w))"
    and i: "i < length (pcs (guard (views w)))" "pc_of w i = Writing"
    and sync: "releases (write_release ords)"
  shows "knows_inv (leave_write ords i Idle v off bs w)"
proof -
  note K = knows_inv_D [OF inv]
  have T': "tells (write_release ords) (knows w i) = knows w i" using sync by (simp add: tells_def)
  have mine: "written_at w x j \<le> knows w i j" "read_at w x j \<le> knows w i j" for x j
    using K(6,7) [OF i(1), of x j] i(2) by simp_all
  then have "written_at w x j \<le> pass_time i (knows w i) j" "read_at w x j \<le> pass_time i (knows w i) j" for x j
    using pass_time_le [of "knows w i" j i] by (meson order_trans)+
  moreover have "\<not> holding (pc_of w j)" if "j < length (pcs (guard (views w)))" "j \<noteq> i" for j
    using lock_inv_exclusive [OF lock i(1) that(1) _ i(2)] that(2) by auto
  then have "pc_of w j \<noteq> Writing" "pc_of w j \<noteq> Reading" if "j < length (pcs (guard (views w)))" "j \<noteq> i" for j
    using that by fastforce+
  ultimately show ?thesis
    using K(2,3) i mine by (auto simp: knows_inv_def leave_write_def Let_def nth_list_update T')
qed

lemma knows_inv_step:
  assumes sync: "lock_synchronised ords" and view: "view_inv n (views w)" and inv: "knows_inv w"
    and step: "weak_view_step ords h w t"
  shows "knows_inv t"
proof -
  note D = view_inv_D [OF view] and K = knows_inv_D [OF inv]
  from step show ?thesis
  proof cases
    case (weak_wait i j q v)
    have "\<not> holding (pc_of w i)" using weak_wait(3) by (cases "pc_of w i") auto
    then show ?thesis
      using weak_wait(1,2,7) learns_known [OF order_refl, of "knows w i"]
      by (intro knows_inv_more [OF inv]) (auto simp: nth_list_update le_fun_def)
  next
    case (weak_wait_panic i j e)
    have "\<not> holding (pc_of w i)" using weak_wait_panic(3) by (cases "pc_of w i") auto
    then show ?thesis
      using weak_wait_panic(1,2) by (intro knows_inv_more [OF inv]) (auto simp: nth_list_update)
  next
    case (weak_enter i q v)
    then show ?thesis
      using knows_inv_enter [OF inv D(1)] sync
      by (auto simp: lock_synchronised_def exchange_order_def)
  next
    case (weak_read_byte i off dst k)
    have quiet: "pc_of w j \<noteq> Writing" if "j < length (pcs (guard (views w)))" for j
      using lock_inv_writing(2) [OF D(1) that] lock_inv_reading(2) [OF D(1) weak_read_byte(3,4)] by auto
    then have "written_at w x j \<le> snd (last (words w)) j" for x j using K(4) by blast
    moreover have "read_at w x j \<le> snd (last (words w)) j"
      if "j < length (pcs (guard (views w))) \<longrightarrow> pc_of w j \<noteq> Reading" for x j
      using K(5) [of j x] that by auto
    ultimately show ?thesis
      using K(1-3,6) weak_read_byte(1,3,4) quiet by (simp add: knows_inv_def)
  next
    case (weak_write_byte i off bs todo k)
    have quiet: "pc_of w j \<noteq> Reading \<and> pc_of w j \<noteq> Writing"
      if "j < length (pcs (guard (views w)))" "j \<noteq> i" for j
      using lock_inv_exclusive [OF D(1) weak_write_byte(3) that(1) _ weak_write_byte(4)] that(2) by auto
    then have A: "written_at w x j \<le> snd (last (words w)) j" if "j \<noteq> i" for x j
      using K(4) [of j x] that by auto
    have B: "read_at w x j \<le> snd (last (words w)) j"
      if "j < length (pcs (guard (views w))) \<longrightarrow> pc_of w j \<noteq> Reading" for x j
      using K(5) [of j x] that by auto
    have C: "written_at w x j \<le> knows w i j" "read_at w x j \<le> knows w i j" for x j
      using K(6,7) [OF weak_write_byte(3), of x j] weak_write_byte(4) by simp_all
    have t: "written_at t x j = (if x = off + k \<and> j = i then knows w i i else written_at w x j)"
      "pcs (guard (views t)) = pcs (guard (views w))" "read_at t = read_at w" "words t = words w" "knows t = knows w"
      for x j
      using weak_write_byte(1) by simp_all
    show ?thesis
      unfolding knows_inv_def t
    proof (intro conjI allI impI)
      fix j x l
      show "words w \<noteq> []" by (rule K(1))
      show "(if x = off + k \<and> j = i then knows w i i else written_at w x j) \<le> knows w j j"
        "read_at w x j \<le> knows w j j"
        using K(2,3) by simp_all
      show "(if x = off + k \<and> j = i then knows w i i else written_at w x j) \<le> snd (last (words w)) j"
        if "\<not> (j < length (pcs (guard (views w))) \<and> pc_of w j = Writing)"
        using A that weak_write_byte(3,4) by (cases "j = i") simp_all
      show "read_at w x j \<le> snd (last (words w)) j"
        if "\<not> (j < length (pcs (guard (views w))) \<and> pc_of w j = Reading)"
        using B that by blast
      show "(if x = off + k \<and> l = i then knows w i i else written_at w x l) \<le> knows w j l"
        if "j < length (pcs (guard (views w)))" "pc_of w j = Reading \<or> pc_of w j = Writing"
        using C quiet [OF that(1)] that(2) by (cases "j = i") auto
      show "read_at w x l \<le> knows w j l" if "j < length (pcs (guard (views w)))" "pc_of w j = Writing"
        using C quiet [OF that(1)] that(2) by (cases "j = i") auto
    qed
  next
    case (weak_end_read i off dst q v)
    then show ?thesis
      using knows_inv_leave_read [OF inv] sync by (simp add: lock_synchronised_def)
  next
    case (weak_end_write i off bs todo q v)
    then show ?thesis
      using knows_inv_leave_write [OF inv D(1)] sync by (simp add: lock_synchronised_def)
  next
    case undefined_behaviour
    then show ?thesis using knows_no_race [OF inv] by simp
  qed (intro knows_inv_more [OF inv]; auto simp: nth_list_update)+
qed

interpretation weak_views: invariant_system
  "weak_view_start n" "weak_view_step ords h"
  "\<lambda>w. n < 2 ^ 31 \<and> lock_synchronised ords \<longrightarrow> view_inv n (views w) \<and> knows_inv w"
  for n ords h
proof
  show "weak_view_start n w \<Longrightarrow> n < 2 ^ 31 \<and> lock_synchronised ords \<longrightarrow> view_inv n (views w) \<and> knows_inv w" for w
    using view_inv_start knows_inv_start by (auto simp: weak_view_start_def)
  show "n < 2 ^ 31 \<and> lock_synchronised ords \<longrightarrow> view_inv n (views w) \<and> knows_inv w \<Longrightarrow>
      weak_view_step ords h w t \<Longrightarrow>
      n < 2 ^ 31 \<and> lock_synchronised ords \<longrightarrow> view_inv n (views t) \<and> knows_inv t" for w t
    using weak_view_inv_step knows_inv_step knows_no_race by blast
qed

end
