(* ===== verification/ViewLinear.thy ===== *)
theory ViewLinear
  imports ViewWeak ViewSpec
begin

text \<open>
  The guarded copies of \<open>ViewWeak\<close> as calls: what each returns when it leaves its guard, and that these
  answers, in the order in which the threads leave, are those of one file (\<open>file_call\<close>) to which
  the calls are made one after the other.
\<close>

section \<open>Answers\<close>

text \<open>The call a finished copy amounts to, with its answer; a copy of no bytes is none.\<close>

fun copied :: "view_job \<Rightarrow> (view_op \<times> view_seen) list" where
  "copied (ReadJob off dst) =
     (if dst = [] then []
      else [(ReadRange (of_nat off) (of_nat (length dst)), Seen (Got (PyBytes (map the dst))))])"
| "copied (WriteJob off bs todo) =
     (if bs = [] then [] else [(Write (PyBytes bs) (Some (of_nat off)), Seen Done)])"
| "copied NoJob = []"

text \<open>What threads return in a step: those that leave a guard.\<close>

definition returned :: "view_sys \<Rightarrow> view_sys \<Rightarrow> (view_op \<times> view_seen) list" where
  "returned s t =
     concat (map (\<lambda>i. if holding (pcs (guard s) ! i) \<and> pcs (guard t) ! i = Idle then copied (jobs s ! i) else [])
       [0..<length (pcs (guard s))])"

inductive weak_view_trace ::
    "lock_orderings \<Rightarrow> host \<Rightarrow> weak_view \<Rightarrow> (view_op \<times> view_seen) list \<Rightarrow> weak_view \<Rightarrow> bool"
  for ords :: lock_orderings and h :: host and w :: weak_view where
  trace_start: "weak_view_trace ords h w [] w"
| trace_step: "weak_view_trace ords h w es u \<Longrightarrow> weak_view_step ords h u t \<Longrightarrow>
    weak_view_trace ords h w (es @ returned (views u) (views t)) t"

lemma trace_reach:
  "weak_view_trace ords h w es t \<Longrightarrow> weak_view_start n w \<Longrightarrow> reach (weak_view_start n) (weak_view_step ords h) t"
  by (induction rule: weak_view_trace.induct) (auto intro: reach.intros)

section \<open>One thread at a time\<close>

lemma concat_single:
  "concat (map (\<lambda>j. if j = i then xs else []) [0..<n]) = (if i < n then xs else [])"
  by (induction n) auto

lemma returned_one:
  assumes "pcs (guard t) = (pcs (guard s))[i := q]" "i < length (pcs (guard s))"
  shows "returned s t = (if holding (pcs (guard s) ! i) \<and> q = Idle then copied (jobs s ! i) else [])"
proof -
  let ?xs = "if holding (pcs (guard s) ! i) \<and> q = Idle then copied (jobs s ! i) else []"
  have "returned s t = concat (map (\<lambda>j. if j = i then ?xs else []) [0..<length (pcs (guard s))])"
    unfolding returned_def assms(1)
    by (rule arg_cong [where f = concat], rule map_cong) (use assms(2) in \<open>auto simp: nth_list_update\<close>)
  then show ?thesis using assms(2) by (simp only: concat_single if_True)
qed

lemma trace_quiet:
  assumes "weak_view_trace ords h w es u" "weak_view_step ords h u t"
    and "pcs (guard (views t)) = (pcs (guard (views u)))[i := q]" "i < length (pcs (guard (views u)))"
    and "\<not> holding (pc_of u i) \<or> q \<noteq> Idle"
  shows "weak_view_trace ords h w es t"
  using trace_step [OF assms(1,2)] returned_one [OF assms(3,4)] assms(5) by auto

lemma trace_leaves:
  assumes "weak_view_trace ords h w es u" "weak_view_step ords h u t"
    and "pcs (guard (views t)) = (pcs (guard (views u)))[i := Idle]" "i < length (pcs (guard (views u)))"
    and "holding (pc_of u i)" "es' = es @ copied (jobs (views u) ! i)"
  shows "weak_view_trace ords h w es' t"
  using trace_step [OF assms(1,2)] returned_one [OF assms(3,4)] assms(5,6) by simp

section \<open>The specification\<close>

lemma unat_of_nat_size: "n \<le> isize_max \<Longrightarrow> unat (of_nat n :: usize) = n"
  by (simp add: unat_of_nat_isize)

text \<open>A finished copy answers as the file does and leaves it as the file becomes.\<close>

lemma copied_read:
  assumes "off + length dst \<le> length c" "length c \<le> isize_max" "None \<notin> set dst"
    and "\<forall>k < length dst. dst ! k \<in> {None, Some (c ! (off + k))}"
  shows "run_spec (file_call h) (map fst (copied (ReadJob off dst))) (c, p) =
    (map snd (copied (ReadJob off dst)), c, p)"
proof -
  have "dst ! k = Some (c ! (off + k))" if k: "k < length dst" for k
    using assms(3,4) nth_mem [OF k] k by (metis insert_iff singletonD)
  then have "map the dst = window off (length dst) c"
    using assms(1) by (intro nth_equalityI) (auto simp: window_def)
  moreover have "unat (of_nat off :: usize) = off" "unat (of_nat (length dst) :: usize) = length dst"
    using assms(1,2) by (simp_all add: unat_of_nat_size)
  moreover have "dst \<noteq> [] \<Longrightarrow> (of_nat (length dst) :: usize) \<noteq> 0"
    using calculation(3) by (metis length_0_conv unat_0)
  ultimately show ?thesis using assms(1) by simp
qed

lemma copied_write:
  assumes "off + length bs \<le> length c" "length c \<le> isize_max"
  shows "run_spec (file_call h) (map fst (copied (WriteJob off bs todo))) (c, p) =
    (map snd (copied (WriteJob off bs todo)), overwrite off bs c, p)"
proof -
  have "unat (of_nat off :: usize) = off" using assms by (simp add: unat_of_nat_size)
  moreover have "pack_value h (PyBytes bs) [] = Inr bs" using assms by (simp add: vec_extend_def)
  ultimately show ?thesis using assms(1) by (simp add: file_pos_def file_move_def) (simp add: overwrite_def)
qed

section \<open>Every step\<close>

lemma waiting_outside: "waiting p \<Longrightarrow> \<not> holding p"
  by (cases p) auto

text \<open>What a step returns follows the file, from the one before it to the one after.\<close>

lemma returned_follows:
  assumes inv: "view_inv n (views w)" and size: "length (committed (views w)) \<le> isize_max"
    and step: "weak_view_step ords h w t" and ok: "\<not> view_races w"
  shows "run_spec (file_call h) (map fst (returned (views w) (views t))) (committed (views w), p) =
    (map snd (returned (views w) (views t)), committed (views t), p)"
proof -
  note D = view_inv_D [OF inv]
  have quiet: ?thesis if "i < length (pcs (guard (views w)))" "pcs (guard (views t)) = (pcs (guard (views w)))[i := q]"
    "\<not> holding (pc_of w i) \<or> q \<noteq> Idle" "committed (views t) = committed (views w)" for i q
    using returned_one [OF that(2,1)] that(3,4) by auto
  from step show ?thesis
  proof cases
    case (weak_start_read i off m)
    then show ?thesis by (intro quiet [of i RLoad]) simp_all
  next
    case (weak_start_write i off bs)
    then show ?thesis by (intro quiet [of i WCas]) simp_all
  next
    case (weak_wait i j q v)
    have "\<not> holding (pc_of w i)" using weak_wait(3) by (rule waiting_outside)
    then show ?thesis using weak_wait by (intro quiet [of i q]) simp_all
  next
    case (weak_wait_panic i j e)
    have "\<not> holding (pc_of w i)" using weak_wait_panic(3) by (rule waiting_outside)
    then show ?thesis using weak_wait_panic by (intro quiet [of i Idle]) simp_all
  next
    case (weak_enter i q v)
    then show ?thesis by (intro quiet [of i q]) (cases q, auto simp: enter_guard_def Let_def)
  next
    case (weak_read_byte i off dst k)
    then show ?thesis
      using list_update_id [of "pcs (guard (views w))" i] by (intro quiet [of i Reading]) simp_all
  next
    case (weak_write_byte i off bs todo k)
    then show ?thesis
      using list_update_id [of "pcs (guard (views w))" i] by (intro quiet [of i Writing]) simp_all
  next
    case (weak_end_read i off dst q v)
    have i: "i < n" using weak_end_read(2) D(3) by simp
    have job: "job_ok (area (views w)) (committed (views w)) Reading (ReadJob off dst)"
      using D(6) [OF i] unfolding weak_end_read(3,4) .
    have q: "q = Idle" using weak_end_read(6) by simp
    have ret: "returned (views w) (views t) = copied (ReadJob off dst)"
      using returned_one [of "views t" "views w" i q] weak_end_read q by (simp add: leave_read_def Let_def)
    have "committed (views t) = committed (views w)" using weak_end_read(1) by (simp add: leave_read_def Let_def)
    then show ?thesis
      using copied_read [OF _ size weak_end_read(5), of off h p] job D(4) unfolding ret by simp
  next
    case (weak_end_write i off bs todo q v)
    have i: "i < n" using weak_end_write(2) D(3) by simp
    have job: "job_ok (area (views w)) (committed (views w)) Writing (WriteJob off bs todo)"
      using D(6) [OF i] unfolding weak_end_write(3,4) .
    have q: "q = Idle" using weak_end_write(6) by simp
    have ret: "returned (views w) (views t) = copied (WriteJob off bs todo)"
      using returned_one [of "views t" "views w" i q] weak_end_write q by (simp add: leave_write_def Let_def)
    have "committed (views t) = overwrite off bs (committed (views w))"
      using weak_end_write(1) by (simp add: leave_write_def Let_def)
    then show ?thesis using copied_write [OF _ size, of off bs h todo p] job unfolding ret by simp
  next
    case undefined_behaviour
    then show ?thesis using ok by blast
  qed
qed

lemma returned_trace:
  assumes n: "n < 2 ^ 31" and start: "weak_view_start n w" and size: "length (area (views w)) \<le> isize_max"
    and sync: "lock_synchronised ords" and trace: "weak_view_trace ords h w es t"
  shows "run_spec (file_call h) (map fst es) (area (views w), p) = (map snd es, committed (views t), p) \<and>
    length (committed (views t)) = length (area (views w))"
  using trace
proof (induction rule: weak_view_trace.induct)
  case trace_start
  then show ?case using start by (simp add: weak_view_start_def view_start_def)
next
  case (trace_step es u t)
  have "reach (weak_view_start n) (weak_view_step ords h) u" by (rule trace_reach [OF trace_step.hyps(1) start])
  then have inv: "view_inv n (views u)" "\<not> view_races u" 
    using weak_views.reach_inv [of n ords h u] n sync knows_no_race by blast+
  have inv': "view_inv n (views t)" by (rule weak_view_inv_step [OF inv(1) n trace_step.hyps(2) inv(2)])
  have len: "length (committed (views u)) \<le> isize_max" using trace_step.IH size by simp
  note f = returned_follows [OF inv(1) len trace_step.hyps(2) inv(2), of p]
  have "length (committed (views t)) = length (committed (views u))"
    using f length_run_spec [of h "map fst (returned (views u) (views t))" "(committed (views u), p)"] by simp
  then show ?case using trace_step.IH f by (simp add: run_spec_append)
qed

end
