(* ===== verification/ViewWeakProps.thy ===== *)
theory ViewWeakProps
  imports ViewLinear Host
begin

text \<open>
  The properties of the views and the lock under the memory model: with the orderings of the source no data
  race and no torn read, and executions that race where one of the four orderings is weaker.
\<close>

section \<open>Executions that race\<close>

lemma view_reach_start:
  "\<exists>w. reach (weak_view_start (Suc (Suc m))) (weak_view_step ords h) w \<and>
     pcs (guard (views w)) = Idle # Idle # replicate m Idle \<and> jobs (views w) = NoJob # NoJob # replicate m NoJob \<and>
     area (views w) = [0] \<and> lock_word (guard (views w)) = 0 \<and> words w = [(0, bot)] \<and>
     seen_word w = (\<lambda>_. 0) \<and> knows w = (\<lambda>i. bot(i := 1)) \<and> written_at w = (\<lambda>_. bot) \<and> read_at w = (\<lambda>_. bot)"
proof -
  let ?w = "\<lparr>views = \<lparr>guard = \<lparr>lock_word = 0, pcs = Idle # Idle # replicate m Idle\<rparr>,
      jobs = NoJob # NoJob # replicate m NoJob, area = [0], committed = [0]\<rparr>,
    words = [(0, bot)], seen_word = \<lambda>_. 0, knows = \<lambda>i. bot(i := 1),
    written_at = \<lambda>_. bot, read_at = \<lambda>_. bot\<rparr>"
  have "weak_view_start (Suc (Suc m)) ?w"
    by (simp add: weak_view_start_def view_start_def lock_start_def)
  then have "reach (weak_view_start (Suc (Suc m))) (weak_view_step ords h) ?w" by (rule reach_start)
  then show ?thesis by (intro exI [of _ ?w] conjI) simp_all
qed

text \<open>Thread 0 has loaded a free lock for a read of byte 0.\<close>

lemma view_reach_loaded:
  "\<exists>w. reach (weak_view_start (Suc (Suc m))) (weak_view_step ords h) w \<and>
     pcs (guard (views w)) = RCas 0 # Idle # replicate m Idle \<and>
     jobs (views w) = ReadJob 0 [None] # NoJob # replicate m NoJob \<and>
     area (views w) = [0] \<and> lock_word (guard (views w)) = 0 \<and> words w = [(0, bot)] \<and>
     knows w = (\<lambda>i. bot(i := 1)) \<and> written_at w = (\<lambda>_. bot) \<and> read_at w = (\<lambda>_. bot)"
proof -
  let ?reach = "reach (weak_view_start (Suc (Suc m))) (weak_view_step ords h)"
  obtain w where r: "?reach w" and w: "pcs (guard (views w)) = Idle # Idle # replicate m Idle"
    "jobs (views w) = NoJob # NoJob # replicate m NoJob" "area (views w) = [0]"
    "lock_word (guard (views w)) = 0" "words w = [(0, bot)]" "seen_word w = (\<lambda>_. 0)"
    "knows w = (\<lambda>i. bot(i := 1))" "written_at w = (\<lambda>_. bot)" "read_at w = (\<lambda>_. bot)"
    using view_reach_start [of m ords h] by (elim exE conjE) (rule that)
  obtain w1 where r1: "?reach w1" and w1: "pcs (guard (views w1)) = RLoad # Idle # replicate m Idle"
    "jobs (views w1) = ReadJob 0 [None] # NoJob # replicate m NoJob" "area (views w1) = [0]"
    "lock_word (guard (views w1)) = 0" "words w1 = [(0, bot)]" "seen_word w1 = (\<lambda>_. 0)"
    "knows w1 = (\<lambda>i. bot(i := 1))" "written_at w1 = (\<lambda>_. bot)" "read_at w1 = (\<lambda>_. bot)"
    by (rule that [OF reach_step [OF r, OF weak_start_read [of 0 w 0 1]]]) (simp_all add: w)
  have load: "lock_access h RLoad 0 = Inr (RCas 0, 0)" by (simp add: i32_add_def)
  have same: "(knows w1)(0 := learns (read_load ords) bot (knows w1 0)) = (\<lambda>i. bot(i := 1))"
    by (rule ext) (simp add: w1(7) learns_def)
  let ?w = "w1\<lparr>views := (views w1)\<lparr>guard := (guard (views w1))\<lparr>pcs := RCas 0 # Idle # replicate m Idle\<rparr>\<rparr>,
    seen_word := \<lambda>_. 0, knows := \<lambda>i. bot(i := 1)\<rparr>"
  have "weak_view_step ords h w1 ?w"
    using weak_wait [of 0 w1 0 h "RCas 0" 0 ords] same by (simp add: w1 load fun_upd_idem del: lock_access.simps)
  then have "?reach ?w" by (rule reach_step [OF r1])
  then show ?thesis by (intro exI [of _ ?w] conjI) (simp_all add: w1)
qed


lemma enter_guard_fields:
  "pcs (guard (views (enter_guard ords i q v w))) = (pcs (guard (views w)))[i := q]"
  "lock_word (guard (views (enter_guard ords i q v w))) = v"
  "jobs (views (enter_guard ords i q v w)) = jobs (views w)"
  "area (views (enter_guard ords i q v w)) = area (views w)"
  "written_at (enter_guard ords i q v w) = written_at w" "read_at (enter_guard ords i q v w) = read_at w"
  "knows (enter_guard ords i q v w) = (knows w)(i :=
     pass_time i (learns (exchange_order ords (pc_of w i)) (snd (last (words w))) (knows w i)))"
  "snd (last (words (enter_guard ords i q v w))) = sup (snd (last (words w)))
     (tells (exchange_order ords (pc_of w i))
       (learns (exchange_order ords (pc_of w i)) (snd (last (words w))) (knows w i)))"
  by (simp_all add: enter_guard_def Let_def)

lemma leave_fields:
  "pcs (guard (views (leave_read ords i q v w))) = (pcs (guard (views w)))[i := q]"
  "lock_word (guard (views (leave_read ords i q v w))) = v"
  "jobs (views (leave_read ords i q v w)) = (jobs (views w))[i := NoJob]"
  "area (views (leave_read ords i q v w)) = area (views w)"
  "written_at (leave_read ords i q v w) = written_at w" "read_at (leave_read ords i q v w) = read_at w"
  "knows (leave_read ords i q v w) = (knows w)(i := pass_time i (knows w i))"
  "snd (last (words (leave_read ords i q v w))) =
     sup (snd (last (words w))) (tells (read_release ords) (knows w i))"
  "pcs (guard (views (leave_write ords i q v off bs w))) = (pcs (guard (views w)))[i := q]"
  "lock_word (guard (views (leave_write ords i q v off bs w))) = v"
  "jobs (views (leave_write ords i q v off bs w)) = (jobs (views w))[i := NoJob]"
  "area (views (leave_write ords i q v off bs w)) = area (views w)"
  "written_at (leave_write ords i q v off bs w) = written_at w" "read_at (leave_write ords i q v off bs w) = read_at w"
  "knows (leave_write ords i q v off bs w) = (knows w)(i := pass_time i (knows w i))"
  "snd (last (words (leave_write ords i q v off bs w))) = tells (write_release ords) (knows w i)"
  by (simp_all add: leave_read_def leave_write_def Let_def)

text \<open>A reader that enters after a writer without learning of its write.\<close>

lemma reader_races:
  assumes ords: "\<not> (acquires (read_exchange ords) \<and> releases (write_release ords))"
  shows "\<exists>w. reach (weak_view_start (Suc (Suc m))) (weak_view_step ords h) w \<and> view_races w"
proof (rule ccontr)
  let ?reach = "reach (weak_view_start (Suc (Suc m))) (weak_view_step ords h)"
  assume "\<not> ?thesis"
  then have safe: "\<not> view_races w" if "?reach w" for w using that by blast
  obtain w where r: "?reach w" and w: "pcs (guard (views w)) = RCas 0 # Idle # replicate m Idle"
    "jobs (views w) = ReadJob 0 [None] # NoJob # replicate m NoJob" "area (views w) = [0]"
    "lock_word (guard (views w)) = 0" "words w = [(0, bot)]" "knows w = (\<lambda>i. bot(i := 1))"
    using view_reach_loaded [of m ords h] by (elim exE conjE) (rule that)
  obtain w1 where r1: "?reach w1" and w1: "pcs (guard (views w1)) = RCas 0 # WCas # replicate m Idle"
    "jobs (views w1) = ReadJob 0 [None] # WriteJob 0 [1] {..<1} # replicate m NoJob" "area (views w1) = [0]"
    "lock_word (guard (views w1)) = 0" "knows w1 0 (Suc 0) = 0" "0 < knows w1 (Suc 0) (Suc 0)"
    by (rule that [OF reach_step [OF r, OF weak_start_write [of 1 w 0 "[1]"]]]) (simp_all add: w bot_nat_def)
  obtain w2 where r2: "?reach w2" and w2: "pcs (guard (views w2)) = RCas 0 # Writing # replicate m Idle"
    "jobs (views w2) = ReadJob 0 [None] # WriteJob 0 [1] {..<1} # replicate m NoJob" "area (views w2) = [0]"
    "knows w2 0 (Suc 0) = 0" "0 < knows w2 (Suc 0) (Suc 0)"
    by (rule that [OF reach_step [OF r1, OF weak_enter [of 1 w1 h Writing "- 1"]]])
      (simp_all add: w1 enter_guard_fields pass_time_def)
  obtain w3 where r3: "?reach w3" and w3: "pcs (guard (views w3)) = RCas 0 # Writing # replicate m Idle"
    "jobs (views w3) = ReadJob 0 [None] # WriteJob 0 [1] {} # replicate m NoJob"
    "knows w3 0 (Suc 0) = 0" "0 < written_at w3 0 (Suc 0)"
  proof -
    let ?w = "w2\<lparr>views := (views w2)\<lparr>jobs := ReadJob 0 [None] # WriteJob 0 [1] {} # replicate m NoJob,
        area := [1]\<rparr>, written_at := (written_at w2)(0 := (written_at w2 0)(1 := knows w2 1 1))\<rparr>"
    have "weak_view_step ords h w2 ?w"
      using weak_write_byte [OF safe [OF r2], of 1 0 "[1]" "{..<1}" 0 ords h] by (simp add: w2 lessThan_Suc)
    from that [OF reach_step [OF r2, OF this]] show thesis by (simp add: w2)
  qed
  obtain w4 where r4: "?reach w4" and w4: "pcs (guard (views w4)) = RCas 0 # Idle # replicate m Idle"
    "jobs (views w4) = ReadJob 0 [None] # NoJob # replicate m NoJob" "lock_word (guard (views w4)) = 0"
    "knows w4 0 (Suc 0) = 0" "0 < written_at w4 0 (Suc 0)"
    "snd (last (words w4)) = tells (write_release ords) (knows w3 (Suc 0))"
    by (rule that [OF reach_step [OF r3, OF weak_end_write [of 1 w3 0 "[1]" "{}" h Idle 0]]])
      (simp_all add: w3 leave_fields)
  obtain w5 where r5: "?reach w5" and w5: "pcs (guard (views w5)) = Reading # Idle # replicate m Idle"
    "jobs (views w5) = ReadJob 0 [None] # NoJob # replicate m NoJob" "knows w5 0 (Suc 0) = 0" "0 < written_at w5 0 (Suc 0)"
    by (rule that [OF reach_step [OF r4, OF weak_enter [of 0 w4 h Reading 1]]])
      (use ords in \<open>auto simp add: w4 enter_guard_fields pass_time_def exchange_order_def learns_def tells_def\<close>)
  have "view_races w5"
    unfolding view_races_def using w5 by (intro exI [of _ 0] conjI bexI [of _ 0] exI [of _ 1]) auto
  then show False using safe [OF r5] by simp
qed

text \<open>A writer that enters after a reader without learning of its read.\<close>

lemma writer_races:
  assumes ords: "\<not> (acquires (write_exchange ords) \<and> releases (read_release ords))"
  shows "\<exists>w. reach (weak_view_start (Suc (Suc m))) (weak_view_step ords h) w \<and> view_races w"
proof (rule ccontr)
  let ?reach = "reach (weak_view_start (Suc (Suc m))) (weak_view_step ords h)"
  assume "\<not> ?thesis"
  then have safe: "\<not> view_races w" if "?reach w" for w using that by blast
  obtain w where r: "?reach w" and w: "pcs (guard (views w)) = RCas 0 # Idle # replicate m Idle"
    "jobs (views w) = ReadJob 0 [None] # NoJob # replicate m NoJob" "area (views w) = [0]"
    "lock_word (guard (views w)) = 0" "words w = [(0, bot)]" "knows w = (\<lambda>i. bot(i := 1))"
    using view_reach_loaded [of m ords h] by (elim exE conjE) (rule that)
  obtain w1 where r1: "?reach w1" and w1: "pcs (guard (views w1)) = Reading # Idle # replicate m Idle"
    "jobs (views w1) = ReadJob 0 [None] # NoJob # replicate m NoJob" "area (views w1) = [0]"
    "lock_word (guard (views w1)) = 1" "knows w1 (Suc 0) 0 = 0" "knows w1 0 0 = 2" "snd (last (words w1)) 0 \<le> 1"
    by (rule that [OF reach_step [OF r, OF weak_enter [of 0 w h Reading 1]]])
      (auto simp: w enter_guard_fields pass_time_def learns_def tells_def bot_nat_def)
  obtain w2 where r2: "?reach w2" and w2: "pcs (guard (views w2)) = Reading # Idle # replicate m Idle"
    "jobs (views w2) = ReadJob 0 [Some 0] # NoJob # replicate m NoJob" "area (views w2) = [0]"
    "lock_word (guard (views w2)) = 1" "knows w2 (Suc 0) 0 = 0" "read_at w2 0 0 = 2" "snd (last (words w2)) 0 \<le> 1"
  proof -
    let ?w = "w1\<lparr>views := (views w1)\<lparr>jobs := ReadJob 0 [Some 0] # NoJob # replicate m NoJob\<rparr>,
      read_at := (read_at w1)(0 := (read_at w1 0)(0 := knows w1 0 0))\<rparr>"
    have "weak_view_step ords h w1 ?w"
      using weak_read_byte [OF safe [OF r1], of 0 0 "[None]" 0 ords h] by (simp add: w1)
    from that [OF reach_step [OF r1, OF this]] show thesis using w1 by simp
  qed
  obtain w3 where r3: "?reach w3" and w3: "pcs (guard (views w3)) = Idle # Idle # replicate m Idle"
    "jobs (views w3) = NoJob # NoJob # replicate m NoJob" "area (views w3) = [0]"
    "lock_word (guard (views w3)) = 0" "knows w3 (Suc 0) 0 = 0" "read_at w3 0 0 = 2"
    "snd (last (words w3)) = sup (snd (last (words w2))) (tells (read_release ords) (knows w2 0))"
    by (rule that [OF reach_step [OF r2, OF weak_end_read [of 0 w2 0 "[Some 0]" h Idle 0]]])
      (simp_all add: w2 leave_fields)
  obtain w4 where r4: "?reach w4" and w4: "pcs (guard (views w4)) = Idle # WCas # replicate m Idle"
    "jobs (views w4) = NoJob # WriteJob 0 [1] {..<1} # replicate m NoJob"
    "lock_word (guard (views w4)) = 0" "knows w4 (Suc 0) 0 = 0" "read_at w4 0 0 = 2"
    "snd (last (words w4)) = sup (snd (last (words w2))) (tells (read_release ords) (knows w2 0))"
    by (rule that [OF reach_step [OF r3, OF weak_start_write [of 1 w3 0 "[1]"]]]) (simp_all add: w3)
  obtain w5 where r5: "?reach w5" and w5: "pcs (guard (views w5)) = Idle # Writing # replicate m Idle"
    "jobs (views w5) = NoJob # WriteJob 0 [1] {..<1} # replicate m NoJob" "knows w5 (Suc 0) 0 < 2" "read_at w5 0 0 = 2"
    by (rule that [OF reach_step [OF r4, OF weak_enter [of 1 w4 h Writing "- 1"]]])
      (use ords w2(7) in \<open>auto simp add: sup_nat_def w4 enter_guard_fields pass_time_def exchange_order_def learns_def tells_def\<close>)
  have "view_races w5"
    unfolding view_races_def using w5 by (intro exI [of _ 1] conjI bexI [of _ 0] exI [of _ 0]) auto
  then show False using safe [OF r5] by simp
qed

section \<open>An execution without races\<close>

text \<open>A write while a reader is waiting, which loads an old value of the lock and reads after the writer has left.\<close>

lemma linear_write:
  assumes free: "\<forall>es w. weak_view_trace source_lock_orderings h w0 es w \<longrightarrow> \<not> view_races w"
    and w0: "pcs (guard (views w0)) = [Idle, Idle]" "jobs (views w0) = [NoJob, NoJob]" "area (views w0) = [0]"
      "lock_word (guard (views w0)) = 0" "words w0 = [(0, bot)]" "seen_word w0 = (\<lambda>_. 0)"
  shows "\<exists>w. weak_view_trace source_lock_orderings h w0 [] w \<and> pcs (guard (views w)) = [RLoad, Writing] \<and>
    jobs (views w) = [ReadJob 0 [None], WriteJob 0 [7] {}] \<and> area (views w) = [7] \<and>
    length (words w) = 2 \<and> fst (words w ! 0) = 0 \<and> seen_word w 0 = 0"
proof -
  let ?trace = "weak_view_trace source_lock_orderings h w0" and ?step = "weak_view_step source_lock_orderings h"
  note fields = enter_guard_fields leave_fields
  obtain w1 where r1: "?trace [] w1" and w1: "pcs (guard (views w1)) = [Idle, WCas]"
    "jobs (views w1) = [NoJob, WriteJob 0 [7] {..<1}]" "area (views w1) = [0]"
    "lock_word (guard (views w1)) = 0" "words w1 = [(0, bot)]" "seen_word w1 = (\<lambda>_. 0)"
    by (rule that [OF trace_quiet [OF trace_start, OF weak_start_write [of 1 w0 0 "[7]"], of 1 WCas]]) (simp_all add: w0)
  obtain w2 where r2: "?trace [] w2" and w2: "pcs (guard (views w2)) = [Idle, Writing]"
    "jobs (views w2) = [NoJob, WriteJob 0 [7] {..<1}]" "area (views w2) = [0]"
    "lock_word (guard (views w2)) = - 1" "length (words w2) = 2" "fst (words w2 ! 0) = 0" "seen_word w2 0 = 0"
    by (rule that [OF trace_quiet [OF r1, OF weak_enter [of 1 w1 h Writing "- 1"], of 1 Writing]])
      (simp_all add: w1 enter_guard_def Let_def)
  obtain w3 where r3: "?trace [] w3" and w3: "pcs (guard (views w3)) = [RLoad, Writing]"
    "jobs (views w3) = [ReadJob 0 [None], WriteJob 0 [7] {..<1}]" "area (views w3) = [0]"
    "lock_word (guard (views w3)) = - 1" "length (words w3) = 2" "fst (words w3 ! 0) = 0" "seen_word w3 0 = 0"
    by (rule that [OF trace_quiet [OF r2, OF weak_start_read [of 0 w2 0 1], of 0 RLoad]]) (simp_all add: w2)
  obtain w4 where r4: "?trace [] w4" and w4: "pcs (guard (views w4)) = [RLoad, Writing]"
    "jobs (views w4) = [ReadJob 0 [None], WriteJob 0 [7] {}]" "area (views w4) = [7]"
    "length (words w4) = 2" "fst (words w4 ! 0) = 0" "seen_word w4 0 = 0"
  proof -
    let ?w = "w3\<lparr>views := (views w3)\<lparr>jobs := [ReadJob 0 [None], WriteJob 0 [7] {}], area := [7]\<rparr>,
      written_at := (written_at w3)(0 := (written_at w3 0)(1 := knows w3 1 1))\<rparr>"
    have "?step w3 ?w"
      using weak_write_byte [OF free [rule_format, OF r3], of 1 0 "[7]" "{..<1}" 0 source_lock_orderings h]
      by (simp add: w3 lessThan_Suc)
    from that [OF trace_quiet [OF r3 this, of 1 Writing]] show thesis by (simp add: w3)
  qed
  then show ?thesis by (intro exI [of _ w4] conjI)
qed

lemma linear_read:
  assumes free: "\<forall>es w. weak_view_trace source_lock_orderings h w0 es w \<longrightarrow> \<not> view_races w"
    and w0: "pcs (guard (views w0)) = [Idle, Idle]" "jobs (views w0) = [NoJob, NoJob]" "area (views w0) = [0]"
      "lock_word (guard (views w0)) = 0" "words w0 = [(0, bot)]" "seen_word w0 = (\<lambda>_. 0)"
  shows "\<exists>w. weak_view_trace source_lock_orderings h w0 [(Write (PyBytes [7]) (Some 0), Seen Done)] w \<and>
    pcs (guard (views w)) = [Reading, Idle] \<and> jobs (views w) = [ReadJob 0 [Some 7], NoJob] \<and> lock_word (guard (views w)) = 1"
proof -
  let ?trace = "weak_view_trace source_lock_orderings h w0" and ?step = "weak_view_step source_lock_orderings h"
  note fields = enter_guard_fields leave_fields
  obtain w4 where r4: "?trace [] w4" and w4: "pcs (guard (views w4)) = [RLoad, Writing]"
    "jobs (views w4) = [ReadJob 0 [None], WriteJob 0 [7] {}]" "area (views w4) = [7]"
    "length (words w4) = 2" "fst (words w4 ! 0) = 0" "seen_word w4 0 = 0"
    using linear_write [OF free w0] by (elim exE conjE) (rule that)
  obtain w5 where r5: "?trace [(Write (PyBytes [7]) (Some 0), Seen Done)] w5"
    and w5: "pcs (guard (views w5)) = [RLoad, Idle]" "jobs (views w5) = [ReadJob 0 [None], NoJob]"
    "area (views w5) = [7]" "lock_word (guard (views w5)) = 0" "length (words w5) = 3" "fst (words w5 ! 0) = 0"
    "seen_word w5 0 = 0"
    by (rule that [OF trace_leaves [OF r4, OF weak_end_write [of 1 w4 0 "[7]" "{}" h Idle 0], of 1]])
      (simp_all add: w4 leave_write_def Let_def nth_append)
  have load: "lock_access h RLoad 0 = Inr (RCas 0, 0)" by (simp add: i32_add_def)
  obtain w6 where r6: "?trace [(Write (PyBytes [7]) (Some 0), Seen Done)] w6"
    and w6: "pcs (guard (views w6)) = [RCas 0, Idle]" "jobs (views w6) = [ReadJob 0 [None], NoJob]"
    "area (views w6) = [7]" "lock_word (guard (views w6)) = 0"
    by (rule that [OF trace_quiet [OF r5, OF weak_wait [of 0 w5 0 h "RCas 0" 0], of 0 "RCas 0"]])
      (simp_all add: w5 load del: lock_access.simps)
  obtain w7 where r7: "?trace [(Write (PyBytes [7]) (Some 0), Seen Done)] w7"
    and w7: "pcs (guard (views w7)) = [Reading, Idle]" "jobs (views w7) = [ReadJob 0 [None], NoJob]"
    "area (views w7) = [7]" "lock_word (guard (views w7)) = 1"
    by (rule that [OF trace_quiet [OF r6, OF weak_enter [of 0 w6 h Reading 1], of 0 Reading]])
      (simp_all add: w6 fields)
  obtain w8 where r8: "?trace [(Write (PyBytes [7]) (Some 0), Seen Done)] w8"
    and w8: "pcs (guard (views w8)) = [Reading, Idle]" "jobs (views w8) = [ReadJob 0 [Some 7], NoJob]"
    "lock_word (guard (views w8)) = 1"
  proof -
    let ?w = "w7\<lparr>views := (views w7)\<lparr>jobs := [ReadJob 0 [Some 7], NoJob]\<rparr>,
      read_at := (read_at w7)(0 := (read_at w7 0)(0 := knows w7 0 0))\<rparr>"
    have "?step w7 ?w"
      using weak_read_byte [OF free [rule_format, OF r7], of 0 0 "[None]" 0 source_lock_orderings h] by (simp add: w7)
    from that [OF trace_quiet [OF r7 this, of 0 Reading]] show thesis by (simp add: w7)
  qed
  then show ?thesis by (intro exI [of _ w8] conjI)
qed

lemma linear_execution:
  assumes free: "\<forall>es w. weak_view_trace source_lock_orderings h w0 es w \<longrightarrow> \<not> view_races w"
    and w0: "pcs (guard (views w0)) = [Idle, Idle]" "jobs (views w0) = [NoJob, NoJob]" "area (views w0) = [0]"
      "lock_word (guard (views w0)) = 0" "words w0 = [(0, bot)]" "seen_word w0 = (\<lambda>_. 0)"
  shows "\<exists>t. weak_view_trace source_lock_orderings h w0
      [(Write (PyBytes [7]) (Some 0), Seen Done), (ReadRange 0 1, Seen (Got (PyBytes [7])))] t"
proof -
  let ?trace = "weak_view_trace source_lock_orderings h w0" and ?step = "weak_view_step source_lock_orderings h"
  note fields = enter_guard_fields leave_fields
  obtain w8 where r8: "?trace [(Write (PyBytes [7]) (Some 0), Seen Done)] w8" and w8: "pcs (guard (views w8)) = [Reading, Idle]"
    "jobs (views w8) = [ReadJob 0 [Some 7], NoJob]" "lock_word (guard (views w8)) = 1"
    using linear_read [OF free w0] by (elim exE conjE) (rule that)
  have "?step w8 (leave_read source_lock_orderings 0 Idle 0 w8)"
    using weak_end_read [of 0 w8 0 "[Some 7]" h Idle 0 source_lock_orderings] by (simp add: w8)
  from trace_leaves [OF r8 this, of 0] show ?thesis
    by (intro exI [of _ "leave_read source_lock_orderings 0 Idle 0 w8"]) (simp add: w8 fields)
qed

text \<open>Two threads on a data area of one byte.\<close>

definition demo_weak :: weak_view where
  "demo_weak = \<lparr>views = \<lparr>guard = \<lparr>lock_word = 0, pcs = [Idle, Idle]\<rparr>, jobs = [NoJob, NoJob], area = [0], committed = [0]\<rparr>,
    words = [(0, bot)], seen_word = \<lambda>_. 0, knows = \<lambda>i. bot(i := 1), written_at = \<lambda>_. bot, read_at = \<lambda>_. bot\<rparr>"

lemma demo_weak_start: "weak_view_start 2 demo_weak"
  by (simp add: demo_weak_def weak_view_start_def view_start_def lock_start_def numeral_2_eq_2)

lemma demo_weak_free: "\<forall>es u. weak_view_trace source_lock_orderings h demo_weak es u \<longrightarrow> \<not> view_races u"
proof -
  have sync: "lock_synchronised source_lock_orderings"
    by (simp add: lock_synchronised_def source_lock_orderings_def)
  have "\<not> view_races u" if "weak_view_trace source_lock_orderings h demo_weak es u" for es u
    using weak_views.reach_inv [OF trace_reach [OF that demo_weak_start]] sync knows_no_race by simp
  then show ?thesis by blast
qed

section \<open>Properties\<close>

text \<open>
  C5: Under the memory model, where the lock word may be read stale and the copies are ordered only by
  the lock's own accesses, the orderings in the source let no data race happen (fewer than 2^31
  threads, copies of the bytes in any order), and no read is torn: every byte a read has copied is that of
  the file which the writers that have left made, each by its whole write at once; a writer has
  changed exactly the bytes it has copied and is alone.
\<close>

theorem weak_memory_reads:
  assumes "n < 2 ^ 31" "reach (weak_view_start n) (weak_view_step source_lock_orderings h) w" "i < n"
  shows "\<not> view_races w \<and>
    (\<forall>off dst. pc_of w i = Reading \<and> jobs (views w) ! i = ReadJob off dst \<longrightarrow>
      area (views w) = committed (views w) \<and>
      (\<forall>k < length dst. dst ! k \<in> {None, Some (committed (views w) ! (off + k))})) \<and>
    (\<forall>off bs todo. pc_of w i = Writing \<and> jobs (views w) ! i = WriteJob off bs todo \<longrightarrow>
      area (views w) = partly_written off bs todo (committed (views w)) \<and>
      (\<forall>k < n. k \<noteq> i \<longrightarrow> \<not> holding (pc_of w k)))"
proof -
  have "lock_synchronised source_lock_orderings"
    by (simp add: lock_synchronised_def source_lock_orderings_def)
  then have "view_inv n (views w)" "knows_inv w"
    using weak_views.reach_inv [OF assms(2)] assms(1) by blast+
  then show ?thesis using view_inv_jobs [OF _ assms(3)] knows_no_race by blast
qed

text \<open>A writer that has copied its byte, and later in the same execution a reader that has copied it.\<close>

theorem weak_memory_reads_witness:
  "\<exists>w w'. reach (weak_view_start 2) (weak_view_step source_lock_orderings le_host) w \<and> \<not> view_races w \<and>
     pc_of w 1 = Writing \<and> jobs (views w) ! 1 = WriteJob 0 [7] {} \<and>
     area (views w) = partly_written 0 [7] {} (committed (views w)) \<and> \<not> holding (pc_of w 0) \<and>
     reach (weak_view_start 2) (weak_view_step source_lock_orderings le_host) w' \<and> \<not> view_races w' \<and>
     pc_of w' 0 = Reading \<and> jobs (views w') ! 0 = ReadJob 0 [Some 7] \<and> committed (views w') ! 0 = 7"
proof -
  obtain w where w: "weak_view_trace source_lock_orderings le_host demo_weak [] w"
    "pc_of w 1 = Writing" "jobs (views w) ! 1 = WriteJob 0 [7] {}"
    using linear_write [of le_host demo_weak, OF demo_weak_free] by (fastforce simp: demo_weak_def)
  obtain w' where w': "weak_view_trace source_lock_orderings le_host demo_weak [(Write (PyBytes [7]) (Some 0), Seen Done)] w'"
    "pc_of w' 0 = Reading" "jobs (views w') ! 0 = ReadJob 0 [Some 7]"
    using linear_read [of le_host demo_weak, OF demo_weak_free] by (fastforce simp: demo_weak_def)
  note r = trace_reach [OF w(1) demo_weak_start] and r' = trace_reach [OF w'(1) demo_weak_start]
  have "area (views w) = partly_written 0 [7] {} (committed (views w)) \<and> \<not> holding (pc_of w 0) \<and> \<not> view_races w"
    using weak_memory_reads [OF _ r, of 1] w(2,3) by simp
  moreover have "committed (views w') ! 0 = 7 \<and> \<not> view_races w'"
    using weak_memory_reads [OF _ r', of 0] w'(2,3) by simp
  ultimately show ?thesis using r r' w(2,3) w'(2,3) by (intro exI [of _ w] exI [of _ w']) simp
qed

text \<open>
  C16: Exactly the orderings that acquire in both exchanges and release in both unlocks keep the copies free
  of data races, for any number of threads from two up to 2^31 - 1: weaken any of these four and some
  execution races, whatever the load of read_lock is. The orderings of the source meet the condition
  with more than it asks in the two exchanges, which are AcqRel where Acquire would do.
\<close>

theorem lock_orderings_needed:
  assumes "2 \<le> n" "n < 2 ^ 31"
  shows "(\<forall>w. reach (weak_view_start n) (weak_view_step ords h) w \<longrightarrow> \<not> view_races w) \<longleftrightarrow>
    acquires (read_exchange ords) \<and> releases (read_release ords) \<and>
    acquires (write_exchange ords) \<and> releases (write_release ords)"
proof
  obtain m where n: "n = Suc (Suc m)" using assms(1) by (metis Suc_le_D numeral_2_eq_2 Suc_le_mono)
  assume "\<forall>w. reach (weak_view_start n) (weak_view_step ords h) w \<longrightarrow> \<not> view_races w"
  then show "acquires (read_exchange ords) \<and> releases (read_release ords) \<and>
      acquires (write_exchange ords) \<and> releases (write_release ords)"
    using reader_races [of ords m h] writer_races [of ords m h] n by blast
next
  assume "acquires (read_exchange ords) \<and> releases (read_release ords) \<and>
    acquires (write_exchange ords) \<and> releases (write_release ords)"
  then have "lock_synchronised ords" by (simp add: lock_synchronised_def)
  then show "\<forall>w. reach (weak_view_start n) (weak_view_step ords h) w \<longrightarrow> \<not> view_races w"
    using weak_views.reach_inv assms(2) knows_no_race by blast
qed

lemma lock_orderings_needed_witness:
  "\<exists>w. reach (weak_view_start 2)
      (weak_view_step (source_lock_orderings\<lparr>write_release := Relaxed\<rparr>) le_host) w \<and> view_races w"
  using lock_orderings_needed [of 2 "source_lock_orderings\<lparr>write_release := Relaxed\<rparr>" le_host] by auto

text \<open>
  C6: The calls of all threads on a segment are linearizable under the memory model. In every execution
  of fewer than 2^31 threads that copy bytes in and out inside their guards, what the reads return and
  the writes do, in the order in which they leave, is exactly what one file answers to these calls
  made one after the other; when no writer is inside, the data area is that file.
\<close>

theorem view_calls_linearize:
  assumes "n < 2 ^ 31" "weak_view_start n w" "length (area (views w)) \<le> isize_max"
    and "weak_view_trace source_lock_orderings h w es t"
  shows "run_spec (file_call h) (map fst es) (area (views w), 0) = (map snd es, committed (views t), 0) \<and>
    ((\<forall>i < n. pc_of t i \<noteq> Writing) \<longrightarrow> area (views t) = committed (views t))"
proof -
  have sync: "lock_synchronised source_lock_orderings"
    by (simp add: lock_synchronised_def source_lock_orderings_def)
  have inv: "view_inv n (views t)"
    using weak_views.reach_inv [OF trace_reach [OF assms(4,2)]] assms(1) sync by blast
  have "area (views t) = committed (views t)" if "\<forall>i < n. pc_of t i \<noteq> Writing"
    using that view_inv_D(3) [OF inv]
    by (intro view_inv_D(5) [OF inv]) (auto simp: count_list_0_iff in_set_conv_nth)
  then show ?thesis using returned_trace [OF assms(1-3) sync assms(4), of 0] by blast
qed

theorem view_calls_linearize_witness:
  "\<exists>w t. weak_view_start 2 w \<and> area (views w) = [0] \<and>
     weak_view_trace source_lock_orderings le_host w
       [(Write (PyBytes [7]) (Some 0), Seen Done), (ReadRange 0 1, Seen (Got (PyBytes [7])))] t \<and>
     run_spec (file_call le_host) [Write (PyBytes [7]) (Some 0), ReadRange 0 1] ([0], 0) =
       ([Seen Done, Seen (Got (PyBytes [7]))], committed (views t), 0)"
proof -
  have "\<exists>t. weak_view_trace source_lock_orderings le_host demo_weak
      [(Write (PyBytes [7]) (Some 0), Seen Done), (ReadRange 0 1, Seen (Got (PyBytes [7])))] t"
    by (rule linear_execution [OF demo_weak_free]) (simp_all add: demo_weak_def)
  then obtain t where t: "weak_view_trace source_lock_orderings le_host demo_weak
      [(Write (PyBytes [7]) (Some 0), Seen Done), (ReadRange 0 1, Seen (Got (PyBytes [7])))] t" by blast
  from view_calls_linearize [OF _ demo_weak_start _ t] have "run_spec (file_call le_host)
      [Write (PyBytes [7]) (Some 0), ReadRange 0 1] ([0], 0) =
       ([Seen Done, Seen (Got (PyBytes [7]))], committed (views t), 0)"
    by (simp add: isize_max_def demo_weak_def)
  with demo_weak_start t show ?thesis
    by (intro exI [of _ demo_weak] exI [of _ t]) (simp add: demo_weak_def)
qed

end
