(* ===== verification/Platform.thy ===== *)
theory Platform
  imports Memory
begin

text \<open>
  The interface of \<open>src/platform/mod.rs\<close>: what a platform handle offers to \<open>SharedMemory\<close>, as a record
  of operations on the state \<open>'w\<close> of the operating system, and its laws (locale \<open>shm_platform\<close>). The two
  implementations are in \<open>Unix\<close> and \<open>Win32\<close>.
\<close>

text \<open>
  A mapping is named by its address. \<open>p_region\<close> and \<open>p_set_region\<close> are the loads and stores of the
  process through it; \<open>p_open\<close> gets the optional size argument, as in the two \<open>cfg\<close> blocks of
  \<open>SharedMemory::open\<close>; \<open>p_map\<close> may panic; \<open>p_drop\<close> is what happens to a handle that goes out of scope.
\<close>

record ('h, 'w) platform =
  p_create :: "string \<Rightarrow> usize \<Rightarrow> 'w \<Rightarrow> (shm_error + 'h) \<times> 'w"
  p_open :: "string \<Rightarrow> usize option \<Rightarrow> 'w \<Rightarrow> (shm_error + 'h) \<times> 'w"
  p_remove :: "string \<Rightarrow> 'w \<Rightarrow> (shm_error + unit) \<times> 'w"
  p_map :: "'h \<Rightarrow> 'w \<Rightarrow> (fault + (shm_error + nat)) \<times> 'w"
  p_unmap :: "nat \<Rightarrow> usize \<Rightarrow> 'w \<Rightarrow> 'w"
  p_size :: "'h \<Rightarrow> usize"
  p_name :: "'h \<Rightarrow> string"
  p_region :: "nat \<Rightarrow> 'w \<Rightarrow> memory"
  p_set_region :: "nat \<Rightarrow> memory \<Rightarrow> 'w \<Rightarrow> 'w"
  p_drop :: "'h \<Rightarrow> 'w \<Rightarrow> 'w"

text \<open>Running code on the bytes of a mapping.\<close>

definition on_region ::
    "('h, 'w) platform \<Rightarrow> nat \<Rightarrow> (memory \<Rightarrow> ('e + 'a) \<times> memory) \<Rightarrow> 'w \<Rightarrow> ('e + 'a) \<times> 'w" where
  "on_region P ptr f w = (case f (p_region P ptr w) of (r, m) \<Rightarrow> (r, p_set_region P ptr m w))"

text \<open>\<open>map_err(PyErr::from)?\<close>.\<close>

definition raise_shm :: "shm_error + 'a \<Rightarrow> fault + 'a" where
  "raise_shm r = map_err (Raise \<circ> py_err_from_shm_error) r"

lemma raise_shm_simps [simp]: "raise_shm (Inl e) = shm_err e" "raise_shm (Inr x) = Inr x"
  by (simp_all add: raise_shm_def shm_err_def)

lemma raise_shm_eq_Inr: "raise_shm r = Inr x \<longleftrightarrow> r = Inr x"
  by (cases r) simp_all

lemma on_region_eq_Inr:
  "on_region P ptr f w = (Inr x, w') \<longleftrightarrow>
   (\<exists>m. f (p_region P ptr w) = (Inr x, m) \<and> w' = p_set_region P ptr m w)"
  by (cases "f (p_region P ptr w)") (auto simp: on_region_def)

text \<open>A step that converts the error of another one.\<close>

definition smap_err :: "('e \<Rightarrow> 'f) \<Rightarrow> ('w \<Rightarrow> ('e + 'a) \<times> 'w) \<Rightarrow> 'w \<Rightarrow> ('f + 'a) \<times> 'w" where
  "smap_err g f w = (case f w of (r, w') \<Rightarrow> (map_err g r, w'))"

lemma smap_err_Inr [res_simps]: "f w = (Inr x, w') \<Longrightarrow> smap_err g f w = (Inr x, w')"
  by (simp add: smap_err_def)

lemma smap_err_Inl [res_simps]: "f w = (Inl e, w') \<Longrightarrow> smap_err g f w = (Inl (g e), w')"
  by (simp add: smap_err_def)

lemma smap_err_eq_Inr: "smap_err g f w = (Inr x, w') \<longleftrightarrow> f w = (Inr x, w')"
  by (cases "f w"; cases "fst (f w)") (auto simp: smap_err_def)

locale shm_platform =
  fixes P :: "('h, 'w) platform"
  assumes created: "p_create P name n w = (Inr hnd, w') \<Longrightarrow> p_size P hnd = n \<and> p_name P hnd = name"
    and opened: "p_open P name sz w = (Inr hnd, w') \<Longrightarrow> p_name P hnd = name"

end
