(* ===== verification/Unix.thy ===== *)
theory Unix
  imports Platform
begin

text \<open>
  The handle of \<open>src/platform/unix.rs\<close>. The system calls are parameters: a record of functions on an
  operating system state, each answering an \<open>errno\<close> or a value.
\<close>

type_synonym errno = nat

datatype oflag = O_CREAT | O_RDWR

record 'w posix =
  errno_text :: "errno \<Rightarrow> string"
  shm_open :: "string \<Rightarrow> oflag list \<Rightarrow> nat \<Rightarrow> 'w \<Rightarrow> (errno + nat) \<times> 'w"
  shm_unlink :: "string \<Rightarrow> 'w \<Rightarrow> (errno + unit) \<times> 'w"
  ftruncate :: "nat \<Rightarrow> int \<Rightarrow> 'w \<Rightarrow> (errno + unit) \<times> 'w"
  fstat_size :: "nat \<Rightarrow> 'w \<Rightarrow> (errno + i64) \<times> 'w"
  mmap :: "nat \<Rightarrow> usize \<Rightarrow> 'w \<Rightarrow> (errno + nat) \<times> 'w"
  munmap :: "nat \<Rightarrow> usize \<Rightarrow> 'w \<Rightarrow> (errno + unit) \<times> 'w"
  close_fd :: "nat \<Rightarrow> 'w \<Rightarrow> 'w"
  region_bytes :: "nat \<Rightarrow> 'w \<Rightarrow> memory"
  set_region_bytes :: "nat \<Rightarrow> memory \<Rightarrow> 'w \<Rightarrow> 'w"

definition shm_error_from_errno :: "'w posix \<Rightarrow> errno \<Rightarrow> shm_error" where
  "shm_error_from_errno os e = Os (errno_text os e)"

record unix_handle =
  uh_fd :: nat
  uh_size :: usize
  uh_name :: string

text \<open>An owned descriptor that goes out of scope is closed.\<close>

definition dropping :: "('w \<Rightarrow> 'w) \<Rightarrow> ('e + 'a) \<times> 'w \<Rightarrow> ('e + 'a) \<times> 'w" where
  "dropping f r = (case r of (Inl e, w) \<Rightarrow> (Inl e, f w) | (Inr x, w) \<Rightarrow> (Inr x, w))"

definition unix_create ::
    "'w posix \<Rightarrow> string \<Rightarrow> usize \<Rightarrow> 'w \<Rightarrow> (shm_error + unix_handle) \<times> 'w" where
  "unix_create os name n =
     sbind (smap_err (shm_error_from_errno os) (shm_open os name [O_CREAT, O_RDWR] 438)) (\<lambda>fd w.
       case ftruncate os fd (sint n) w of
         (Inl e, w) \<Rightarrow>
           dropping (close_fd os fd) (Inl (shm_error_from_errno os e), snd (shm_unlink os name w))
       | (Inr _, w) \<Rightarrow> (Inr \<lparr>uh_fd = fd, uh_size = n, uh_name = name\<rparr>, w))"

definition unix_open :: "'w posix \<Rightarrow> string \<Rightarrow> 'w \<Rightarrow> (shm_error + unix_handle) \<times> 'w" where
  "unix_open os name =
     sbind (smap_err (shm_error_from_errno os) (shm_open os name [O_RDWR] 0)) (\<lambda>fd w.
       dropping (close_fd os fd)
         (sbind (smap_err (shm_error_from_errno os) (fstat_size os fd)) (\<lambda>st_size.
          sreturn \<lparr>uh_fd = fd, uh_size = st_size, uh_name = name\<rparr>) w))"

definition unix_remove :: "'w posix \<Rightarrow> string \<Rightarrow> 'w \<Rightarrow> (shm_error + unit) \<times> 'w" where
  "unix_remove os name = smap_err (shm_error_from_errno os) (shm_unlink os name)"

definition unix_map :: "'w posix \<Rightarrow> unix_handle \<Rightarrow> 'w \<Rightarrow> (fault + (shm_error + nat)) \<times> 'w" where
  "unix_map os hnd w =
     (if uh_size hnd = 0 then (Inl (Panic ''called `Option::unwrap()` on a `None` value''), w)
      else case smap_err (shm_error_from_errno os) (mmap os (uh_fd hnd) (uh_size hnd)) w of
        (r, w) \<Rightarrow> (Inr r, w))"

definition unix_unmap :: "'w posix \<Rightarrow> nat \<Rightarrow> usize \<Rightarrow> 'w \<Rightarrow> 'w" where
  "unix_unmap os ptr n w = snd (munmap os ptr n w)"

definition unix_size :: "unix_handle \<Rightarrow> usize" where
  "unix_size hnd = uh_size hnd"

definition unix_name :: "unix_handle \<Rightarrow> string" where
  "unix_name hnd = uh_name hnd"

text \<open>The handle owns its descriptor (\<open>OwnedFd\<close>), which is closed with it.\<close>

definition unix_drop :: "'w posix \<Rightarrow> unix_handle \<Rightarrow> 'w \<Rightarrow> 'w" where
  "unix_drop os hnd w = close_fd os (uh_fd hnd) w"

definition unix_platform :: "'w posix \<Rightarrow> (unix_handle, 'w) platform" where
  "unix_platform os =
     \<lparr>p_create = unix_create os, p_open = (\<lambda>name _. unix_open os name), p_remove = unix_remove os,
      p_map = unix_map os, p_unmap = unix_unmap os, p_size = unix_size, p_name = unix_name,
      p_region = region_bytes os, p_set_region = set_region_bytes os, p_drop = unix_drop os\<rparr>"

lemma unix_platform_sel [simp]:
  "p_create (unix_platform os) = unix_create os"
  "p_open (unix_platform os) name sz = unix_open os name"
  "p_remove (unix_platform os) = unix_remove os"
  "p_map (unix_platform os) = unix_map os"
  "p_unmap (unix_platform os) = unix_unmap os"
  "p_size (unix_platform os) = uh_size"
  "p_name (unix_platform os) = uh_name"
  "p_region (unix_platform os) = region_bytes os"
  "p_set_region (unix_platform os) = set_region_bytes os"
  "p_drop (unix_platform os) = unix_drop os"
  by (simp_all add: unix_platform_def unix_size_def unix_name_def fun_eq_iff)

lemma unix_create_eq_Inr:
  "unix_create os name n w = (Inr hnd, w') \<longleftrightarrow>
   (\<exists>w1. shm_open os name [O_CREAT, O_RDWR] 438 w = (Inr (uh_fd hnd), w1) \<and>
      ftruncate os (uh_fd hnd) (sint n) w1 = (Inr (), w') \<and> uh_size hnd = n \<and> uh_name hnd = name)"
proof -
  have tail: "(case ftruncate os fd (sint n) w1 of
      (Inl e, w) \<Rightarrow>
        dropping (close_fd os fd) (Inl (shm_error_from_errno os e), snd (shm_unlink os name w))
    | (Inr _, w) \<Rightarrow> (Inr \<lparr>uh_fd = fd, uh_size = n, uh_name = name\<rparr>, w)) = (Inr hnd, w') \<longleftrightarrow>
      ftruncate os fd (sint n) w1 = (Inr (), w') \<and> hnd = \<lparr>uh_fd = fd, uh_size = n, uh_name = name\<rparr>"
    for fd w1
    by (cases "ftruncate os fd (sint n) w1"; cases "fst (ftruncate os fd (sint n) w1)")
      (auto simp: dropping_def)
  show ?thesis
    unfolding unix_create_def sbind_eq_Inr smap_err_eq_Inr tail by (cases hnd) auto
qed

lemma dropping_eq_Inr: "dropping f r = (Inr x, w) \<longleftrightarrow> r = (Inr x, w)"
  by (cases r; cases "fst r") (auto simp: dropping_def)

lemma unix_open_eq_Inr:
  "unix_open os name w = (Inr hnd, w') \<longleftrightarrow>
   (\<exists>w1. shm_open os name [O_RDWR] 0 w = (Inr (uh_fd hnd), w1) \<and>
      fstat_size os (uh_fd hnd) w1 = (Inr (uh_size hnd), w') \<and> uh_name hnd = name)"
  by (cases hnd) (auto simp: unix_open_def sbind_eq_Inr smap_err_eq_Inr dropping_eq_Inr sreturn_def)

text \<open>A segment that cannot be given its size is removed again and its descriptor closed.\<close>

lemma unix_create_truncate_fails:
  assumes "shm_open os name [O_CREAT, O_RDWR] 438 w = (Inr fd, w1)"
    and "ftruncate os fd (sint n) w1 = (Inl e, w2)"
  shows "unix_create os name n w =
    (Inl (Os (errno_text os e)), close_fd os fd (snd (shm_unlink os name w2)))"
  using assms by (simp add: unix_create_def res_simps dropping_def shm_error_from_errno_def)

interpretation unix: shm_platform "unix_platform os" for os :: "'w posix"
  by unfold_locales (auto simp: unix_create_eq_Inr unix_open_eq_Inr)

end
