(* ===== verification/Win32.thy ===== *)
theory Win32
  imports Platform
begin

text \<open>
  The handle of \<open>src/platform/win32.rs\<close>, over the Win32 calls as parameters. An error of the
  \<open>windows\<close> crate is its text; \<open>map_view_of_file\<close> answers the null address 0 on failure.
\<close>

record 'w win32 =
  create_file_mapping :: "u32 \<Rightarrow> u32 \<Rightarrow> string \<Rightarrow> 'w \<Rightarrow> (string + nat) \<times> 'w"
  open_file_mapping :: "string \<Rightarrow> 'w \<Rightarrow> (string + nat) \<times> 'w"
  map_view_of_file :: "nat \<Rightarrow> usize \<Rightarrow> 'w \<Rightarrow> nat \<times> 'w"
  last_error :: "'w \<Rightarrow> string"
  unmap_view_of_file :: "nat \<Rightarrow> 'w \<Rightarrow> 'w"
  close_handle :: "nat \<Rightarrow> 'w \<Rightarrow> 'w"
  view_bytes :: "nat \<Rightarrow> 'w \<Rightarrow> memory"
  set_view_bytes :: "nat \<Rightarrow> memory \<Rightarrow> 'w \<Rightarrow> 'w"

record win32_handle =
  wh_handle :: nat
  wh_size :: usize
  wh_name :: string

definition to_win32_name :: "string \<Rightarrow> string" where
  "to_win32_name name = dropWhile (\<lambda>c. c = CHR 0x2F) name"

text \<open>\<open>CString::new\<close> refuses an interior NUL byte and reports the first one.\<close>

definition cstring_new :: "string \<Rightarrow> shm_error + string" where
  "cstring_new s =
     (if CHR 0x00 \<in> set s
      then Inl (InvalidArg (''nul byte found in provided data at position: '' @
        show_nat (length (takeWhile (\<lambda>c. c \<noteq> CHR 0x00) s))))
      else Inr s)"

definition size_high :: "usize \<Rightarrow> u32" where
  "size_high n = ucast (drop_bit 32 n)"

definition size_low :: "usize \<Rightarrow> u32" where
  "size_low n = ucast (n AND 0xFFFFFFFF)"

definition win32_create ::
    "'w win32 \<Rightarrow> string \<Rightarrow> usize \<Rightarrow> 'w \<Rightarrow> (shm_error + win32_handle) \<times> 'w" where
  "win32_create api name n =
     sbind (sdo (cstring_new (to_win32_name name))) (\<lambda>c_name.
     sbind (smap_err Os (create_file_mapping api (size_high n) (size_low n) c_name)) (\<lambda>handle.
     sreturn \<lparr>wh_handle = handle, wh_size = n, wh_name = name\<rparr>))"

definition win32_open ::
    "'w win32 \<Rightarrow> string \<Rightarrow> usize \<Rightarrow> 'w \<Rightarrow> (shm_error + win32_handle) \<times> 'w" where
  "win32_open api name n =
     sbind (sdo (cstring_new (to_win32_name name))) (\<lambda>c_name.
     sbind (smap_err Os (open_file_mapping api c_name)) (\<lambda>handle.
     sreturn \<lparr>wh_handle = handle, wh_size = n, wh_name = name\<rparr>))"

definition win32_remove :: "string \<Rightarrow> 'w \<Rightarrow> (shm_error + unit) \<times> 'w" where
  "win32_remove name = sreturn ()"

definition win32_map :: "'w win32 \<Rightarrow> win32_handle \<Rightarrow> 'w \<Rightarrow> (fault + (shm_error + nat)) \<times> 'w" where
  "win32_map api hnd w =
     (case map_view_of_file api (wh_handle hnd) (wh_size hnd) w of
        (addr, w) \<Rightarrow> if addr = 0 then (Inr (Inl (Os (last_error api w))), w) else (Inr (Inr addr), w))"

definition win32_unmap :: "'w win32 \<Rightarrow> nat \<Rightarrow> usize \<Rightarrow> 'w \<Rightarrow> 'w" where
  "win32_unmap api ptr n w = unmap_view_of_file api ptr w"

definition win32_size :: "win32_handle \<Rightarrow> usize" where
  "win32_size hnd = wh_size hnd"

definition win32_name :: "win32_handle \<Rightarrow> string" where
  "win32_name hnd = wh_name hnd"

definition win32_drop :: "'w win32 \<Rightarrow> win32_handle \<Rightarrow> 'w \<Rightarrow> 'w" where
  "win32_drop api hnd w = close_handle api (wh_handle hnd) w"

text \<open>The \<open>cfg(windows)\<close> block of \<open>SharedMemory::open\<close> insists on the size.\<close>

definition win32_open_sized ::
    "'w win32 \<Rightarrow> string \<Rightarrow> usize option \<Rightarrow> 'w \<Rightarrow> (shm_error + win32_handle) \<times> 'w" where
  "win32_open_sized api name n =
     (case n of
        None \<Rightarrow> sdo (Inl (InvalidArg
          ''size is required on Windows (Win32 does not expose segment size)''))
      | Some sz \<Rightarrow> win32_open api name sz)"

definition win32_platform :: "'w win32 \<Rightarrow> (win32_handle, 'w) platform" where
  "win32_platform api =
     \<lparr>p_create = win32_create api, p_open = win32_open_sized api, p_remove = win32_remove,
      p_map = win32_map api, p_unmap = win32_unmap api, p_size = win32_size, p_name = win32_name,
      p_region = view_bytes api, p_set_region = set_view_bytes api, p_drop = win32_drop api\<rparr>"

lemma win32_platform_sel [simp]:
  "p_create (win32_platform api) = win32_create api"
  "p_open (win32_platform api) = win32_open_sized api"
  "p_remove (win32_platform api) = win32_remove"
  "p_map (win32_platform api) = win32_map api"
  "p_unmap (win32_platform api) = win32_unmap api"
  "p_size (win32_platform api) = wh_size"
  "p_name (win32_platform api) = wh_name"
  "p_region (win32_platform api) = view_bytes api"
  "p_set_region (win32_platform api) = set_view_bytes api"
  "p_drop (win32_platform api) = win32_drop api"
  by (simp_all add: win32_platform_def win32_size_def win32_name_def fun_eq_iff)

lemma sdo_eq_Inr: "sdo r s = (Inr x, s') \<longleftrightarrow> r = Inr x \<and> s' = s"
  by (auto simp: sdo_def)

lemma cstring_new_eq_Inr: "cstring_new s = Inr t \<longleftrightarrow> t = s \<and> CHR 0x00 \<notin> set s"
  by (auto simp: cstring_new_def)

interpretation win32: shm_platform "win32_platform api" for api :: "'w win32"
  by unfold_locales
    (auto simp: win32_create_def win32_open_sized_def win32_open_def sbind_eq_Inr smap_err_eq_Inr
      sdo_eq_Inr sreturn_def split: option.splits)

text \<open>The two halves passed to the system give the size back.\<close>

lemma size_halves: "unat (size_high n) * 2 ^ 32 + unat (size_low n) = unat n"
proof -
  have "unat n div 2 ^ 32 < 2 ^ 32" using unat_less_usize [of n] by (simp add: less_mult_imp_div_less)
  then have "unat (size_high n) = unat n div 2 ^ 32"
    by (simp add: size_high_def unsigned_ucast_eq unat_drop_bit_eq drop_bit_eq_div [of 32 "unat n"]
        take_bit_nat_eq_self)
  moreover have "unat (size_low n) = unat n mod 2 ^ 32"
  proof -
    have "n AND 0xFFFFFFFF = n mod 2 ^ 32"
      using take_bit_eq_mask [of 32 n] by (simp add: take_bit_eq_mod mask_eq_exp_minus_1)
    moreover have "unat (n mod 2 ^ 32) = unat n mod 2 ^ 32"
      by (simp add: unat_mod)
    ultimately show ?thesis
      by (simp add: size_low_def unsigned_ucast_eq take_bit_eq_mod)
  qed
  ultimately show ?thesis by simp
qed

end
