(* ===== verification/SharedMem.thy ===== *)
theory SharedMem
  imports Spsc MappedView Unix Win32
begin

text \<open>
  The class \<open>SharedMemory\<close> of \<open>src/shared_memory.rs\<close>, over either platform. The calls that map the
  segment return the address of the mapping with the view.
\<close>

record 'h shared_memory =
  sm_handle :: 'h
  sm_is_creator :: bool

definition validate_name :: "string \<Rightarrow> fault + unit" where
  "validate_name name =
     (if \<not> (name \<noteq> [] \<and> name ! 0 = CHR 0x2F) then
        invalid_arg (''name must start with '' @ squoted ''/'' @
          '' (e.g. '' @ CHR 0x22 # ''/my_segment'' @ CHR 0x22 # '')'')
      else if length name < 2 then
        invalid_arg (''name must have at least one character after '' @ squoted ''/'')
      else Inr ())"

definition shared_create ::
    "('h, 'w) platform \<Rightarrow> string \<Rightarrow> usize \<Rightarrow> 'w \<Rightarrow> (fault + 'h shared_memory) \<times> 'w" where
  "shared_create P name n =
     (if n = 0 then sdo (invalid_arg ''size must be > 0'')
      else
        sbind (sdo (validate_name name)) (\<lambda>_.
        sbind (smap_err (Raise \<circ> py_err_from_shm_error) (p_create P name n)) (\<lambda>handle.
        sreturn \<lparr>sm_handle = handle, sm_is_creator = True\<rparr>)))"

definition shared_open ::
    "('h, 'w) platform \<Rightarrow> string \<Rightarrow> usize option \<Rightarrow> 'w \<Rightarrow> (fault + 'h shared_memory) \<times> 'w" where
  "shared_open P name sz =
     sbind (sdo (validate_name name)) (\<lambda>_.
     sbind (smap_err (Raise \<circ> py_err_from_shm_error) (p_open P name sz)) (\<lambda>handle.
     sreturn \<lparr>sm_handle = handle, sm_is_creator = False\<rparr>))"

definition shared_remove :: "('h, 'w) platform \<Rightarrow> string \<Rightarrow> 'w \<Rightarrow> (fault + unit) \<times> 'w" where
  "shared_remove P name =
     sbind (sdo (validate_name name)) (\<lambda>_.
     smap_err (Raise \<circ> py_err_from_shm_error) (p_remove P name))"

definition shared_name :: "('h, 'w) platform \<Rightarrow> 'h shared_memory \<Rightarrow> string" where
  "shared_name P s = p_name P (sm_handle s)"

definition shared_size :: "('h, 'w) platform \<Rightarrow> 'h shared_memory \<Rightarrow> usize" where
  "shared_size P s = p_size P (sm_handle s)"

definition shared_map ::
    "host \<Rightarrow> ('h, 'w) platform \<Rightarrow> 'h shared_memory \<Rightarrow> 'w \<Rightarrow> (fault + (nat \<times> mapped_view)) \<times> 'w" where
  "shared_map h P s =
     sbind (p_map P (sm_handle s)) (\<lambda>r.
     sbind (sdo (raise_shm r)) (\<lambda>ptr.
     sbind (on_region P ptr (view_new h (p_size P (sm_handle s)) (sm_is_creator s))) (\<lambda>v.
     sreturn (ptr, v))))"

definition shared_spsc ::
    "host \<Rightarrow> ('h, 'w) platform \<Rightarrow> 'h shared_memory \<Rightarrow> 'w \<Rightarrow> (fault + (nat \<times> spsc_ring)) \<times> 'w" where
  "shared_spsc h P s =
     sbind (p_map P (sm_handle s)) (\<lambda>r.
     sbind (sdo (raise_shm r)) (\<lambda>ptr.
     sbind (on_region P ptr (spsc_new h (p_size P (sm_handle s)) (sm_is_creator s))) (\<lambda>_.
     sreturn (ptr, from_ptr (p_size P (sm_handle s))))))"

definition shared_repr :: "('h, 'w) platform \<Rightarrow> 'h shared_memory \<Rightarrow> string" where
  "shared_repr P s =
     ''SharedMemory(name='' @ squoted (p_name P (sm_handle s)) @
     '', size='' @ show_usize (p_size P (sm_handle s)) @
     '', role='' @ (if sm_is_creator s then ''creator'' else ''opener'') @ '')''"

text \<open>A handle that goes out of scope, and a view, which unmaps its region.\<close>

definition shared_drop :: "('h, 'w) platform \<Rightarrow> 'h shared_memory \<Rightarrow> 'w \<Rightarrow> 'w" where
  "shared_drop P s = p_drop P (sm_handle s)"

definition view_drop :: "('h, 'w) platform \<Rightarrow> nat \<times> mapped_view \<Rightarrow> 'w \<Rightarrow> 'w" where
  "view_drop P pv = p_unmap P (fst pv) (view_size (snd pv))"

section \<open>Creating and opening\<close>

lemma validate_name_ok: "validate_name name = Inr () \<longleftrightarrow> (\<exists>c cs. name = CHR 0x2F # c # cs)"
  by (cases name; cases "tl name") (auto simp: validate_name_def)

lemma validate_name_cases: "validate_name name = Inr () \<or> (\<exists>msg. validate_name name = invalid_arg msg)"
  by (auto simp: validate_name_def)

context shm_platform
begin

lemma shared_created:
  assumes "shared_create P name n w = (Inr s, w')"
  shows "shared_size P s = n" "shared_name P s = name" "sm_is_creator s"
    "n \<noteq> 0" "validate_name name = Inr ()"
proof -
  have "n \<noteq> 0 \<and> validate_name name = Inr () \<and>
      (\<exists>hnd. p_create P name n w = (Inr hnd, w') \<and> s = \<lparr>sm_handle = hnd, sm_is_creator = True\<rparr>)"
    using assms
    by (auto simp: shared_create_def sbind_eq_Inr smap_err_eq_Inr sdo_eq_Inr sreturn_def
        split: if_splits)
  then show "shared_size P s = n" "shared_name P s = name" "sm_is_creator s"
    "n \<noteq> 0" "validate_name name = Inr ()"
    using created by (auto simp: shared_size_def shared_name_def)
qed

lemma shared_opened:
  assumes "shared_open P name sz w = (Inr s, w')"
  shows "shared_name P s = name" "\<not> sm_is_creator s"
  using assms opened
  by (auto simp: shared_open_def sbind_eq_Inr smap_err_eq_Inr sdo_eq_Inr sreturn_def shared_name_def)

end

end
