(* ===== verification/Files.thy ===== *)
theory Files
  imports Platform
begin

text \<open>
  What a system with shared memory holds, whichever it is: named objects with their bytes, the handles and
  the mappings that refer to them (record \<open>shm_files\<close>), what a step may change of them, and what the loads
  and stores through a mapping do (\<open>memory_laws\<close>).
\<close>

record 'w shm_files =
  running :: "'w \<Rightarrow> bool"
  named :: "string \<Rightarrow> 'w \<Rightarrow> nat option"
  fd_file :: "nat \<Rightarrow> 'w \<Rightarrow> nat option"
  map_file :: "nat \<Rightarrow> 'w \<Rightarrow> (nat \<times> nat) option"
  file_bytes :: "nat \<Rightarrow> 'w \<Rightarrow> memory"

section \<open>What a step keeps\<close>

text \<open>Mappings stay, and so do the bytes of the objects they map.\<close>

definition keeps_maps :: "'w shm_files \<Rightarrow> 'w \<Rightarrow> 'w \<Rightarrow> bool" where
  "keeps_maps g w w' \<longleftrightarrow> (\<forall>p ob n. map_file g p w = Some (ob, n) \<longrightarrow>
     map_file g p w' = Some (ob, n) \<and> file_bytes g ob w' = file_bytes g ob w)"

text \<open>Names keep the objects they refer to, with their bytes.\<close>

definition keeps_named :: "'w shm_files \<Rightarrow> 'w \<Rightarrow> 'w \<Rightarrow> bool" where
  "keeps_named g w w' \<longleftrightarrow> (\<forall>nm ob. named g nm w = Some ob \<longrightarrow>
     named g nm w' = Some ob \<and> file_bytes g ob w' = file_bytes g ob w)"

text \<open>Only the bytes of the object \<open>ob\<close> may have changed, and no handle or mapping.\<close>

definition only_file :: "'w shm_files \<Rightarrow> nat \<Rightarrow> 'w \<Rightarrow> 'w \<Rightarrow> bool" where
  "only_file g ob w w' \<longleftrightarrow> (\<forall>x. x \<noteq> ob \<longrightarrow> file_bytes g x w' = file_bytes g x w) \<and>
     (\<forall>q. map_file g q w' = map_file g q w) \<and> (\<forall>fd. fd_file g fd w' = fd_file g fd w)"

lemma only_file_trans: "only_file g ob w w1 \<Longrightarrow> only_file g ob w1 w2 \<Longrightarrow> only_file g ob w w2"
  by (simp add: only_file_def)

lemma keeps_maps_trans: "keeps_maps g w w1 \<Longrightarrow> keeps_maps g w1 w2 \<Longrightarrow> keeps_maps g w w2"
  unfolding keeps_maps_def by metis

section \<open>Loads and stores through a mapping\<close>

text \<open>All mappings of an object are windows on its bytes.\<close>

definition region_law :: "('h, 'w) platform \<Rightarrow> 'w shm_files \<Rightarrow> bool" where
  "region_law P g \<longleftrightarrow> (\<forall>p w ob n.
     running g w \<and> map_file g p w = Some (ob, n) \<and> n \<le> length (file_bytes g ob w) \<longrightarrow>
     p_region P p w = take n (file_bytes g ob w))"

definition set_region_law :: "('h, 'w) platform \<Rightarrow> 'w shm_files \<Rightarrow> bool" where
  "set_region_law P g \<longleftrightarrow> (\<forall>p m w ob n.
     running g w \<and> map_file g p w = Some (ob, n) \<and> n \<le> length (file_bytes g ob w) \<and> length m = n \<longrightarrow>
     running g (p_set_region P p m w) \<and>
     file_bytes g ob (p_set_region P p m w) = overwrite 0 m (file_bytes g ob w) \<and>
     only_file g ob w (p_set_region P p m w) \<and>
     (\<forall>nm. named g nm (p_set_region P p m w) = named g nm w))"

definition memory_laws :: "('h, 'w) platform \<Rightarrow> 'w shm_files \<Rightarrow> bool" where
  "memory_laws P g \<longleftrightarrow> region_law P g \<and> set_region_law P g"

lemma region_lawD:
  assumes "memory_laws P g" "running g w" "map_file g p w = Some (ob, n)" "n \<le> length (file_bytes g ob w)"
  shows "p_region P p w = take n (file_bytes g ob w)"
  using assms unfolding memory_laws_def region_law_def by blast

lemma set_region_lawD:
  assumes "memory_laws P g" "running g w" "map_file g p w = Some (ob, n)" "n \<le> length (file_bytes g ob w)"
    and "length m = n"
  shows "running g (p_set_region P p m w)"
    "file_bytes g ob (p_set_region P p m w) = overwrite 0 m (file_bytes g ob w)"
    "map_file g q (p_set_region P p m w) = map_file g q w"
    "named g nm (p_set_region P p m w) = named g nm w" "only_file g ob w (p_set_region P p m w)"
  using assms unfolding memory_laws_def set_region_law_def only_file_def by blast+

end
