(* ===== verification/PosixLaws.thy ===== *)
theory PosixLaws
  imports SharedMem Files
begin

text \<open>
  The documented behaviour of the POSIX calls that sharing a segment rests on, as a predicate on the record
  \<open>posix\<close>: names refer to objects, descriptors and mappings to the same objects, and all mappings of an
  object see its bytes. \<open>shm_files\<close> gives what a state of the system holds; a law says what a
  call that succeeds has done.
\<close>

section \<open>The laws\<close>

text \<open>
  Opening by name, without \<open>O_TRUNC\<close>: an existing object as it is, or with \<open>O_CREAT\<close> a new and empty one
  that nobody has named or mapped; without \<open>O_CREAT\<close> a name that refers to nothing is an error.
\<close>

definition open_law :: "'w posix \<Rightarrow> 'w shm_files \<Rightarrow> bool" where
  "open_law os g \<longleftrightarrow> (\<forall>name fl md w fd w'. running g w \<and> shm_open os name fl md w = (Inr fd, w') \<longrightarrow>
     running g w' \<and> keeps_maps g w w' \<and>
     (\<exists>ob. named g name w' = Some ob \<and> fd_file g fd w' = Some ob \<and>
        (case named g name w of
           None \<Rightarrow> O_CREAT \<in> set fl \<and> file_bytes g ob w' = [] \<and> (\<forall>p n. map_file g p w \<noteq> Some (ob, n))
         | Some x \<Rightarrow> ob = x \<and> file_bytes g ob w' = file_bytes g ob w)))"

definition ftruncate_law :: "'w posix \<Rightarrow> 'w shm_files \<Rightarrow> bool" where
  "ftruncate_law os g \<longleftrightarrow> (\<forall>fd n w w' ob.
     running g w \<and> fd_file g fd w = Some ob \<and> ftruncate os fd n w = (Inr (), w') \<longrightarrow>
     running g w' \<and> 0 \<le> n \<and> fd_file g fd w' = Some ob \<and> (\<forall>nm. named g nm w' = named g nm w) \<and>
     only_file g ob w w' \<and>
     file_bytes g ob w' = take (nat n) (file_bytes g ob w @ replicate (nat n) 0))"

definition fstat_law :: "'w posix \<Rightarrow> 'w shm_files \<Rightarrow> bool" where
  "fstat_law os g \<longleftrightarrow> (\<forall>fd w sz w' ob.
     running g w \<and> fd_file g fd w = Some ob \<and> fstat_size os fd w = (Inr sz, w') \<longrightarrow>
     running g w' \<and> fd_file g fd w' = Some ob \<and> keeps_maps g w w' \<and>
     (\<forall>nm. named g nm w' = named g nm w) \<and> file_bytes g ob w' = file_bytes g ob w \<and>
     length (file_bytes g ob w) \<le> isize_max \<and> sz = of_nat (length (file_bytes g ob w)))"

text \<open>A shared mapping of the first \<open>n\<close> bytes of the object.\<close>

definition mmap_law :: "'w posix \<Rightarrow> 'w shm_files \<Rightarrow> bool" where
  "mmap_law os g \<longleftrightarrow> (\<forall>fd n w p w' ob.
     running g w \<and> fd_file g fd w = Some ob \<and> mmap os fd n w = (Inr p, w') \<longrightarrow>
     running g w' \<and> keeps_maps g w w' \<and> map_file g p w' = Some (ob, unat n) \<and>
     (\<forall>nm. named g nm w' = named g nm w) \<and> file_bytes g ob w' = file_bytes g ob w)"

text \<open>Unlinking takes the name away and nothing else; who has the object mapped keeps it.\<close>

definition unlink_law :: "'w posix \<Rightarrow> 'w shm_files \<Rightarrow> bool" where
  "unlink_law os g \<longleftrightarrow> (\<forall>name w w'. running g w \<and> shm_unlink os name w = (Inr (), w') \<longrightarrow>
     running g w' \<and> keeps_maps g w w' \<and> named g name w' = None)"

text \<open>Unmapping ends one mapping, closing one descriptor; an object that has a name stays.\<close>

definition munmap_law :: "'w posix \<Rightarrow> 'w shm_files \<Rightarrow> bool" where
  "munmap_law os g \<longleftrightarrow> (\<forall>p n w. running g w \<and> map_file g p w \<noteq> None \<longrightarrow>
     running g (snd (munmap os p n w)) \<and> keeps_named g w (snd (munmap os p n w)))"

definition close_law :: "'w posix \<Rightarrow> 'w shm_files \<Rightarrow> bool" where
  "close_law os g \<longleftrightarrow> (\<forall>fd w. running g w \<longrightarrow>
     running g (close_fd os fd w) \<and> keeps_maps g w (close_fd os fd w) \<and> keeps_named g w (close_fd os fd w))"

definition posix_laws :: "'w posix \<Rightarrow> 'w shm_files \<Rightarrow> bool" where
  "posix_laws os g \<longleftrightarrow> open_law os g \<and> ftruncate_law os g \<and> fstat_law os g \<and> mmap_law os g \<and>
     memory_laws (unix_platform os) g \<and> unlink_law os g \<and> munmap_law os g \<and> close_law os g"


section \<open>The laws as rules\<close>

lemma open_lawD:
  assumes "posix_laws os g" "running g w" "shm_open os name fl md w = (Inr fd, w')"
  shows "running g w' \<and> keeps_maps g w w' \<and>
     (\<exists>ob. named g name w' = Some ob \<and> fd_file g fd w' = Some ob \<and>
        (case named g name w of
           None \<Rightarrow> O_CREAT \<in> set fl \<and> file_bytes g ob w' = [] \<and> (\<forall>p n. map_file g p w \<noteq> Some (ob, n))
         | Some x \<Rightarrow> ob = x \<and> file_bytes g ob w' = file_bytes g ob w))"
  using assms unfolding posix_laws_def open_law_def by blast

lemma ftruncate_lawD:
  assumes "posix_laws os g" "running g w" "fd_file g fd w = Some ob" "ftruncate os fd n w = (Inr (), w')"
  shows "running g w'" "0 \<le> n" "fd_file g fd w' = Some ob" "named g nm w' = named g nm w"
    "file_bytes g ob w' = take (nat n) (file_bytes g ob w @ replicate (nat n) 0)" "only_file g ob w w'"
  using assms unfolding posix_laws_def ftruncate_law_def by blast+

lemma fstat_lawD:
  assumes "posix_laws os g" "running g w" "fd_file g fd w = Some ob" "fstat_size os fd w = (Inr sz, w')"
  shows "running g w'" "fd_file g fd w' = Some ob" "keeps_maps g w w'"
    "file_bytes g ob w' = file_bytes g ob w" "length (file_bytes g ob w) \<le> isize_max"
    "sz = of_nat (length (file_bytes g ob w))" "named g nm w' = named g nm w"
  using assms unfolding posix_laws_def fstat_law_def by blast+

lemma mmap_lawD:
  assumes "posix_laws os g" "running g w" "fd_file g fd w = Some ob" "mmap os fd n w = (Inr p, w')"
  shows "running g w'" "keeps_maps g w w'" "map_file g p w' = Some (ob, unat n)"
    "named g nm w' = named g nm w" "file_bytes g ob w' = file_bytes g ob w"
  using assms unfolding posix_laws_def mmap_law_def by blast+

lemma unlink_lawD:
  assumes "posix_laws os g" "running g w" "shm_unlink os name w = (Inr (), w')"
  shows "running g w'" "keeps_maps g w w'" "named g name w' = None"
  using assms unfolding posix_laws_def unlink_law_def by blast+

lemma munmap_lawD:
  assumes "posix_laws os g" "running g w" "map_file g p w = Some x"
  shows "running g (snd (munmap os p n w))" "keeps_named g w (snd (munmap os p n w))"
  using assms unfolding posix_laws_def munmap_law_def by blast+

lemma close_lawD:
  assumes "posix_laws os g" "running g w"
  shows "running g (close_fd os fd w)" "keeps_maps g w (close_fd os fd w)" "keeps_named g w (close_fd os fd w)"
  using assms unfolding posix_laws_def close_law_def by blast+

lemma posix_memory: "posix_laws os g \<Longrightarrow> memory_laws (unix_platform os) g"
  by (simp add: posix_laws_def)

end
