(* ===== verification/PosixExample.thy ===== *)
theory PosixExample
  imports PosixLaws
begin

text \<open>
  A small concrete POSIX shared memory system, at which the properties over \<open>posix\<close> are exercised: named
  objects, descriptors and mappings (an object and a length), all kept for ever. Errors are \<open>ENOENT\<close> (2) and \<open>EINVAL\<close> (22).
\<close>

record shm_world =
  w_names :: "(string \<times> nat) list"
  w_objects :: "memory list"
  w_fds :: "nat list"
  w_maps :: "(nat \<times> nat) list"

definition boot :: shm_world where
  "boot = \<lparr>w_names = [], w_objects = [], w_fds = [], w_maps = []\<rparr>"

definition demo_open :: "string \<Rightarrow> oflag list \<Rightarrow> nat \<Rightarrow> shm_world \<Rightarrow> (errno + nat) \<times> shm_world" where
  "demo_open name flags mode w =
     (case map_of (w_names w) name of
        Some ob \<Rightarrow> (Inr (length (w_fds w)), w\<lparr>w_fds := w_fds w @ [ob]\<rparr>)
      | None \<Rightarrow>
          if O_CREAT \<in> set flags then
            (Inr (length (w_fds w)),
             w\<lparr>w_names := (name, length (w_objects w)) # w_names w,
               w_objects := w_objects w @ [[]], w_fds := w_fds w @ [length (w_objects w)]\<rparr>)
          else (Inl 2, w))"

definition demo_unlink :: "string \<Rightarrow> shm_world \<Rightarrow> (errno + unit) \<times> shm_world" where
  "demo_unlink name w =
     (if map_of (w_names w) name = None then (Inl 2, w)
      else (Inr (), w\<lparr>w_names := filter (\<lambda>p. fst p \<noteq> name) (w_names w)\<rparr>))"

definition demo_truncate :: "nat \<Rightarrow> int \<Rightarrow> shm_world \<Rightarrow> (errno + unit) \<times> shm_world" where
  "demo_truncate fd n w =
     (if n < 0 \<or> 2 ^ 63 \<le> n then (Inl 22, w)
      else
        let ob = w_fds w ! fd; bs = w_objects w ! ob in
        (Inr (), w\<lparr>w_objects := (w_objects w)[ob := take (nat n) (bs @ replicate (nat n) 0)]\<rparr>))"

definition demo_region :: "nat \<Rightarrow> shm_world \<Rightarrow> memory" where
  "demo_region ptr w = take (snd (w_maps w ! ptr)) (w_objects w ! fst (w_maps w ! ptr))"

definition demo_set_region :: "nat \<Rightarrow> memory \<Rightarrow> shm_world \<Rightarrow> shm_world" where
  "demo_set_region ptr m w =
     (let ob = fst (w_maps w ! ptr) in
      w\<lparr>w_objects := (w_objects w)[ob := overwrite 0 m (w_objects w ! ob)]\<rparr>)"

definition demo_posix :: "shm_world posix" where
  "demo_posix =
     \<lparr>errno_text = (\<lambda>e. if e = 2 then ''ENOENT: No such file or directory'' else ''EINVAL: Invalid argument''),
      shm_open = demo_open, shm_unlink = demo_unlink, ftruncate = demo_truncate,
      fstat_size = (\<lambda>fd w. (Inr (of_nat (length (w_objects w ! (w_fds w ! fd)))), w)),
      mmap = (\<lambda>fd n w. (Inr (length (w_maps w)), w\<lparr>w_maps := w_maps w @ [(w_fds w ! fd, unat n)]\<rparr>)),
      munmap = (\<lambda>ptr n w. (Inr (), w)), close_fd = (\<lambda>fd w. w),
      region_bytes = demo_region,
      set_region_bytes = demo_set_region\<rparr>"

lemma demo_posix_sel [simp]:
  "shm_open demo_posix = demo_open" "shm_unlink demo_posix = demo_unlink"
  "ftruncate demo_posix = demo_truncate" "close_fd demo_posix fd w = w"
  "errno_text demo_posix 22 = ''EINVAL: Invalid argument''"
  "mmap demo_posix fd n w = (Inr (length (w_maps w)), w\<lparr>w_maps := w_maps w @ [(w_fds w ! fd, unat n)]\<rparr>)"
  "fstat_size demo_posix fd w = (Inr (of_nat (length (w_objects w ! (w_fds w ! fd)))), w)"
  "region_bytes demo_posix = demo_region" "set_region_bytes demo_posix = demo_set_region"
  by (simp_all add: demo_posix_def)


section \<open>It obeys the laws\<close>

definition demo_files :: "shm_world shm_files" where
  "demo_files =
     \<lparr>running = (\<lambda>w. (\<forall>(nm, ob) \<in> set (w_names w). ob < length (w_objects w)) \<and>
        (\<forall>ob \<in> set (w_fds w). ob < length (w_objects w)) \<and>
        (\<forall>(ob, n) \<in> set (w_maps w). ob < length (w_objects w)) \<and>
        (\<forall>bs \<in> set (w_objects w). length bs \<le> isize_max)),
      named = (\<lambda>nm w. map_of (w_names w) nm),
      fd_file = (\<lambda>fd w. if fd < length (w_fds w) then Some (w_fds w ! fd) else None),
      map_file = (\<lambda>p w. if p < length (w_maps w) then Some (w_maps w ! p) else None),
      file_bytes = (\<lambda>ob w. w_objects w ! ob)\<rparr>"

lemma demo_files_sel [simp]:
  "named demo_files nm w = map_of (w_names w) nm"
  "fd_file demo_files fd w = (if fd < length (w_fds w) then Some (w_fds w ! fd) else None)"
  "map_file demo_files p w = (if p < length (w_maps w) then Some (w_maps w ! p) else None)"
  "file_bytes demo_files ob w = w_objects w ! ob"
  by (simp_all add: demo_files_def)

lemma demo_running:
  "running demo_files w \<longleftrightarrow> (\<forall>(nm, ob) \<in> set (w_names w). ob < length (w_objects w)) \<and>
     (\<forall>ob \<in> set (w_fds w). ob < length (w_objects w)) \<and>
     (\<forall>(ob, n) \<in> set (w_maps w). ob < length (w_objects w)) \<and>
     (\<forall>bs \<in> set (w_objects w). length bs \<le> isize_max)"
  by (simp add: demo_files_def)

lemma demo_boot: "running demo_files boot"
  by (simp add: demo_running boot_def)

lemma demo_open_law: "open_law demo_posix demo_files"
  unfolding open_law_def
proof (intro allI impI, elim conjE)
  fix name fl md w fd w'
  assume run: "running demo_files w" and op: "shm_open demo_posix name fl md w = (Inr fd, w')"
  show "running demo_files w' \<and> keeps_maps demo_files w w' \<and>
     (\<exists>ob. named demo_files name w' = Some ob \<and> fd_file demo_files fd w' = Some ob \<and>
        (case named demo_files name w of
           None \<Rightarrow> O_CREAT \<in> set fl \<and> file_bytes demo_files ob w' = [] \<and> (\<forall>p n. map_file demo_files p w \<noteq> Some (ob, n))
         | Some x \<Rightarrow> ob = x \<and> file_bytes demo_files ob w' = file_bytes demo_files ob w))"
  proof (cases "map_of (w_names w) name")
    case None
    then have w': "O_CREAT \<in> set fl" "fd = length (w_fds w)" "w' = w\<lparr>w_names := (name, length (w_objects w)) # w_names w,
        w_objects := w_objects w @ [[]], w_fds := w_fds w @ [length (w_objects w)]\<rparr>"
      using op by (auto simp: demo_open_def split: if_splits)
    have "running demo_files w'" using run w'(3) by (fastforce simp: demo_running)
    moreover have "map_file demo_files p w \<noteq> Some (length (w_objects w), n)" for p n
    proof
      assume "map_file demo_files p w = Some (length (w_objects w), n)"
      then have "(length (w_objects w), n) \<in> set (w_maps w)"
        by (auto simp: in_set_conv_nth split: if_splits)
      then show False using run unfolding demo_running by blast
    qed
    moreover have "keeps_maps demo_files w w'"
      using run w'(3) by (auto simp: keeps_maps_def demo_running nth_append dest!: nth_mem split: if_splits)
    ultimately show ?thesis using None w' by (simp add: nth_append)
  next
    case (Some ob)
    then have w': "fd = length (w_fds w)" "w' = w\<lparr>w_fds := w_fds w @ [ob]\<rparr>"
      using op by (auto simp: demo_open_def)
    then have "running demo_files w'" using run Some by (auto simp: demo_running dest: map_of_SomeD)
    moreover have "keeps_maps demo_files w w'" using w'(2) by (simp add: keeps_maps_def)
    ultimately show ?thesis using Some w' by (simp add: nth_append)
  qed
qed


lemma running_update:
  assumes "running demo_files w" "length bs \<le> isize_max"
  shows "running demo_files (w\<lparr>w_objects := (w_objects w)[ob := bs]\<rparr>)"
proof -
  have "length x \<le> isize_max" if "x \<in> set ((w_objects w)[ob := bs])" for x
    using that set_update_subset_insert [of "w_objects w" ob bs] assms by (auto simp: demo_running)
  then show ?thesis using assms(1) by (simp add: demo_running)
qed

lemma demo_truncate_law: "ftruncate_law demo_posix demo_files"
  unfolding ftruncate_law_def
proof (intro allI impI, elim conjE)
  fix fd n w w' ob
  assume run: "running demo_files w" and fd: "fd_file demo_files fd w = Some ob"
    and tr: "ftruncate demo_posix fd n w = (Inr (), w')"
  have ob: "fd < length (w_fds w)" "w_fds w ! fd = ob" using fd by (simp_all split: if_splits)
  then have len: "ob < length (w_objects w)" using run by (auto simp: demo_running)
  let ?bs = "take (nat n) (w_objects w ! ob @ replicate (nat n) 0)"
  have n: "0 \<le> n" "n < 2 ^ 63" and w': "w' = w\<lparr>w_objects := (w_objects w)[ob := ?bs]\<rparr>"
    using tr ob by (auto simp: demo_truncate_def Let_def split: if_splits)
  have "length ?bs \<le> isize_max" using n by (simp add: isize_max_def)
  then have "running demo_files w'" unfolding w' by (rule running_update [OF run])
  then show "running demo_files w' \<and> 0 \<le> n \<and> fd_file demo_files fd w' = Some ob \<and>
     (\<forall>nm. named demo_files nm w' = named demo_files nm w) \<and> only_file demo_files ob w w' \<and>
     file_bytes demo_files ob w' = take (nat n) (file_bytes demo_files ob w @ replicate (nat n) 0)"
    using n(1) ob len by (simp add: w' only_file_def)
qed

lemma demo_fstat_law: "fstat_law demo_posix demo_files"
  by (auto simp: fstat_law_def keeps_maps_def demo_running dest!: nth_mem split: if_splits)

lemma demo_mmap_law: "mmap_law demo_posix demo_files"
  unfolding mmap_law_def
proof (intro allI impI, elim conjE)
  fix fd n w p w' ob
  assume run: "running demo_files w" and fd: "fd_file demo_files fd w = Some ob"
    and map: "mmap demo_posix fd n w = (Inr p, w')"
  have ob: "fd < length (w_fds w)" "w_fds w ! fd = ob" using fd by (simp_all split: if_splits)
  have w': "p = length (w_maps w)" "w' = w\<lparr>w_maps := w_maps w @ [(ob, unat n)]\<rparr>" using map ob by auto
  have "running demo_files w'" using run ob w'(2) by (auto simp: demo_running)
  then show "running demo_files w' \<and> keeps_maps demo_files w w' \<and>
      map_file demo_files p w' = Some (ob, unat n) \<and>
      (\<forall>nm. named demo_files nm w' = named demo_files nm w) \<and>
      file_bytes demo_files ob w' = file_bytes demo_files ob w"
    using w' by (simp add: keeps_maps_def nth_append)
qed

lemma demo_region_law: "region_law (unix_platform demo_posix) demo_files"
  by (auto simp: region_law_def demo_region_def split: if_splits)

lemma demo_set_region_law: "set_region_law (unix_platform demo_posix) demo_files"
  unfolding set_region_law_def
proof (intro allI impI, elim conjE)
  fix p and m :: memory and w ob n
  assume run: "running demo_files w" and p: "map_file demo_files p w = Some (ob, n)"
    and n: "n \<le> length (file_bytes demo_files ob w)" "length m = n"
  have map: "p < length (w_maps w)" "w_maps w ! p = (ob, n)" using p by (simp_all split: if_splits)
  then have ob: "ob < length (w_objects w)" using run nth_mem [OF map(1)] by (auto simp: demo_running)
  let ?w = "p_set_region (unix_platform demo_posix) p m w"
  have w': "?w = w\<lparr>w_objects := (w_objects w)[ob := overwrite 0 m (w_objects w ! ob)]\<rparr>"
    using map(2) by (simp add: demo_set_region_def)
  have "length (w_objects w ! ob) \<le> isize_max" using run nth_mem [OF ob] by (auto simp: demo_running)
  then have "running demo_files ?w"
    unfolding w' using n by (intro running_update [OF run]) simp
  then show "running demo_files ?w \<and>
      file_bytes demo_files ob ?w = overwrite 0 m (file_bytes demo_files ob w) \<and>
      only_file demo_files ob w ?w \<and>
      (\<forall>nm. named demo_files nm ?w = named demo_files nm w)"
    unfolding w' using ob by (simp add: only_file_def)
qed

lemma demo_unlink_law: "unlink_law demo_posix demo_files"
proof -
  have "map_of (filter (\<lambda>p. fst p \<noteq> name) xs) name = None" for name and xs :: "(string \<times> nat) list"
    by (auto simp: map_of_eq_None_iff)
  then show ?thesis
    by (auto simp: unlink_law_def demo_unlink_def demo_running keeps_maps_def split: if_splits)
qed

lemma demo_release_laws: "munmap_law demo_posix demo_files" "close_law demo_posix demo_files"
  by (simp_all add: munmap_law_def close_law_def keeps_maps_def keeps_named_def demo_posix_def)

lemma demo_laws: "posix_laws demo_posix demo_files"
  by (simp add: posix_laws_def memory_laws_def demo_open_law demo_truncate_law demo_fstat_law demo_mmap_law
      demo_region_law demo_set_region_law demo_unlink_law demo_release_laws)

end
