(* ===== verification/SharedProps.thy ===== *)
theory SharedProps
  imports PosixExample ViewSpec
begin

text \<open>
  The properties of \<open>SharedMemory\<close> and the platform handles.
\<close>

section \<open>Mapping a segment\<close>

lemma view_new_run:
  assumes "unat n = length m" "length m \<le> isize_max" "4 < length m"
  shows "view_new h n creator m =
    (Inr \<lparr>view_size = n, view_cursor = 0\<rparr>, if creator then i32_upd h 0 0 m else m)"
proof -
  have "\<not> unat n \<le> unat view_header"
    using assms(1,3) by (simp add: view_header_def rwlock_size_def)
  then show ?thesis
    using assms(3)
    by (simp add: view_new_def word_le_nat_alt lock_init_def supd_def i32_f.store_upd sbind_def sreturn_def)
qed

lemma view_new_small:
  assumes "unat n \<le> 4"
  shows "\<exists>msg. view_new h n creator m = (py_raise (PyValueError msg), m)"
  using assms
  by (simp add: view_new_def word_le_nat_alt view_header_def rwlock_size_def sdo_def shm_err_InvalidArg)

section \<open>Properties\<close>

lemma validate_first:
  "\<exists>c cs. name = CHR 0x2F # c # cs \<Longrightarrow> sbind (sdo (validate_name name)) f w = f () w"
  "\<not> (\<exists>c cs. name = CHR 0x2F # c # cs) \<Longrightarrow>
   \<exists>msg. sbind (sdo (validate_name name)) f w = (py_raise (PyValueError msg), w)"
  using validate_name_ok [of name] validate_name_cases [of name]
  by (auto simp: sbind_sdo_shm_err sdo_def shm_err_InvalidArg)

lemma converted:
  "sbind (smap_err (Raise \<circ> py_err_from_shm_error) f) (\<lambda>x. sreturn (g x)) w =
     (case f w of (Inl e, w') \<Rightarrow> (py_raise (py_err_from_shm_error e), w') | (Inr x, w') \<Rightarrow> (Inr (g x), w'))"
  by (cases "f w"; cases "fst (f w)") (auto simp: res_simps sreturn_def)

text \<open>
  C35: create, open and remove check their arguments before they ask the system for anything: with a
  name that is not '/' followed by at least one character (for create, with size 0 too) the call is a
  ValueError and the system is as before; otherwise the outcome is that of the platform, an error as
  an exception of the class of its variant, a handle as a creator's or an opener's.
\<close>

theorem create_outcome:
  "(if n = 0 \<or> \<not> (\<exists>c cs. name = CHR 0x2F # c # cs)
    then \<exists>msg. shared_create P name n w = (py_raise (PyValueError msg), w)
    else shared_create P name n w =
      (case p_create P name n w of
         (Inl e, w') \<Rightarrow> (py_raise (py_err_from_shm_error e), w')
       | (Inr hnd, w') \<Rightarrow> (Inr \<lparr>sm_handle = hnd, sm_is_creator = True\<rparr>, w'))) \<and>
   (if \<not> (\<exists>c cs. name = CHR 0x2F # c # cs)
    then (\<exists>msg. shared_open P name sz w = (py_raise (PyValueError msg), w)) \<and>
      (\<exists>msg. shared_remove P name w = (py_raise (PyValueError msg), w))
    else shared_open P name sz w =
        (case p_open P name sz w of
           (Inl e, w') \<Rightarrow> (py_raise (py_err_from_shm_error e), w')
         | (Inr hnd, w') \<Rightarrow> (Inr \<lparr>sm_handle = hnd, sm_is_creator = False\<rparr>, w')) \<and>
      shared_remove P name w =
        (case p_remove P name w of
           (Inl e, w') \<Rightarrow> (py_raise (py_err_from_shm_error e), w')
         | (Inr _, w') \<Rightarrow> (Inr (), w')))"
proof (cases "\<exists>c cs. name = CHR 0x2F # c # cs")
  case True
  have "shared_remove P name w = (case p_remove P name w of
      (Inl e, w') \<Rightarrow> (py_raise (py_err_from_shm_error e), w') | (Inr _, w') \<Rightarrow> (Inr (), w'))"
    using True by (simp add: shared_remove_def validate_first smap_err_def split: prod.splits sum.splits)
  then show ?thesis
    using True
    by (simp add: shared_create_def shared_open_def validate_first converted sdo_def shm_err_InvalidArg)
next
  case False
  note raise = validate_first(2) [OF False]
  have "\<exists>msg. shared_create P name n w = (py_raise (PyValueError msg), w)"
    using raise by (cases "n = 0") (auto simp: shared_create_def sdo_def shm_err_InvalidArg)
  moreover have "\<exists>msg. shared_open P name sz w = (py_raise (PyValueError msg), w)"
    unfolding shared_open_def by (rule raise)
  moreover have "\<exists>msg. shared_remove P name w = (py_raise (PyValueError msg), w)"
    unfolding shared_remove_def by (rule raise)
  ultimately show ?thesis using False by simp
qed

theorem create_outcome_witness:
  "\<exists>msg. shared_create (unix_platform demo_posix) ''seg'' 64 boot = (py_raise (PyValueError msg), boot)"
  using create_outcome [of 64 "''seg''" "unix_platform demo_posix" boot None] by simp

text \<open>
  C36: On POSIX, creation that cannot size the segment takes it back: when ftruncate fails (as it
  does for every size of 2^63 or more, which becomes negative) the name is unlinked, the descriptor
  closed, and the caller sees an OSError with the text of the errno.
\<close>

theorem unix_create_cleans_up:
  assumes "shm_open os (CHR 0x2F # c # cs) [O_CREAT, O_RDWR] 438 w = (Inr fd, w1)"
    and "ftruncate os fd (sint n) w1 = (Inl e, w2)" "n \<noteq> 0"
  shows "shared_create (unix_platform os) (CHR 0x2F # c # cs) n w =
    (py_raise (PyOSError (errno_text os e)), close_fd os fd (snd (shm_unlink os (CHR 0x2F # c # cs) w2)))"
proof -
  have "validate_name (CHR 0x2F # c # cs) = Inr ()" by (simp add: validate_name_ok)
  then show ?thesis
    using assms(3) unix_create_truncate_fails [OF assms(1,2)]
    by (simp add: shared_create_def res_simps)
qed

theorem unix_create_cleans_up_witness:
  "\<exists>w. shared_create (unix_platform demo_posix) ''/a'' (2 ^ 63) boot =
      (py_raise (PyOSError ''EINVAL: Invalid argument''), w) \<and> w_names w = []"
proof -
  let ?w = "\<lparr>w_names = [(''/a'', 0)], w_objects = [[]], w_fds = [0], w_maps = []\<rparr>"
  have op: "shm_open demo_posix (CHR 0x2F # CHR 0x61 # []) [O_CREAT, O_RDWR] 438 boot = (Inr 0, ?w)"
    by (simp add: demo_open_def boot_def)
  have tr: "ftruncate demo_posix 0 (sint (2 ^ 63 :: usize)) ?w = (Inl 22, ?w)"
    by (simp add: demo_truncate_def)
  from unix_create_cleans_up [OF op tr] show ?thesis
    by (simp add: demo_unlink_def)
qed

text \<open>
  map gives the creator a free lock: on a segment of more than 4 bytes that the platform maps,
  the view has the size of the handle and its cursor at 0, and afterwards the region holds, as the
  file of the view, exactly the data bytes it had; for a creator the lock word is 0, for an opener
  the region is not changed at all.
\<close>

theorem map_outcome:
  assumes "p_map P (sm_handle s) w = (Inr (Inr ptr), w1)"
    and "unat (shared_size P s) = length (p_region P ptr w1)" "length (p_region P ptr w1) \<le> isize_max"
    and "4 < length (p_region P ptr w1)"
  shows "\<exists>v m. shared_map h P s w = (Inr (ptr, v), p_set_region P ptr m w1) \<and>
    view_ok v m \<and> drop 4 m = drop 4 (p_region P ptr w1) \<and> view_cursor v = 0 \<and>
    (if sm_is_creator s then view_holds h (v, m) (drop 4 (p_region P ptr w1), 0)
     else m = p_region P ptr w1)"
proof -
  let ?r = "p_region P ptr w1" and ?v = "\<lparr>view_size = p_size P (sm_handle s), view_cursor = 0\<rparr>"
  let ?m = "if sm_is_creator s then i32_upd h 0 0 ?r else ?r"
  have new: "view_new h (p_size P (sm_handle s)) (sm_is_creator s) ?r = (Inr ?v, ?m)"
    using assms(2-4) by (intro view_new_run) (simp_all add: shared_size_def)
  have "shared_map h P s w = (Inr (ptr, ?v), p_set_region P ptr ?m w1)"
    using new by (simp add: shared_map_def assms(1) on_region_def sbind_def sdo_def sreturn_def)
  moreover have "view_ok ?v ?m" "drop 4 ?m = drop 4 ?r" "lock_val h (i32_upd h 0 0 ?r) = 0"
    using assms(2-4)
    by (simp_all add: view_ok_def shared_size_def i32_f.upd_length drop_i32_upd i32_f.val_upd)
  ultimately show ?thesis by (auto simp: view_holds_def)
qed

definition demo_segment :: "nat \<Rightarrow> bool \<Rightarrow> unix_handle shared_memory" where
  "demo_segment n creator =
     \<lparr>sm_handle = \<lparr>uh_fd = 0, uh_size = of_nat n, uh_name = ''/a''\<rparr>, sm_is_creator = creator\<rparr>"

definition demo_world :: "nat \<Rightarrow> shm_world" where
  "demo_world n = \<lparr>w_names = [(''/a'', 0)], w_objects = [replicate n 7], w_fds = [0], w_maps = []\<rparr>"

lemma demo_map:
  "n \<noteq> 0 \<Longrightarrow> n < 2 ^ 64 \<Longrightarrow>
   p_map (unix_platform demo_posix) (sm_handle (demo_segment n c)) (demo_world n) =
     (Inr (Inr 0), demo_world n\<lparr>w_maps := [(0, n)]\<rparr>)"
  using unat_of_nat_usize [of n]
  by (auto simp: unix_map_def demo_segment_def demo_world_def smap_err_Inr)

lemma demo_world_region [simp]:
  "demo_region 0 (demo_world n\<lparr>w_maps := [(0, n)]\<rparr>) = replicate n 7"
  "length m = n \<Longrightarrow> demo_set_region 0 m (demo_world n\<lparr>w_maps := [(0, n)]\<rparr>) =
     demo_world n\<lparr>w_maps := [(0, n)], w_objects := [m]\<rparr>"
  by (simp_all add: demo_region_def demo_set_region_def demo_world_def overwrite_def)

theorem map_outcome_witness:
  "\<exists>v m. shared_map le_host (unix_platform demo_posix) (demo_segment 8 True) (demo_world 8) =
      (Inr (0, v), demo_world 8\<lparr>w_maps := [(0, 8)], w_objects := [m]\<rparr>) \<and>
    view_holds le_host (v, m) (replicate 4 7, 0)"
proof -
  have "p_map (unix_platform demo_posix) (sm_handle (demo_segment 8 True)) (demo_world 8) =
      (Inr (Inr 0), demo_world 8\<lparr>w_maps := [(0, 8)]\<rparr>)"
    by (rule demo_map) simp_all
  from map_outcome [OF this, of le_host] obtain v m where
    map: "shared_map le_host (unix_platform demo_posix) (demo_segment 8 True) (demo_world 8) =
      (Inr (0, v), demo_set_region 0 m (demo_world 8\<lparr>w_maps := [(0, 8)]\<rparr>))"
    and holds: "view_holds le_host (v, m) (drop 4 (replicate 8 7), 0)"
    by (auto simp: shared_size_def demo_segment_def isize_max_def)
  have "drop 4 m = drop 4 (replicate 8 7)" using holds by (simp only: view_holds_def fst_conv snd_conv prod.inject)
  then have "length (drop 4 m) = length (drop 4 (replicate 8 (7 :: u8)))" by (rule arg_cong)
  then have "length m = 8" by simp
  then show ?thesis using map holds by (intro exI [of _ v] exI [of _ m]) simp
qed

text \<open>
  A segment too small for the lock is refused, but its mapping is not given back: if the
  platform maps a segment of at most 4 bytes, map raises a ValueError and the system is left with the
  mapping made.
\<close>

theorem map_small_leaks:
  assumes "p_map P (sm_handle s) w = (Inr (Inr ptr), w1)" "unat (shared_size P s) \<le> 4"
  shows "\<exists>msg. shared_map h P s w = (py_raise (PyValueError msg), p_set_region P ptr (p_region P ptr w1) w1)"
  using view_new_small [of "p_size P (sm_handle s)" h "sm_is_creator s" "p_region P ptr w1"] assms(2)
  by (auto simp: shared_map_def assms(1) on_region_def sbind_def sdo_def shared_size_def)

theorem map_small_leaks_witness:
  "\<exists>msg. shared_map le_host (unix_platform demo_posix) (demo_segment 3 True) (demo_world 3) =
    (py_raise (PyValueError msg), demo_world 3\<lparr>w_maps := [(0, 3)]\<rparr>)"
proof -
  have "p_map (unix_platform demo_posix) (sm_handle (demo_segment 3 True)) (demo_world 3) =
      (Inr (Inr 0), demo_world 3\<lparr>w_maps := [(0, 3)]\<rparr>)"
    by (rule demo_map) simp_all
  moreover have "demo_world 3\<lparr>w_maps := [(0, 3)], w_objects := [replicate 3 7]\<rparr> =
      demo_world 3\<lparr>w_maps := [(0, 3)]\<rparr>"
    by (simp add: demo_world_def)
  ultimately show ?thesis
    using map_small_leaks [of "unix_platform demo_posix" "demo_segment 3 True" "demo_world 3" 0
        "demo_world 3\<lparr>w_maps := [(0, 3)]\<rparr>" le_host]
    by (simp add: shared_size_def demo_segment_def)
qed

text \<open>
  On POSIX, mapping an existing but empty segment panics instead of raising: a handle of size 0
  makes both map and spsc unwrap a None, before the system is asked.
\<close>

theorem unix_map_empty_panics:
  assumes "shared_size (unix_platform os) s = 0"
  shows "(\<exists>msg. shared_map h (unix_platform os) s w = (Inl (Panic msg), w)) \<and>
    (\<exists>msg. shared_spsc h (unix_platform os) s w = (Inl (Panic msg), w))"
  using assms by (simp add: shared_map_def shared_spsc_def shared_size_def unix_map_def sbind_def)

theorem unix_map_empty_panics_witness:
  "\<exists>msg. shared_map le_host (unix_platform demo_posix) (demo_segment 0 False) (demo_world 0) =
    (Inl (Panic msg), demo_world 0)"
  using unix_map_empty_panics [of demo_posix "demo_segment 0 False" le_host "demo_world 0"]
  by (simp add: demo_segment_def shared_size_def)

lemma win32_name_nul: "CHR 0x00 \<in> set (to_win32_name name) \<longleftrightarrow> CHR 0x00 \<in> set name"
proof -
  have "CHR 0x00 \<notin> set (takeWhile (\<lambda>c. c = CHR 0x2F) name)" by (auto dest: set_takeWhileD)
  then show ?thesis
    using takeWhile_dropWhile_id [of "\<lambda>c. c = CHR 0x2F" name] unfolding to_win32_name_def
    by (metis Un_iff set_append)
qed

lemma os_call:
  "sbind (smap_err Os f) (\<lambda>x. sreturn (g x)) w =
     (case f w of (Inl e, w') \<Rightarrow> (Inl (Os e), w') | (Inr x, w') \<Rightarrow> (Inr (g x), w'))"
  by (cases "f w"; cases "fst (f w)") (auto simp: res_simps sreturn_def)

text \<open>
  On Windows the object name is the segment name without any of its leading slashes, and the
  size reaches the system in two 32-bit halves that give it back: win32 creation passes on a name
  that does not start with '/' and two words h and l with h * 2^32 + l = size, opening the same name;
  a name with a NUL byte is a ValueError before the system is asked.
\<close>

theorem win32_create_arguments:
  "\<exists>slashes hi lo. name = slashes @ to_win32_name name \<and> set slashes \<subseteq> {CHR 0x2F} \<and>
    (to_win32_name name \<noteq> [] \<longrightarrow> to_win32_name name ! 0 \<noteq> CHR 0x2F) \<and>
    unat (hi :: u32) * 2 ^ 32 + unat (lo :: u32) = unat n \<and>
    (if CHR 0x00 \<in> set name
     then \<exists>msg. win32_create api name n w = (Inl (InvalidArg msg), w) \<and>
       win32_open api name n w = (Inl (InvalidArg msg), w)
     else win32_create api name n w =
        (case create_file_mapping api hi lo (to_win32_name name) w of
           (Inl e, w') \<Rightarrow> (Inl (Os e), w')
         | (Inr handle, w') \<Rightarrow> (Inr \<lparr>wh_handle = handle, wh_size = n, wh_name = name\<rparr>, w')) \<and>
       win32_open api name n w =
        (case open_file_mapping api (to_win32_name name) w of
           (Inl e, w') \<Rightarrow> (Inl (Os e), w')
         | (Inr handle, w') \<Rightarrow> (Inr \<lparr>wh_handle = handle, wh_size = n, wh_name = name\<rparr>, w')))"
proof (intro exI conjI)
  show "name = takeWhile (\<lambda>c. c = CHR 0x2F) name @ to_win32_name name"
    by (simp add: to_win32_name_def)
  show "set (takeWhile (\<lambda>c. c = CHR 0x2F) name) \<subseteq> {CHR 0x2F}"
    by (auto dest: set_takeWhileD)
  show "to_win32_name name \<noteq> [] \<longrightarrow> to_win32_name name ! 0 \<noteq> CHR 0x2F"
    using hd_dropWhile [of "\<lambda>c. c = CHR 0x2F" name] by (auto simp: to_win32_name_def hd_conv_nth)
  show "unat (size_high n) * 2 ^ 32 + unat (size_low n) = unat n" by (rule size_halves)
  show "if CHR 0x00 \<in> set name
     then \<exists>msg. win32_create api name n w = (Inl (InvalidArg msg), w) \<and>
       win32_open api name n w = (Inl (InvalidArg msg), w)
     else win32_create api name n w =
        (case create_file_mapping api (size_high n) (size_low n) (to_win32_name name) w of
           (Inl e, w') \<Rightarrow> (Inl (Os e), w')
         | (Inr handle, w') \<Rightarrow> (Inr \<lparr>wh_handle = handle, wh_size = n, wh_name = name\<rparr>, w')) \<and>
       win32_open api name n w =
        (case open_file_mapping api (to_win32_name name) w of
           (Inl e, w') \<Rightarrow> (Inl (Os e), w')
         | (Inr handle, w') \<Rightarrow> (Inr \<lparr>wh_handle = handle, wh_size = n, wh_name = name\<rparr>, w'))"
  proof (cases "CHR 0x00 \<in> set name")
    case True
    then show ?thesis
      using win32_name_nul [of name] by (simp add: win32_create_def win32_open_def cstring_new_def)
  next
    case False
    then show ?thesis
      using win32_name_nul [of name]
      by (simp add: win32_create_def win32_open_def cstring_new_def os_call)
  qed
qed

text \<open>A Windows system that answers every creation with the handle 9, for the example.\<close>

definition demo_win32 :: "unit win32" where
  "demo_win32 =
     \<lparr>create_file_mapping = (\<lambda>hi lo name w. (Inr 9, w)), open_file_mapping = (\<lambda>name w. (Inl ''no'', w)),
      map_view_of_file = (\<lambda>handle n w. (0, w)), last_error = (\<lambda>w. ''no''),
      unmap_view_of_file = (\<lambda>ptr w. w), close_handle = (\<lambda>handle w. w),
      view_bytes = (\<lambda>ptr w. []), set_view_bytes = (\<lambda>ptr m w. w)\<rparr>"

theorem win32_create_arguments_witness:
  "\<exists>slashes. ''//a'' = slashes @ to_win32_name ''//a'' \<and> set slashes \<subseteq> {CHR 0x2F} \<and>
    win32_create demo_win32 ''//a'' 64 () = (Inr \<lparr>wh_handle = 9, wh_size = 64, wh_name = ''//a''\<rparr>, ())"
  using win32_create_arguments [of "''//a''" 64 demo_win32 "()"]
  by (auto simp: demo_win32_def)

end
