(* ===== verification/Segment.thy ===== *)
theory Segment
  imports Files SharedMem ViewSpec SpscSpec
begin

text \<open>
  Mappings of one shared object, on any platform whose mappings obey \<open>memory_laws\<close>: the views behind two
  mappings are one file with two positions (locale \<open>simulation\<close>), two ends of a ring one bounded queue
  (locale \<open>limited_simulation\<close>).
\<close>

section \<open>Mappings of one object\<close>

text \<open>\<open>attached P g ob n ps w\<close>: the addresses \<open>ps\<close> map all \<open>n\<close> bytes of the object \<open>ob\<close>.\<close>

definition attached :: "('h, 'w) platform \<Rightarrow> 'w shm_files \<Rightarrow> nat \<Rightarrow> nat \<Rightarrow> nat list \<Rightarrow> 'w \<Rightarrow> bool" where
  "attached P g ob n ps w \<longleftrightarrow> memory_laws P g \<and> running g w \<and> length (file_bytes g ob w) = n \<and>
     (\<forall>p \<in> set ps. map_file g p w = Some (ob, n))"

lemma attached_region:
  assumes "attached P g ob n ps w" "p \<in> set ps"
  shows "p_region P p w = file_bytes g ob w"
  using assms region_lawD [of P g w p ob n] by (simp add: attached_def)

lemma attached_set:
  assumes "attached P g ob n ps w" "p \<in> set ps" "length m = n"
  shows "attached P g ob n ps (p_set_region P p m w)"
    "file_bytes g ob (p_set_region P p m w) = m"
    "named g nm (p_set_region P p m w) = named g nm w" "only_file g ob w (p_set_region P p m w)"
proof -
  have a: "memory_laws P g" "running g w" "map_file g p w = Some (ob, n)" "length (file_bytes g ob w) = n"
    using assms(1,2) by (auto simp: attached_def)
  then have "n \<le> length (file_bytes g ob w)" by simp
  note s = set_region_lawD [OF a(1-3) this assms(3)]
  show m: "file_bytes g ob (p_set_region P p m w) = m"
    using s(2) a(4) assms(3) by (simp add: overwrite_def)
  show "attached P g ob n ps (p_set_region P p m w)"
    using assms(1,3) s(1,3) m by (simp add: attached_def)
  show "named g nm (p_set_region P p m w) = named g nm w" "only_file g ob w (p_set_region P p m w)"
    by (rule s(4,5))+
qed

text \<open>What is attached to one object is not disturbed by changes of another.\<close>

lemma attached_away:
  assumes "attached P g x n qs w" "only_file g ob w w'" "x \<noteq> ob" "running g w'"
  shows "attached P g x n qs w'" "file_bytes g x w' = file_bytes g x w"
  using assms by (auto simp: attached_def only_file_def)

lemma attached_keeps:
  assumes "attached P g ob n ps w" "ps \<noteq> []" "keeps_maps g w w'" "running g w'"
  shows "attached P g ob n ps w'" "file_bytes g ob w' = file_bytes g ob w"
proof -
  have m: "map_file g p w = Some (ob, n)" if "p \<in> set ps" for p
    using assms(1) that by (simp add: attached_def)
  then show b: "file_bytes g ob w' = file_bytes g ob w"
    using assms(2,3) by (cases ps) (auto simp: keeps_maps_def)
  show "attached P g ob n ps w'"
    using assms m b by (auto simp: attached_def keeps_maps_def)
qed

section \<open>Mapping from a handle\<close>

lemma shared_map_eq_Inr:
  "shared_map h P s w = (Inr (a, v), w') \<longleftrightarrow>
   (\<exists>w1 m. p_map P (sm_handle s) w = (Inr (Inr a), w1) \<and>
      view_new h (p_size P (sm_handle s)) (sm_is_creator s) (p_region P a w1) = (Inr v, m) \<and>
      w' = p_set_region P a m w1)"
  by (auto simp: shared_map_def sbind_eq_Inr on_region_eq_Inr sdo_eq_Inr sreturn_def raise_shm_eq_Inr)

lemma shared_spsc_eq_Inr:
  "shared_spsc h P s w = (Inr (a, r), w') \<longleftrightarrow>
   (\<exists>w1 m. p_map P (sm_handle s) w = (Inr (Inr a), w1) \<and>
      spsc_new h (p_size P (sm_handle s)) (sm_is_creator s) (p_region P a w1) = (Inr (), m) \<and>
      r = from_ptr (p_size P (sm_handle s)) \<and> w' = p_set_region P a m w1)"
  by (auto simp: shared_spsc_def sbind_eq_Inr on_region_eq_Inr sdo_eq_Inr sreturn_def raise_shm_eq_Inr)

section \<open>Two views of one file\<close>

text \<open>A call of a view through the mapping it has.\<close>

definition region_call ::
    "host \<Rightarrow> ('h, 'w) platform \<Rightarrow> nat \<Rightarrow> view_op \<Rightarrow> mapped_view \<times> 'w \<Rightarrow> (view_seen \<times> mapped_view \<times> 'w) option" where
  "region_call h P a x s =
     (case quiet_call h x (fst s, p_region P a (snd s)) of
        None \<Rightarrow> None
      | Some (r, v, m) \<Rightarrow> Some (r, v, p_set_region P a m (snd s)))"

text \<open>Whole calls of the two processes: \<open>True\<close> marks those of the first.\<close>

fun party_call ::
    "host \<Rightarrow> ('h, 'w) platform \<Rightarrow> nat \<Rightarrow> nat \<Rightarrow> bool \<times> view_op \<Rightarrow>
     mapped_view \<times> mapped_view \<times> 'w \<Rightarrow> (view_seen \<times> mapped_view \<times> mapped_view \<times> 'w) option" where
  "party_call h P a b (first, x) (v, v', w) =
     (if first then map_option (\<lambda>(r, v, w). (r, v, v', w)) (region_call h P a x (v, w))
      else map_option (\<lambda>(r, v', w). (r, v, v', w)) (region_call h P b x (v', w)))"

text \<open>The specification: one file, two positions.\<close>

type_synonym shared_file = "u8 list \<times> nat \<times> nat"

fun shared_call :: "host \<Rightarrow> bool \<times> view_op \<Rightarrow> shared_file \<Rightarrow> view_seen \<times> shared_file" where
  "shared_call h (first, x) (bs, p, q) =
     (if first then (case file_call h x (bs, p) of (r, bs, p) \<Rightarrow> (r, bs, p, q))
      else (case file_call h x (bs, q) of (r, bs, q) \<Rightarrow> (r, bs, p, q)))"

definition region_holds ::
    "('h, 'w) platform \<Rightarrow> 'w shm_files \<Rightarrow> nat \<Rightarrow> host \<Rightarrow> nat list \<Rightarrow> mapped_view \<times> 'w \<Rightarrow> byte_file \<Rightarrow> bool" where
  "region_holds P g ob h ps s f \<longleftrightarrow>
     attached P g ob (4 + length (fst f)) ps (snd s) \<and> view_holds h (fst s, file_bytes g ob (snd s)) f"

lemma region_call_holds:
  assumes holds: "region_holds P g ob h ps (v, w) f" and p: "p \<in> set ps"
  shows "\<exists>v' w'. region_call h P p x (v, w) = Some (fst (file_call h x f), v', w') \<and>
    region_holds P g ob h ps (v', w') (snd (file_call h x f)) \<and>
    (\<forall>nm. named g nm w' = named g nm w) \<and> only_file g ob w w'"
proof -
  let ?m = "file_bytes g ob w" and ?f = "snd (file_call h x f)"
  have at: "attached P g ob (4 + length (fst f)) ps w" and view: "view_holds h (v, ?m) f"
    using holds by (simp_all add: region_holds_def)
  obtain v' m' where call: "quiet_call h x (v, ?m) = Some (fst (file_call h x f), v', m')"
    and view': "view_holds h (v', m') ?f"
    using view.call_sim [OF view, of x] by auto
  have len: "length m' = 4 + length (fst f)"
    using view' length_file_call [of h x f] by (auto simp: view_holds_def view_ok_def)
  have "region_call h P p x (v, w) =
      Some (fst (file_call h x f), v', p_set_region P p m' w)"
    using call attached_region [OF at p] by (simp add: region_call_def)
  moreover have "region_holds P g ob h ps (v', p_set_region P p m' w) ?f"
    using attached_set [OF at p len] view' length_file_call [of h x f] by (simp add: region_holds_def)
  ultimately show ?thesis using attached_set(3,4) [OF at p len] by blast
qed

text \<open>What another view of the same region holds when the file has changed.\<close>

lemma region_holds_other:
  assumes "region_holds P g ob h ps (v, w) (bs, p)" "region_holds P g ob h ps' (u, w') (cs, q)"
    and "length cs = length bs"
  shows "region_holds P g ob h ps' (v, w') (cs, p)"
proof -
  let ?m = "file_bytes g ob w" and ?m' = "file_bytes g ob w'"
  have A: "attached P g ob (4 + length bs) ps w" "view_holds h (v, ?m) (bs, p)"
    and B: "attached P g ob (4 + length cs) ps' w'" "view_holds h (u, ?m') (cs, q)"
    using assms(1,2) by (simp_all only: region_holds_def fst_conv snd_conv)
  have "length ?m = length ?m'"
    using A(1) B(1) assms(3) by (simp only: attached_def)
  then have "view_ok v ?m'" using view_holds_D(1) [OF A(2)] by (simp add: view_ok_def)
  moreover have "lock_val h ?m' = 0" "cs = drop 4 ?m'" "p = unat (view_cursor v)"
    using view_holds_D(2,3) [OF B(2)] view_holds_D(3) [OF A(2)] by simp_all
  ultimately have "view_holds h (v, ?m') (cs, p)" by (simp only: view_holds_def fst_conv snd_conv)
  then show ?thesis using B(1) by (simp only: region_holds_def fst_conv snd_conv)
qed

definition party_holds ::
    "('h, 'w) platform \<Rightarrow> 'w shm_files \<Rightarrow> nat \<Rightarrow> host \<Rightarrow> nat \<Rightarrow> nat \<Rightarrow>
     mapped_view \<times> mapped_view \<times> 'w \<Rightarrow> shared_file \<Rightarrow> bool" where
  "party_holds P g ob h a b s f \<longleftrightarrow>
     (case (s, f) of ((v, v', w), (bs, p, q)) \<Rightarrow>
        region_holds P g ob h [a, b] (v, w) (bs, p) \<and> region_holds P g ob h [a, b] (v', w) (bs, q))"

text \<open>Any calls through one mapping: they answer what the file does and leave all else alone.\<close>

interpretation own: simulation
  "region_call h P p" "file_call h"
  "\<lambda>s f. region_holds P g ob h [p] s f \<and> (\<forall>nm. named g nm (snd s) = named g nm w) \<and> only_file g ob w (snd s)"
  for P :: "('h, 'w) platform" and g ob h p w
proof
  fix s f x
  assume H: "region_holds P g ob h [p] s f \<and> (\<forall>nm. named g nm (snd s) = named g nm w) \<and> only_file g ob w (snd s)"
  have s: "region_holds P g ob h [p] (fst s, snd s) f" "p \<in> set [p]" using H by simp_all
  from region_call_holds [OF s, of x] obtain v' w' where
    s': "region_call h P p x (fst s, snd s) = Some (fst (file_call h x f), v', w')"
    "region_holds P g ob h [p] (v', w') (snd (file_call h x f))"
    "\<forall>nm. named g nm w' = named g nm (snd s)" "only_file g ob (snd s) w'"
    by (elim exE conjE) (rule that)
  have "only_file g ob w w'" by (rule only_file_trans [OF _ s'(4)]) (use H in simp)
  then show "\<exists>s'. region_call h P p x s = Some (fst (file_call h x f), s') \<and>
      region_holds P g ob h [p] s' (snd (file_call h x f)) \<and> (\<forall>nm. named g nm (snd s') = named g nm w) \<and>
      only_file g ob w (snd s')"
    using H s'(1-3) by (intro exI [of _ "(v', w')"] conjI) simp_all
qed

lemma region_run:
  assumes "region_holds P g ob h [p] (v, w) f"
  shows "\<exists>v' w'. run_calls (region_call h P p) xs (v, w) = Some (fst (run_spec (file_call h) xs f), v', w') \<and>
    region_holds P g ob h [p] (v', w') (snd (run_spec (file_call h) xs f)) \<and>
    (\<forall>nm. named g nm w' = named g nm w) \<and> only_file g ob w w'"
proof -
  have "region_holds P g ob h [p] (v, w) f \<and> (\<forall>nm. named g nm (snd (v, w)) = named g nm w) \<and>
      only_file g ob w (snd (v, w))"
    using assms by (simp add: only_file_def)
  from own.run_sim [OF this, of xs] obtain s' where
    "run_calls (region_call h P p) xs (v, w) = Some (fst (run_spec (file_call h) xs f), s')"
    "region_holds P g ob h [p] s' (snd (run_spec (file_call h) xs f))"
    "\<forall>nm. named g nm (snd s') = named g nm w" "only_file g ob w (snd s')"
    by (elim exE conjE) (rule that)
  then show ?thesis by (intro exI [of _ "fst s'"] exI [of _ "snd s'"]) simp
qed

interpretation shared: simulation
  "party_call h P a b" "shared_call h" "party_holds P g ob h a b"
  for P :: "('h, 'w) platform" and g ob h a b
proof
  fix s :: "mapped_view \<times> mapped_view \<times> 'w" and f and x :: "bool \<times> view_op"
  assume holds: "party_holds P g ob h a b s f"
  obtain v v' w where s: "s = (v, v', w)" by (cases s)
  obtain bs p q where f: "f = (bs, p, q)" by (cases f)
  obtain first y where x: "x = (first, y)" by (cases x)
  have A: "region_holds P g ob h [a, b] (v, w) (bs, p)" and B: "region_holds P g ob h [a, b] (v', w) (bs, q)"
    using holds by (simp_all add: party_holds_def s f)
  show "\<exists>s'. party_call h P a b x s = Some (fst (shared_call h x f), s') \<and>
      party_holds P g ob h a b s' (snd (shared_call h x f))"
  proof (cases first)
    case True
    obtain r cs p' where c: "file_call h y (bs, p) = (r, cs, p')" by (cases "file_call h y (bs, p)") auto
    have "length cs = length bs" using length_file_call [of h y "(bs, p)"] c by simp
    then show ?thesis
      using region_call_holds [OF A, of a y] region_holds_other [OF B] c True
      by (auto simp: s f x party_holds_def)
  next
    case False
    obtain r cs q' where c: "file_call h y (bs, q) = (r, cs, q')" by (cases "file_call h y (bs, q)") auto
    have "length cs = length bs" using length_file_call [of h y "(bs, q)"] c by simp
    then show ?thesis
      using region_call_holds [OF B, of b y] region_holds_other [OF A] c False
      by (auto simp: s f x party_holds_def)
  qed
qed


section \<open>Two ends of one ring\<close>

definition same_length :: "(memory \<Rightarrow> ('e + 'a) \<times> memory) \<Rightarrow> bool" where
  "same_length f \<longleftrightarrow> (\<forall>m. length (snd (f m)) = length m)"

named_theorems lengths

lemma same_length_sbind [lengths]:
  "same_length f \<Longrightarrow> (\<And>x. same_length (g x)) \<Longrightarrow> same_length (sbind f g)"
  by (auto simp: same_length_def sbind_def split: prod.splits sum.splits) (metis snd_conv)+

lemma same_length_pure [lengths]:
  "same_length (sdo r)" "same_length (sreturn x)" "same_length (sget f)"
  by (simp_all add: same_length_def sdo_def sreturn_def sget_def)

lemma same_length_store [lengths]: "same_length (supd (store_u8 i b))" "same_length (supd (store_usize h off v))"
  by (auto simp: same_length_def supd_def store_u8_def store_usize_def)

lemma same_length_cases [lengths]:
  "same_length f \<Longrightarrow> same_length f' \<Longrightarrow> same_length (if c then f else f')"
  "same_length f \<Longrightarrow> (\<And>y. same_length (k y)) \<Longrightarrow> same_length (case z of None \<Rightarrow> f | Some y \<Rightarrow> k y)"
  "(\<And>y1 y2. same_length (k2 y1 y2)) \<Longrightarrow> same_length (case p of (y1, y2) \<Rightarrow> k2 y1 y2)"
  by (simp_all split: option.split prod.split)

lemma same_length_write_loop [lengths]: "same_length (write_loop h pos msk i src)"
  by (induction src arbitrary: i) (auto intro!: lengths)

lemma same_length_read_loop [lengths]: "same_length (read_loop h pos msk i n dst)"
  by (induction n arbitrary: i dst) (auto intro!: lengths)

lemma same_length_push: "same_length (push h r v)"
  unfolding push_def capacity_def load_head_def load_tail_def write_bytes_def store_tail_def Let_def
  by (intro lengths)

lemma same_length_pop: "same_length (pop h tag)"
  unfolding pop_def capacity_def load_head_def load_tail_def read_bytes_def store_head_def Let_def
  by (intro lengths)


lemma same_length_pop_mixed: "same_length (pop_mixed h schema)"
  unfolding pop_mixed_def capacity_def load_head_def load_tail_def read_bytes_def store_head_def Let_def
  by (intro lengths)

lemma same_length_ring_call: "same_length (ring_call h r x)"
proof (cases x)
  case (Push v)
  then show ?thesis by (simp add: lengths same_length_push)
next
  case (Pop tag)
  then show ?thesis by (simp add: lengths same_length_pop)
next
  case (PopMixed schema)
  then show ?thesis by (simp add: lengths same_length_pop_mixed)
qed (simp_all add: lengths used_def capacity_def free_def is_empty_def is_full_def spsc_repr_def
    load_head_def load_tail_def)

text \<open>A ring in the object \<open>ob\<close>, which holds \<open>q\<close> and is good for the calls \<open>xs\<close> to come.\<close>

definition ring_on ::
    "('h, 'w) platform \<Rightarrow> 'w shm_files \<Rightarrow> nat \<Rightarrow> string \<Rightarrow> nat \<Rightarrow> nat list \<Rightarrow> host \<Rightarrow> nat \<Rightarrow>
     ring_op list \<Rightarrow> 'w \<Rightarrow> u8 list list \<Rightarrow> bool" where
  "ring_on P g ob name n ps h k xs w q \<longleftrightarrow> attached P g ob n ps w \<and> named g name w = Some ob \<and>
     ring_holds h k xs (file_bytes g ob w) q"

text \<open>A call through one of the mappings.\<close>

lemma ring_on_call:
  assumes "ring_on P g ob name n ps h k (x # xs) w q" "p \<in> set ps"
  shows "\<exists>w'. on_region P p (ring_call h (from_ptr msize) x) w = (fst (queue_call h msize (2 ^ k) x q), w') \<and>
    ring_on P g ob name n ps h k xs w' (snd (queue_call h msize (2 ^ k) x q))"
proof -
  have at: "attached P g ob n ps w" and named: "named g name w = Some ob"
    and holds: "ring_holds h k (x # xs) (file_bytes g ob w) q"
    using assms(1) by (simp_all add: ring_on_def)
  obtain m where m: "ring_call h (from_ptr msize) x (file_bytes g ob w) = (fst (queue_call h msize (2 ^ k) x q), m)"
    "ring_holds h k xs m (snd (queue_call h msize (2 ^ k) x q))"
    using ring.limited_call_sim [OF holds, of msize] by auto
  have "length (snd (ring_call h (from_ptr msize) x (file_bytes g ob w))) = length (file_bytes g ob w)"
    using same_length_ring_call by (simp add: same_length_def)
  then have "length m = n" using m(1) at by (simp add: attached_def)
  then show ?thesis
    using m named attached_region [OF at assms(2)] attached_set [OF at assms(2)]
    by (simp add: on_region_def ring_on_def)
qed

interpretation own_ring: limited_simulation
  "\<lambda>x w. Some (on_region P a (ring_call h (from_ptr msize) x) w)" "queue_call h msize (2 ^ k)"
  "\<lambda>xs w q. ring_on P g ob name n [a] h k xs w q"
  for P :: "('h, 'w) platform" and g ob name n a h k msize
proof
  fix x xs w q
  assume "ring_on P g ob name n [a] h k (x # xs) w q"
  from ring_on_call [OF this, of a msize]
  show "\<exists>w'. Some (on_region P a (ring_call h (from_ptr msize) x) w) =
      Some (fst (queue_call h msize (2 ^ k) x q), w') \<and>
      ring_on P g ob name n [a] h k xs w' (snd (queue_call h msize (2 ^ k) x q))"
    by simp
qed

text \<open>Calls of two parties, each through its own mapping, \<open>True\<close> for the first.\<close>

fun party_ring ::
    "host \<Rightarrow> ('h, 'w) platform \<Rightarrow> nat \<Rightarrow> nat \<Rightarrow> spsc_ring \<Rightarrow> spsc_ring \<Rightarrow> bool \<times> ring_op \<Rightarrow> 'w \<Rightarrow> ring_answer \<times> 'w" where
  "party_ring h P a b r r' (first, x) w =
     (if first then on_region P a (ring_call h r x) w else on_region P b (ring_call h r' x) w)"

interpretation ring_ends: limited_simulation
  "\<lambda>x w. Some (party_ring h P a b (from_ptr msize) (from_ptr msize) x w)" "\<lambda>x. queue_call h msize (2 ^ k) (snd x)"
  "\<lambda>xs w q. ring_on P g ob name n [b, a] h k (map snd xs) w q"
  for P :: "('h, 'w) platform" and g ob name n a b h k msize
proof
  fix x :: "bool \<times> ring_op" and xs w q
  assume "ring_on P g ob name n [b, a] h k (map snd (x # xs)) w q"
  then have on: "ring_on P g ob name n [b, a] h k (snd x # map snd xs) w q" by simp
  obtain first y where x: "x = (first, y)" by (cases x)
  show "\<exists>w'. Some (party_ring h P a b (from_ptr msize) (from_ptr msize) x w) =
      Some (fst (queue_call h msize (2 ^ k) (snd x) q), w') \<and>
      ring_on P g ob name n [b, a] h k (map snd xs) w' (snd (queue_call h msize (2 ^ k) (snd x) q))"
    using ring_on_call [OF on, of "if first then a else b" msize] by (cases first) (simp_all add: x)
qed


section \<open>A new view of a mapping\<close>

lemma view_new_Inr:
  assumes "view_new h n c m = (Inr v, m')"
  shows "4 < unat n" "v = \<lparr>view_size = n, view_cursor = 0\<rparr>"
    "4 \<le> length m \<Longrightarrow> m' = (if c then i32_upd h 0 0 m else m)"
  using assms
  by (auto simp: view_new_def sbind_eq_Inr sdo_eq_Inr sreturn_def lock_init_def supd_def i32_f.store_upd
      word_le_nat_alt view_header_def rwlock_size_def split: if_splits sum.splits)

lemma view_new_holds:
  assumes "attached P g ob (unat n) ps w" "p \<in> set ps" "unat n \<le> isize_max"
    and "view_new h n c (p_region P p w) = (Inr v, m)" "c \<or> lock_val h (file_bytes g ob w) = 0"
  shows "region_holds P g ob h ps (v, p_set_region P p m w) (drop 4 (file_bytes g ob w), 0)"
    "4 < unat n" "named g nm (p_set_region P p m w) = named g nm w"
    "\<not> c \<Longrightarrow> file_bytes g ob (p_set_region P p m w) = file_bytes g ob w"
proof -
  have len: "length (file_bytes g ob w) = unat n" using assms(1) by (simp add: attached_def)
  note new = view_new_Inr [OF assms(4)]
  have m: "m = (if c then i32_upd h 0 0 (file_bytes g ob w) else file_bytes g ob w)"
    using new(1,3) len attached_region [OF assms(1,2)] by simp
  then have l: "length m = unat n" using len new(1) by (simp add: i32_f.upd_length)
  note at = attached_set [OF assms(1,2) l]
  have "view_holds h (v, m) (drop 4 (file_bytes g ob w), 0)"
    using new(1,2) m l len assms(3,5)
    by (auto simp: view_holds_def view_ok_def i32_f.val_upd drop_i32_upd)
  then show "region_holds P g ob h ps (v, p_set_region P p m w) (drop 4 (file_bytes g ob w), 0)"
    using at(1,2) len new(1) by (simp add: region_holds_def)
  show "4 < unat n" by (rule new(1))
  show "named g nm (p_set_region P p m w) = named g nm w" by (rule at(3))
  show "\<not> c \<Longrightarrow> file_bytes g ob (p_set_region P p m w) = file_bytes g ob w" using at(2) m by simp
qed

lemma own_party:
  assumes "region_holds P g ob h [a] (v, w) (bs, p)" "region_holds P g ob h [b, a] (v', w') (bs, q)"
  shows "party_holds P g ob h a b (v, v', w') (bs, p, q)"
proof -
  have "attached P g ob m [b, a] x \<Longrightarrow> attached P g ob m [a, b] x" for m x
    by (simp add: attached_def)
  then have ab: "region_holds P g ob h [a, b] (v', w') (bs, q)" 
    using assms(2) by (simp add: region_holds_def)
  have "region_holds P g ob h [a, b] (v, w') (bs, p)"
    by (rule region_holds_other [OF assms(1) ab refl])
  with ab show ?thesis by (simp add: party_holds_def)
qed

lemma spsc_new_opener:
  "spsc_new h n False m = (Inr (), m') \<Longrightarrow> m' = m"
  by (auto simp: spsc_new_def sdo_eq_Inr sreturn_def split: if_splits)

end
