(* ===== verification/Session.thy ===== *)
theory Session
  imports Segment
begin

text \<open>
  Two processes on one segment: one creates and maps it, the other opens it by its name and maps it again.
  The locale \<open>segments\<close> is what this asks of a platform; from it follows that the calls the two make in
  any order follow one shared file or one bounded queue. \<open>PosixSession\<close> and \<open>Win32Session\<close> interpret it.
\<close>

text \<open>
  \<open>lawful\<close> are the laws of the system, \<open>key\<close> is the name by which the system knows a segment;
  \<open>may_create\<close> and \<open>may_open\<close> are what a platform asks for beyond a call that succeeds.
\<close>

locale segments =
  fixes P :: "('h, 'w) platform" and g :: "'w shm_files" and lawful :: bool and key :: "string \<Rightarrow> string"
    and may_create :: "string \<Rightarrow> usize \<Rightarrow> 'w \<Rightarrow> bool" and may_open :: "usize option \<Rightarrow> usize \<Rightarrow> bool"
  assumes created: "lawful \<Longrightarrow> running g w \<Longrightarrow> may_create name n w \<Longrightarrow>
      shared_create P name n w = (Inr s, w1) \<Longrightarrow> p_map P (sm_handle s) w1 = (Inr (Inr a), w2) \<Longrightarrow>
      \<exists>ob. attached P g ob (unat n) [a] w2 \<and> named g (key name) w2 = Some ob \<and> sm_is_creator s \<and>
        p_size P (sm_handle s) = n \<and> unat n \<le> isize_max \<and>
        (named g (key name) w = None \<longrightarrow> file_bytes g ob w2 = replicate (unat n) 0)"
    and opened: "lawful \<Longrightarrow> attached P g ob k ps w \<Longrightarrow> ps \<noteq> [] \<Longrightarrow> k \<le> isize_max \<Longrightarrow>
      named g (key name) w = Some ob \<Longrightarrow> may_open sz (of_nat k) \<Longrightarrow>
      shared_open P name sz w = (Inr s, w1) \<Longrightarrow> p_map P (sm_handle s) w1 = (Inr (Inr b), w2) \<Longrightarrow>
      attached P g ob k (b # ps) w2 \<and> file_bytes g ob w2 = file_bytes g ob w \<and>
        \<not> sm_is_creator s \<and> p_size P (sm_handle s) = of_nat k \<and> named g (key name) w2 = Some ob"
begin

text \<open>What the creator holds after its calls.\<close>

lemma creator_holds:
  assumes "lawful" "running g w" "may_create name n w"
    and "shared_create P name n w = (Inr s, w1)"
    and "shared_map h P s w1 = (Inr (a, v), w2)"
    and "run_calls (region_call h P a) xs (v, w2) = Some (rs, v1, w3)"
  shows "\<exists>ob bs cs p. length bs = unat n - 4 \<and>
    (named g (key name) w = None \<longrightarrow> bs = replicate (unat n - 4) 0) \<and>
    run_spec (file_call h) xs (bs, 0) = (rs, cs, p) \<and> 4 + length cs = unat n \<and> unat n \<le> isize_max \<and>
    region_holds P g ob h [a] (v1, w3) (cs, p) \<and> named g (key name) w3 = Some ob"
proof -
  obtain wm m where map: "p_map P (sm_handle s) w1 = (Inr (Inr a), wm)"
    and new: "view_new h (p_size P (sm_handle s)) (sm_is_creator s) (p_region P a wm) = (Inr v, m)"
    and w2: "w2 = p_set_region P a m wm"
    using assms(5) by (auto simp: shared_map_eq_Inr)
  obtain ob where ob: "attached P g ob (unat n) [a] wm" "named g (key name) wm = Some ob"
    "sm_is_creator s" "p_size P (sm_handle s) = n" "unat n \<le> isize_max"
    "named g (key name) w = None \<longrightarrow> file_bytes g ob wm = replicate (unat n) 0"
    using created [OF assms(1-4) map] by (elim exE conjE) (rule that)
  note first = view_new_holds [OF ob(1) _ ob(5) new [unfolded ob(4)]]
  obtain bs where bs: "bs = drop 4 (file_bytes g ob wm)" by simp
  have start: "length bs = unat n - 4" "named g (key name) w = None \<longrightarrow> bs = replicate (unat n - 4) 0"
    using ob(1,6) by (simp_all add: attached_def bs)
  have r2: "region_holds P g ob h [a] (v, w2) (bs, 0)" and n2: "named g (key name) w2 = Some ob"
    using first(1,3) ob(2,3) by (simp_all add: w2 bs)
  obtain cs p where spec: "run_spec (file_call h) xs (bs, 0) = (rs, cs, p)"
    and r3: "region_holds P g ob h [a] (v1, w3) (cs, p)" and n3: "named g (key name) w3 = Some ob"
    using region_run [OF r2, of xs] assms(6) n2 by (cases "run_spec (file_call h) xs (bs, 0)") auto
  have len: "4 + length cs = unat n"
    using length_run_spec [of h xs "(bs, 0)"] spec start(1) first(2) ob(3) by simp
  from start spec len ob(5) r3 n3 show ?thesis
    by (intro exI [of _ ob] exI [of _ bs] exI [of _ cs] exI [of _ p] conjI)
qed

text \<open>What both hold when the second has mapped the segment.\<close>

lemma session_holds:
  assumes "lawful" "running g w" "may_create name n w" "may_open sz n"
    and "shared_create P name n w = (Inr s, w1)"
    and "shared_map h P s w1 = (Inr (a, v), w2)"
    and "run_calls (region_call h P a) xs (v, w2) = Some (rs, v1, w3)"
    and "shared_open P name sz w3 = (Inr s', w4)"
    and "shared_map h P s' w4 = (Inr (b, v'), w5)"
  shows "\<exists>ob bs cs p. length bs = unat n - 4 \<and>
    (named g (key name) w = None \<longrightarrow> bs = replicate (unat n - 4) 0) \<and>
    run_spec (file_call h) xs (bs, 0) = (rs, cs, p) \<and> p_size P (sm_handle s') = n \<and>
    party_holds P g ob h a b (v1, v', w5) (cs, p, 0)"
proof -
  obtain ob bs cs p where C: "length bs = unat n - 4"
    "named g (key name) w = None \<longrightarrow> bs = replicate (unat n - 4) 0"
    "run_spec (file_call h) xs (bs, 0) = (rs, cs, p)" "4 + length cs = unat n" "unat n \<le> isize_max"
    "region_holds P g ob h [a] (v1, w3) (cs, p)" "named g (key name) w3 = Some ob"
    using creator_holds [OF assms(1-3,5-7)] by (elim exE conjE) (rule that)
  obtain wo m' where map': "p_map P (sm_handle s') w4 = (Inr (Inr b), wo)"
    and new': "view_new h (p_size P (sm_handle s')) (sm_is_creator s') (p_region P b wo) = (Inr v', m')"
    and w5: "w5 = p_set_region P b m' wo"
    using assms(9) by (auto simp: shared_map_eq_Inr)
  have a3: "attached P g ob (unat n) [a] w3" and v3: "view_holds h (v1, file_bytes g ob w3) (cs, p)"
    using C(4,6) by (simp_all add: region_holds_def)
  have sz: "may_open sz (of_nat (unat n))" using assms(4) by simp
  have o: "attached P g ob (unat n) [b, a] wo" "file_bytes g ob wo = file_bytes g ob w3"
    "\<not> sm_is_creator s'" "p_size P (sm_handle s') = n"
    using opened [OF assms(1) a3 _ C(5,7) sz assms(8) map'] by simp_all
  have "lock_val h (file_bytes g ob wo) = 0" "drop 4 (file_bytes g ob wo) = cs"
    using view_holds_D(2,3) [OF v3] o(2) by simp_all
  then have "region_holds P g ob h [b, a] (v', w5) (cs, 0)"
    using view_new_holds(1) [OF o(1) _ C(5) new' [unfolded o(4)]] by (simp add: w5)
  from C(1-3) o(4) own_party [OF C(6) this] show ?thesis
    by (intro exI [of _ ob] exI [of _ bs] exI [of _ cs] exI [of _ p] conjI)
qed

text \<open>From then on they share one file.\<close>

lemma session_file:
  assumes "lawful" "running g w" "may_create name n w" "may_open sz n"
    and "shared_create P name n w = (Inr s, w1)"
    and "shared_map h P s w1 = (Inr (a, v), w2)"
    and "run_calls (region_call h P a) xs (v, w2) = Some (rs, v1, w3)"
    and "shared_open P name sz w3 = (Inr s', w4)"
    and "shared_map h P s' w4 = (Inr (b, v'), w5)"
  shows "\<exists>bs cs p. length bs = unat n - 4 \<and>
    (named g (key name) w = None \<longrightarrow> bs = replicate (unat n - 4) 0) \<and>
    run_spec (file_call h) xs (bs, 0) = (rs, cs, p) \<and> shared_size P s' = n \<and>
    (\<forall>ys. \<exists>t. run_calls (party_call h P a b) ys (v1, v', w5) =
       Some (fst (run_spec (shared_call h) ys (cs, p, 0)), t))"
proof -
  obtain ob bs cs p where S: "length bs = unat n - 4"
    "named g (key name) w = None \<longrightarrow> bs = replicate (unat n - 4) 0"
    "run_spec (file_call h) xs (bs, 0) = (rs, cs, p)" "p_size P (sm_handle s') = n"
    "party_holds P g ob h a b (v1, v', w5) (cs, p, 0)"
    using session_holds [OF assms] by (elim exE conjE) (rule that)
  have "\<exists>t. run_calls (party_call h P a b) ys (v1, v', w5) =
      Some (fst (run_spec (shared_call h) ys (cs, p, 0)), t)" for ys
    using shared.run_sim [OF S(5), of ys] by blast
  then show ?thesis using S(1-4) by (auto simp: shared_size_def)
qed

text \<open>What the creator of a ring holds.\<close>

lemma creator_ring:
  assumes "lawful" "running g w" "may_create name n w" "unat n = 24 + 2 ^ k"
    and "shared_create P name n w = (Inr s, w1)"
    and "shared_spsc h P s w1 = (Inr (a, r), w2)"
  shows "\<exists>ob. unat n \<le> isize_max \<and> r = from_ptr n \<and>
    (\<forall>zs. within_limits h (2 ^ k) zs \<longrightarrow> ring_on P g ob (key name) (unat n) [a] h k zs w2 [])"
proof -
  obtain wm m where map: "p_map P (sm_handle s) w1 = (Inr (Inr a), wm)"
    and new: "spsc_new h (p_size P (sm_handle s)) (sm_is_creator s) (p_region P a wm) = (Inr (), m)"
    and w2: "w2 = p_set_region P a m wm" "r = from_ptr (p_size P (sm_handle s))"
    using assms(6) by (auto simp: shared_spsc_eq_Inr)
  obtain ob where ob: "attached P g ob (unat n) [a] wm" "named g (key name) wm = Some ob"
    "sm_is_creator s" "p_size P (sm_handle s) = n" "unat n \<le> isize_max"
    "named g (key name) w = None \<longrightarrow> file_bytes g ob wm = replicate (unat n) 0"
    using created [OF assms(1-3,5) map] by (elim exE conjE) (rule that)
  have len: "length (file_bytes g ob wm) = unat n" using ob(1) by (simp add: attached_def)
  have "(2 :: nat) ^ k < 2 ^ 63" using assms(4) ob(5) by (simp add: isize_max_def)
  then have "k < 63" by (rule power_less_imp_less_exp [rotated]) simp
  then obtain m0 where "spsc_new h n True (file_bytes g ob wm) = (Inr (), m0)" "spsc_inv h k m0 []"
    "length m0 = length (file_bytes g ob wm)" "usize_at h 0 m0 = 0"
    using spsc_new_creator [of n k "file_bytes g ob wm" h] assms(4) len by auto
  then have m: "spsc_inv h k m []" "length m = unat n" "usize_at h 0 m = 0"
    using new ob(3,4) attached_region [OF ob(1), of a] len by simp_all
  have r2: "ring_on P g ob (key name) (unat n) [a] h k zs w2 []" if "within_limits h (2 ^ k) zs" for zs
    using attached_set [OF ob(1) _ m(2), of a] ob(2) ring_holds_new [OF m(1,3) that] by (simp add: ring_on_def w2)
  then show ?thesis using ob(4,5) w2(2) by blast
qed

text \<open>And likewise one queue, when both set up a ring instead of a view.\<close>

lemma session_queue:
  assumes "lawful" "running g w" "may_create name n w" "may_open sz n" "unat n = 24 + 2 ^ k"
    and "shared_create P name n w = (Inr s, w1)"
    and "shared_spsc h P s w1 = (Inr (a, r), w2)"
    and "within_limits h (2 ^ k) xs"
    and "run_spec (\<lambda>x. on_region P a (ring_call h r x)) xs w2 = (rs, w3)"
    and "shared_open P name sz w3 = (Inr s', w4)"
    and "shared_spsc h P s' w4 = (Inr (b, r'), w5)"
  shows "\<exists>q. run_spec (queue_call h n (2 ^ k)) xs [] = (rs, q) \<and>
    (\<forall>ys. within_limits h (2 ^ k) (xs @ map snd ys) \<longrightarrow>
      (\<exists>t. run_spec (party_ring h P a b r r') ys w5 =
         (fst (run_spec (\<lambda>x. queue_call h n (2 ^ k) (snd x)) ys q), t)))"
proof -
  obtain ob where max: "unat n \<le> isize_max" and r: "r = from_ptr n"
    and r2: "\<And>zs. within_limits h (2 ^ k) zs \<Longrightarrow> ring_on P g ob (key name) (unat n) [a] h k zs w2 []"
    using creator_ring [OF assms(1-3,5-7)] by blast
  obtain q where q: "run_spec (queue_call h n (2 ^ k)) xs [] = (rs, q)"
    and r3: "\<And>zs. within_limits h (2 ^ k) (xs @ zs) \<Longrightarrow> ring_on P g ob (key name) (unat n) [a] h k zs w3 q"
  proof (rule that)
    have run: "run_spec (queue_call h n (2 ^ k)) xs [] = (rs, snd (run_spec (queue_call h n (2 ^ k)) xs [])) \<and>
        ring_on P g ob (key name) (unat n) [a] h k zs w3 (snd (run_spec (queue_call h n (2 ^ k)) xs []))"
      if "within_limits h (2 ^ k) (xs @ zs)" for zs
      using own_ring.limited_run_sim [OF r2 [OF that], of n] assms(9)
      by (auto simp: run_calls_total r prod_eq_iff)
    show "run_spec (queue_call h n (2 ^ k)) xs [] = (rs, snd (run_spec (queue_call h n (2 ^ k)) xs []))"
      using run [of "[]"] assms(8) by simp
    show "within_limits h (2 ^ k) (xs @ zs) \<Longrightarrow> ring_on P g ob (key name) (unat n) [a] h k zs w3
        (snd (run_spec (queue_call h n (2 ^ k)) xs []))" for zs
      using run by blast
  qed
  obtain wo m' where map': "p_map P (sm_handle s') w4 = (Inr (Inr b), wo)"
    and new': "spsc_new h (p_size P (sm_handle s')) (sm_is_creator s') (p_region P b wo) = (Inr (), m')"
    and w5: "w5 = p_set_region P b m' wo" "r' = from_ptr (p_size P (sm_handle s'))"
    using assms(11) by (auto simp: shared_spsc_eq_Inr)
  have a3: "attached P g ob (unat n) [a] w3" and n3: "named g (key name) w3 = Some ob"
    using r3 [of "[]"] assms(8) by (simp_all add: ring_on_def)
  have sz: "may_open sz (of_nat (unat n))" using assms(4) by simp
  have o: "attached P g ob (unat n) [b, a] wo" "file_bytes g ob wo = file_bytes g ob w3" "\<not> sm_is_creator s'"
    "p_size P (sm_handle s') = n" "named g (key name) wo = Some ob"
    using opened [OF assms(1) a3 _ max n3 sz assms(10) map'] by simp_all
  have m': "m' = file_bytes g ob wo"
    using spsc_new_opener new' o(3) attached_region [OF o(1), of b] by simp
  have "\<exists>t. run_spec (party_ring h P a b r r') ys w5 =
      (fst (run_spec (\<lambda>x. queue_call h n (2 ^ k) (snd x)) ys q), t)"
    if "within_limits h (2 ^ k) (xs @ map snd ys)" for ys
  proof -
    have "ring_on P g ob (key name) (unat n) [b, a] h k (map snd (ys @ [])) w5 q"
      using attached_set [OF o(1), of b m'] r3 [OF that] m' o(1,2,5) by (simp add: ring_on_def w5 attached_def)
    from ring_ends.limited_run_sim [OF this, of n] show ?thesis
      using o(4) by (auto simp: run_calls_total r w5(2))
  qed
  then show ?thesis using q by blast
qed

end

end
