(* ===== verification/PosixSession.thy ===== *)
theory PosixSession
  imports Session PosixLaws
begin

text \<open>
  What the POSIX handle does under \<open>posix_laws\<close>, and with it the interpretation of \<open>segments\<close>: every
  creation and every opening that succeeds will do, the size an opener gives does not matter.
\<close>

section \<open>The platform calls\<close>

lemma unix_created:
  assumes laws: "posix_laws os g" "running g w" and create: "unix_create os name n w = (Inr hnd, w')"
  shows "\<exists>ob. running g w' \<and> named g name w' = Some ob \<and> fd_file g (uh_fd hnd) w' = Some ob \<and>
    uh_size hnd = n \<and> unat n \<le> isize_max \<and> length (file_bytes g ob w') = unat n \<and>
    (named g name w = None \<longrightarrow> file_bytes g ob w' = replicate (unat n) 0)"
proof -
  obtain w1 where op: "shm_open os name [O_CREAT, O_RDWR] 438 w = (Inr (uh_fd hnd), w1)"
    and tr: "ftruncate os (uh_fd hnd) (sint n) w1 = (Inr (), w')" and size: "uh_size hnd = n"
    using create by (auto simp: unix_create_eq_Inr)
  obtain ob where ob: "running g w1" "named g name w1 = Some ob"
    "fd_file g (uh_fd hnd) w1 = Some ob" "named g name w = None \<longrightarrow> file_bytes g ob w1 = []"
    using open_lawD [OF laws op] by (auto split: option.splits)
  note t = ftruncate_lawD [OF laws(1) ob(1,3) tr]
  have "sint n = uint n"
    using t(2) sint_lt [of n] by (simp add: uint_sint take_bit_int_eq_self)
  then have n: "unat n = nat (sint n)" by (simp only: unat_eq_nat_uint)
  have "sint n \<le> 2 ^ 63 - 1" using sint_lt [of n] by simp
  then have "nat (sint n) \<le> nat (2 ^ 63 - 1)" by (rule nat_mono)
  then have "unat n \<le> isize_max" by (simp add: n isize_max_def)
  then show ?thesis using t ob size n by simp
qed

lemma unix_opened:
  assumes laws: "posix_laws os g" "running g w" and op: "unix_open os name w = (Inr hnd, w')"
    and named: "named g name w = Some ob"
  shows "running g w' \<and> fd_file g (uh_fd hnd) w' = Some ob \<and> keeps_maps g w w' \<and>
    uh_size hnd = of_nat (length (file_bytes g ob w)) \<and> file_bytes g ob w' = file_bytes g ob w \<and>
    named g name w' = Some ob"
proof -
  obtain w1 where op: "shm_open os name [O_RDWR] 0 w = (Inr (uh_fd hnd), w1)"
    and st: "fstat_size os (uh_fd hnd) w1 = (Inr (uh_size hnd), w')"
    using op by (auto simp: unix_open_eq_Inr)
  have o: "running g w1" "keeps_maps g w w1" "named g name w1 = Some ob"
    "fd_file g (uh_fd hnd) w1 = Some ob" "file_bytes g ob w1 = file_bytes g ob w"
    using open_lawD [OF laws op] named by auto
  note f = fstat_lawD [OF laws(1) o(1,4) st]
  from f o show ?thesis using keeps_maps_trans by simp
qed

lemma unix_mapped:
  assumes laws: "posix_laws os g" "running g w" and map: "unix_map os hnd w = (Inr (Inr p), w')"
    and fd: "fd_file g (uh_fd hnd) w = Some ob" "length (file_bytes g ob w) = unat (uh_size hnd)"
  shows "attached (unix_platform os) g ob (unat (uh_size hnd)) [p] w' \<and> keeps_maps g w w' \<and>
    file_bytes g ob w' = file_bytes g ob w \<and> named g nm w' = named g nm w"
proof -
  have "mmap os (uh_fd hnd) (uh_size hnd) w = (Inr p, w')"
    using map by (auto simp: unix_map_def smap_err_eq_Inr split: if_splits prod.splits)
  note m = mmap_lawD [OF laws fd(1) this]
  show ?thesis using posix_memory [OF laws(1)] fd(2) m by (simp add: attached_def)
qed


section \<open>Creating and mapping, opening and mapping\<close>

lemma segment_created:
  assumes laws: "posix_laws os g" "running g w"
    and create: "shared_create (unix_platform os) name n w = (Inr s, w1)"
    and map: "p_map (unix_platform os) (sm_handle s) w1 = (Inr (Inr a), w2)"
  shows "\<exists>ob. attached (unix_platform os) g ob (unat n) [a] w2 \<and> named g name w2 = Some ob \<and>
    sm_is_creator s \<and> uh_size (sm_handle s) = n \<and> unat n \<le> isize_max \<and>
    (named g name w = None \<longrightarrow> file_bytes g ob w2 = replicate (unat n) 0)"
proof -
  have uc: "unix_create os name n w = (Inr (sm_handle s), w1)" and c: "sm_is_creator s"
    using create
    by (auto simp: shared_create_def sbind_eq_Inr smap_err_eq_Inr sdo_eq_Inr sreturn_def split: if_splits)
  obtain ob where ob: "running g w1" "named g name w1 = Some ob" "fd_file g (uh_fd (sm_handle s)) w1 = Some ob"
    "uh_size (sm_handle s) = n" "unat n \<le> isize_max" "length (file_bytes g ob w1) = unat n"
    "named g name w = None \<longrightarrow> file_bytes g ob w1 = replicate (unat n) 0"
    using unix_created [OF laws uc] by auto
  have "unix_map os (sm_handle s) w1 = (Inr (Inr a), w2)" using map by simp
  from unix_mapped [OF laws(1) ob(1) this ob(3)] ob c show ?thesis by auto
qed

lemma segment_opened:
  assumes laws: "posix_laws os g" and at: "attached (unix_platform os) g ob n ps w" "ps \<noteq> []" "n \<le> isize_max" and named: "named g name w = Some ob"
    and op: "shared_open (unix_platform os) name sz w = (Inr s, w1)"
    and map: "p_map (unix_platform os) (sm_handle s) w1 = (Inr (Inr b), w2)"
  shows "attached (unix_platform os) g ob n (b # ps) w2 \<and> file_bytes g ob w2 = file_bytes g ob w \<and>
    \<not> sm_is_creator s \<and> uh_size (sm_handle s) = of_nat n \<and> named g name w2 = Some ob"
proof -
  have run: "running g w" and len: "length (file_bytes g ob w) = n"
    using at(1) by (simp_all add: attached_def)
  have uo: "unix_open os name w = (Inr (sm_handle s), w1)" and c: "\<not> sm_is_creator s"
    using op by (auto simp: shared_open_def sbind_eq_Inr smap_err_eq_Inr sdo_eq_Inr sreturn_def)
  note o = unix_opened [OF laws run uo named]
  have size: "unat (uh_size (sm_handle s)) = n" using o len at(3) by (simp add: unat_of_nat_isize)
  have um: "unix_map os (sm_handle s) w1 = (Inr (Inr b), w2)" using map by simp
  have m: "attached (unix_platform os) g ob n [b] w2" "keeps_maps g w1 w2" "file_bytes g ob w2 = file_bytes g ob w1"
    "named g name w2 = named g name w1"
    using unix_mapped [OF laws _ um, of ob name] o len size by auto
  have "attached (unix_platform os) g ob n ps w2"
    using attached_keeps [OF at(1,2)] keeps_maps_trans m(1,2) o by (metis attached_def)
  then show ?thesis using m o c len by (simp add: attached_def)
qed

interpretation posix: segments "unix_platform os" g "posix_laws os g" "\<lambda>name. name" "\<lambda>_ _ _. True" "\<lambda>_ _. True"
  for os :: "'w posix" and g
proof
  fix name n w s w1 a w2
  assume "posix_laws os g" "running g w" "shared_create (unix_platform os) name n w = (Inr s, w1)"
    "p_map (unix_platform os) (sm_handle s) w1 = (Inr (Inr a), w2)"
  from segment_created [OF this]
  show "\<exists>ob. attached (unix_platform os) g ob (unat n) [a] w2 \<and> named g name w2 = Some ob \<and> sm_is_creator s \<and>
      p_size (unix_platform os) (sm_handle s) = n \<and> unat n \<le> isize_max \<and>
      (named g name w = None \<longrightarrow> file_bytes g ob w2 = replicate (unat n) 0)" by simp
next
  fix ob k ps w name sz s w1 b w2
  assume A: "posix_laws os g" "attached (unix_platform os) g ob k ps w" "ps \<noteq> []" "k \<le> isize_max"
    "named g name w = Some ob" "shared_open (unix_platform os) name sz w = (Inr s, w1)"
    "p_map (unix_platform os) (sm_handle s) w1 = (Inr (Inr b), w2)"
  from segment_opened [OF A]
  show "attached (unix_platform os) g ob k (b # ps) w2 \<and> file_bytes g ob w2 = file_bytes g ob w \<and>
      \<not> sm_is_creator s \<and> p_size (unix_platform os) (sm_handle s) = of_nat k \<and> named g name w2 = Some ob" by simp
qed

end
