(* ===== verification/SessionProps.thy ===== *)
theory SessionProps
  imports PosixSession SharedProps SpscProps
begin

text \<open>
  The properties of two processes on one POSIX segment, from the creation of the segment to the last call
  of either.
\<close>

text \<open>
  C7: From the creation of a segment to the last call, two processes share one file. One process
  creates a segment, maps it and makes any calls; another opens it by the name, finds the size it was
  created with, and maps it. From then on every sequence of calls the two make, in any order, answers
  what one file of size - 4 bytes with two positions answers, starting with what the first process
  has written, the second position at 0; a segment whose name was not in use starts with zeros.
\<close>

theorem shared_file:
  assumes "posix_laws os g" "running g w"
    and "shared_create (unix_platform os) name n w = (Inr s, w1)"
    and "shared_map h (unix_platform os) s w1 = (Inr (a, v), w2)"
    and "run_calls (region_call h (unix_platform os) a) xs (v, w2) = Some (rs, v1, w3)"
    and "shared_open (unix_platform os) name sz w3 = (Inr s', w4)"
    and "shared_map h (unix_platform os) s' w4 = (Inr (b, v'), w5)"
  shows "\<exists>bs cs p. length bs = unat n - 4 \<and>
    (named g name w = None \<longrightarrow> bs = replicate (unat n - 4) 0) \<and>
    run_spec (file_call h) xs (bs, 0) = (rs, cs, p) \<and> shared_size (unix_platform os) s' = n \<and>
    (\<forall>ys. \<exists>t. run_calls (party_call h (unix_platform os) a b) ys (v1, v', w5) =
       Some (fst (run_spec (shared_call h) ys (cs, p, 0)), t))"
  using posix.session_file [OF assms(1,2) TrueI TrueI assms(3-7)] by simp

text \<open>Creating, mapping, opening and mapping again on the example system.\<close>

definition demo_shared :: "memory \<Rightarrow> nat list \<Rightarrow> (nat \<times> nat) list \<Rightarrow> shm_world" where
  "demo_shared m fds maps = \<lparr>w_names = [(''/a'', 0)], w_objects = [m], w_fds = fds, w_maps = maps\<rparr>"

definition demo_handle :: "nat \<Rightarrow> usize \<Rightarrow> bool \<Rightarrow> unix_handle shared_memory" where
  "demo_handle fd n creator =
     \<lparr>sm_handle = \<lparr>uh_fd = fd, uh_size = n, uh_name = ''/a''\<rparr>, sm_is_creator = creator\<rparr>"

lemma demo_created:
  assumes "sint n = int (unat n)" "n \<noteq> 0" "unat n < 2 ^ 63"
  shows "shared_create (unix_platform demo_posix) ''/a'' n boot =
    (Inr (demo_handle 0 n True), demo_shared (replicate (unat n) 0) [0] [])"
proof -
  have "int (unat n) < int (2 ^ 63)" using assms(3) by (simp only: of_nat_less_iff)
  then have n: "\<not> (sint n < 0 \<or> 2 ^ 63 \<le> sint n)" "nat (sint n) = unat n"
    unfolding assms(1) using \<open>int (unat n) < int (2 ^ 63)\<close> by auto
  have tr: "demo_truncate 0 (sint n) (demo_shared [] [0] []) = (Inr (), demo_shared (replicate (unat n) 0) [0] [])"
    unfolding demo_truncate_def if_not_P [OF n(1)] n(2) by (simp add: demo_shared_def)
  have "demo_open ''/a'' [O_CREAT, O_RDWR] 438 boot = (Inr 0, demo_shared [] [0] [])"
    by (simp add: demo_open_def boot_def demo_shared_def)
  with tr have "unix_create demo_posix ''/a'' n boot =
      (Inr (sm_handle (demo_handle 0 n True)), demo_shared (replicate (unat n) 0) [0] [])"
    by (simp add: unix_create_eq_Inr demo_handle_def)
  then show ?thesis
    using assms(2) by (simp add: shared_create_def validate_name_def sbind_Inr smap_err_Inr sreturn_def demo_handle_def)
qed

lemma demo_opened:
  "shared_open (unix_platform demo_posix) ''/a'' None (demo_shared m [0] maps) =
    (Inr (demo_handle 1 (of_nat (length m)) False), demo_shared m [0, 0] maps)"
proof -
  have "demo_open ''/a'' [O_RDWR] 0 (demo_shared m [0] maps) = (Inr 1, demo_shared m [0, 0] maps)"
    by (simp add: demo_open_def demo_shared_def)
  then have "unix_open demo_posix ''/a'' (demo_shared m [0] maps) =
      (Inr (sm_handle (demo_handle 1 (of_nat (length m)) False)), demo_shared m [0, 0] maps)"
    by (simp add: unix_open_eq_Inr demo_handle_def demo_shared_def)
  then show ?thesis
    by (simp add: shared_open_def validate_name_def sbind_Inr smap_err_Inr sreturn_def demo_handle_def)
qed

lemma demo_mapped:
  assumes "n \<noteq> 0" "fd < length fds" "fds ! fd = 0"
  shows "p_map (unix_platform demo_posix) (sm_handle (demo_handle fd n c)) (demo_shared m fds maps) =
    (Inr (Inr (length maps)), demo_shared m fds (maps @ [(0, unat n)]))"
  using assms by (simp add: unix_map_def res_simps demo_handle_def demo_shared_def)

lemma demo_shared_region:
  assumes "p < length maps" "maps ! p = (0, length m)"
  shows "demo_region p (demo_shared m fds maps) = m"
    "length m' = length (m :: memory) \<Longrightarrow> demo_set_region p m' (demo_shared m fds maps) = demo_shared m' fds maps"
  using assms by (simp_all add: demo_region_def demo_set_region_def demo_shared_def overwrite_def)

lemma demo_handle_size [simp]: "uh_size (sm_handle (demo_handle fd n c)) = n" "sm_is_creator (demo_handle fd n c) = c"
  by (simp_all add: demo_handle_def)

lemma demo_view:
  assumes "unat n = length m" "length m \<le> isize_max" "4 < length m" "fd < length fds" "fds ! fd = 0"
  shows "\<exists>v m'. shared_map h (unix_platform demo_posix) (demo_handle fd n c) (demo_shared m fds maps) =
      (Inr (length maps, v), demo_shared m' fds (maps @ [(0, length m)])) \<and> length m' = length m"
proof -
  let ?m = "if c then i32_upd h 0 0 m else m"
  have "n \<noteq> 0" "length ?m = length m" using assms(1,3) by (auto simp: i32_f.upd_length)
  moreover note new = view_new_run [OF assms(1-3), of h c]
  ultimately have "shared_map h (unix_platform demo_posix) (demo_handle fd n c) (demo_shared m fds maps) =
      (Inr (length maps, \<lparr>view_size = n, view_cursor = 0\<rparr>), demo_shared ?m fds (maps @ [(0, length m)]))"
    using assms(1) demo_mapped [of n fd fds c m maps] assms(4,5)
      demo_shared_region [where p = "length maps" and maps = "maps @ [(0, length m)]" and m = m]
    by (simp add: shared_map_eq_Inr new nth_append)
  then show ?thesis using \<open>length ?m = length m\<close> by blast
qed

lemma demo_session:
  "\<exists>s w1 a v w2 s' w4 b v' w5.
    shared_create (unix_platform demo_posix) ''/a'' 8 boot = (Inr s, w1) \<and>
    shared_map le_host (unix_platform demo_posix) s w1 = (Inr (a, v), w2) \<and>
    shared_open (unix_platform demo_posix) ''/a'' None w2 = (Inr s', w4) \<and>
    shared_map le_host (unix_platform demo_posix) s' w4 = (Inr (b, v'), w5) \<and>
    (\<exists>m. w5 = demo_shared m [0, 0] [(0, 8), (0, 8)])"
proof -
  have c: "shared_create (unix_platform demo_posix) ''/a'' 8 boot =
      (Inr (demo_handle 0 8 True), demo_shared (replicate 8 0) [0] [])"
    using demo_created [of 8] by simp
  obtain v m where m: "shared_map le_host (unix_platform demo_posix) (demo_handle 0 8 True)
      (demo_shared (replicate 8 0) [0] []) = (Inr (0, v), demo_shared m [0] [(0, 8)])" "length m = 8"
    using demo_view [of 8 "replicate 8 0" 0 "[0]" le_host True "[]"] by (auto simp: isize_max_def)
  have o: "shared_open (unix_platform demo_posix) ''/a'' None (demo_shared m [0] [(0, 8)]) =
      (Inr (demo_handle 1 8 False), demo_shared m [0, 0] [(0, 8)])"
    using demo_opened [of m] m(2) by simp
  obtain v' m' where "shared_map le_host (unix_platform demo_posix) (demo_handle 1 8 False)
      (demo_shared m [0, 0] [(0, 8)]) = (Inr (1, v'), demo_shared m' [0, 0] [(0, 8), (0, 8)])"
    using demo_view [of 8 m 1 "[0, 0]" le_host False "[(0, 8)]"] m(2) by (auto simp: isize_max_def)
  with c m(1) o show ?thesis by blast
qed

theorem shared_file_witness:
  "\<exists>s w1 a v w2 s' w4 b v' w5 t.
    shared_create (unix_platform demo_posix) ''/a'' 8 boot = (Inr s, w1) \<and>
    shared_map le_host (unix_platform demo_posix) s w1 = (Inr (a, v), w2) \<and>
    shared_open (unix_platform demo_posix) ''/a'' None w2 = (Inr s', w4) \<and>
    shared_map le_host (unix_platform demo_posix) s' w4 = (Inr (b, v'), w5) \<and>
    run_calls (party_call le_host (unix_platform demo_posix) a b)
      [(True, Write (PyBytes [1, 2]) None), (False, ReadRange 0 3), (False, Write (PyBytes [3]) (Some 2)),
       (True, ReadRange 0 3)] (v, v', w5) =
      Some ([Seen Done, Seen (Got (PyBytes [1, 2, 0])), Seen Done, Seen (Got (PyBytes [1, 2, 3]))], t)"
proof -
  obtain s w1 a v w2 s' w4 b v' w5 where r:
    "shared_create (unix_platform demo_posix) ''/a'' 8 boot = (Inr s, w1)"
    "shared_map le_host (unix_platform demo_posix) s w1 = (Inr (a, v), w2)"
    "shared_open (unix_platform demo_posix) ''/a'' None w2 = (Inr s', w4)"
    "shared_map le_host (unix_platform demo_posix) s' w4 = (Inr (b, v'), w5)"
    using demo_session by blast
  have "run_calls (region_call le_host (unix_platform demo_posix) a) [] (v, w2) = Some ([], v, w2)" by simp
  from shared_file [OF demo_laws demo_boot r(1,2) this r(3,4)]
  have "\<forall>ys. \<exists>t. run_calls (party_call le_host (unix_platform demo_posix) a b) ys (v, v', w5) =
      Some (fst (run_spec (shared_call le_host) ys (replicate 4 0, 0, 0)), t)"
    by (simp add: boot_def)
  then obtain t where t: "run_calls (party_call le_host (unix_platform demo_posix) a b)
      [(True, Write (PyBytes [1, 2]) None), (False, ReadRange 0 3), (False, Write (PyBytes [3]) (Some 2)),
       (True, ReadRange 0 3)] (v, v', w5) =
      Some (fst (run_spec (shared_call le_host)
        [(True, Write (PyBytes [1, 2]) None), (False, ReadRange 0 3), (False, Write (PyBytes [3]) (Some 2)),
         (True, ReadRange 0 3)] (replicate 4 0, 0, 0)), t)"
    by blast
  have zeros: "replicate 4 (0 :: u8) = [0, 0, 0, 0]" by (simp add: numeral_eq_Suc)
  have "fst (run_spec (shared_call le_host)
        [(True, Write (PyBytes [1, 2]) None), (False, ReadRange 0 3), (False, Write (PyBytes [3]) (Some 2)),
         (True, ReadRange 0 3)] (replicate 4 0, 0, 0)) =
      [Seen Done, Seen (Got (PyBytes [1, 2, 0])), Seen Done, Seen (Got (PyBytes [1, 2, 3]))]"
    unfolding zeros
    by (simp add: vec_extend_def isize_max_def file_pos_def file_move_def overwrite_def window_def)
  with r t show ?thesis by (intro exI conjI) simp_all
qed


text \<open>
  C22: From the creation of a segment to the last call, two processes share one queue. One process
  creates a segment of 24 + 2^k bytes, sets up the ring in it and makes any calls; another opens the
  segment by its name. From then on any calls of the two, one after the other and in any order (push of
  any value, pop with any tag, pop_mixed, the queries), give the answers, exceptions included, of a
  bounded queue of 2^k bytes that starts with what the first process left in it. The limits are
  those of the ring: no payload of 4 GiB or more that it has the capacity for and, only in a build that
  checks overflow, less than 2^64 bytes pushed in all.
\<close>

theorem shared_queue:
  assumes "posix_laws os g" "running g w" "unat n = 24 + 2 ^ k"
    and "shared_create (unix_platform os) name n w = (Inr s, w1)"
    and "shared_spsc h (unix_platform os) s w1 = (Inr (a, r), w2)"
    and "within_limits h (2 ^ k) xs"
    and "run_spec (\<lambda>x. on_region (unix_platform os) a (ring_call h r x)) xs w2 = (rs, w3)"
    and "shared_open (unix_platform os) name sz w3 = (Inr s', w4)"
    and "shared_spsc h (unix_platform os) s' w4 = (Inr (b, r'), w5)"
  shows "\<exists>q. run_spec (queue_call h n (2 ^ k)) xs [] = (rs, q) \<and>
    (\<forall>ys. within_limits h (2 ^ k) (xs @ map snd ys) \<longrightarrow>
      (\<exists>t. run_spec (party_ring h (unix_platform os) a b r r') ys w5 =
         (fst (run_spec (\<lambda>x. queue_call h n (2 ^ k) (snd x)) ys q), t)))"
  by (rule posix.session_queue [OF assms(1,2) TrueI TrueI assms(3-9)])

lemma demo_ring:
  assumes "unat n = 40" "length m = 40" "fd < length fds" "fds ! fd = 0"
  shows "\<exists>m'. shared_spsc le_host (unix_platform demo_posix) (demo_handle fd n c) (demo_shared m fds maps) =
      (Inr (length maps, from_ptr n), demo_shared m' fds (maps @ [(0, 40)])) \<and> length m' = 40 \<and>
    (c \<longrightarrow> spsc_inv le_host 4 m' [])"
proof -
  have "\<exists>m'. spsc_new le_host n c m = (Inr (), m') \<and> length m' = 40 \<and> (c \<longrightarrow> spsc_inv le_host 4 m' [])"
  proof (cases c)
    case True
    then show ?thesis using spsc_new_creator [of n 4 m le_host] assms(1,2) by auto
  next
    case False
    then show ?thesis
      using assms(1,2) by (simp add: spsc_new_def word_le_nat_alt spsc_header_size_def sreturn_def)
  qed
  then obtain m' where new: "spsc_new le_host n c m = (Inr (), m')" "length m' = 40" "c \<longrightarrow> spsc_inv le_host 4 m' []"
    by blast
  have "n \<noteq> 0" using assms(1) by auto
  then show ?thesis
    using assms demo_mapped [of n fd fds c m maps] new
      demo_shared_region [where p = "length maps" and maps = "maps @ [(0, length m)]" and m = m]
    by (auto simp: shared_spsc_eq_Inr nth_append)
qed

lemma demo_party_answers:
  "\<exists>y. fst (run_spec (\<lambda>x. queue_call le_host 40 (2 ^ 4) (snd x))
     [(True, Push (PyBytes (replicate 13 0))), (False, Pop (Some ''int'')), (True, Push (PyBytes [3])),
      (False, Used), (False, Pop None), (False, Pop None)] [[1, 2]]) =
   [too_large 40 16 13, py_raise y, Inr (Pushed True), Inr (Amount 5), Inr (Popped (Some (PyBytes [3]))),
    Inr (Popped None)]"
proof -
  have "\<exists>y. answer_pop le_host (Some ''int'') [1, 2] = py_raise y"
    by (simp add: answer_pop_def unpack_one_def not_enough_def shm_err_def)
  then obtain y where y: "answer_pop le_host (Some ''int'') [1, 2] = py_raise y" ..
  have raw: "answer_pop le_host None p = Inr (Popped (Some (PyBytes p)))" for p by (simp add: answer_pop_def)
  show ?thesis
    by (intro exI [of _ y]) (simp add: y raw push_payload_bytes queue_bytes_def)
qed

theorem shared_queue_witness:
  "\<exists>s w1 a r w2 w3 s' w4 b r' w5 t y.
    shared_create (unix_platform demo_posix) ''/a'' 40 boot = (Inr s, w1) \<and>
    shared_spsc le_host (unix_platform demo_posix) s w1 = (Inr (a, r), w2) \<and>
    run_spec (\<lambda>x. on_region (unix_platform demo_posix) a (ring_call le_host r x)) [Push (PyBytes [1, 2])] w2 =
      ([Inr (Pushed True)], w3) \<and>
    shared_open (unix_platform demo_posix) ''/a'' None w3 = (Inr s', w4) \<and>
    shared_spsc le_host (unix_platform demo_posix) s' w4 = (Inr (b, r'), w5) \<and>
    run_spec (party_ring le_host (unix_platform demo_posix) a b r r')
      [(True, Push (PyBytes (replicate 13 0))), (False, Pop (Some ''int'')), (True, Push (PyBytes [3])),
       (False, Used), (False, Pop None), (False, Pop None)] w5 =
    ([too_large 40 16 13, py_raise y, Inr (Pushed True), Inr (Amount 5), Inr (Popped (Some (PyBytes [3]))),
      Inr (Popped None)], t)"
proof -
  let ?P = "unix_platform demo_posix" and ?xs = "[Push (PyBytes [1, 2])]"
  let ?ys = "[(True, Push (PyBytes (replicate 13 0))), (False, Pop (Some ''int'')), (True, Push (PyBytes [3])),
      (False, Used), (False, Pop None), (False, Pop None)]"
  have c: "shared_create ?P ''/a'' 40 boot = (Inr (demo_handle 0 40 True), demo_shared (replicate 40 0) [0] [])"
    using demo_created [of 40] by simp
  obtain m where m: "shared_spsc le_host ?P (demo_handle 0 40 True) (demo_shared (replicate 40 0) [0] []) =
      (Inr (0, from_ptr 40), demo_shared m [0] [(0, 40)])" "length m = 40" "spsc_inv le_host 4 m []"
    using demo_ring [of 40 "replicate 40 0" 0 "[0]" True "[]"] by auto
  let ?m = "push_mem le_host 4 [1, 2] m"
  have l: "length ?m = 40" using m(2) by (simp add: push_mem_def usize_f.upd_length)
  have "push le_host (from_ptr 40) (PyBytes [1, 2]) m = (Inr True, ?m)"
    using spsc_inv_D [OF m(3)] by (intro push_run) (simp_all add: push_payload_bytes)
  then have e: "run_spec (\<lambda>x. on_region ?P 0 (ring_call le_host (from_ptr 40) x)) ?xs
      (demo_shared m [0] [(0, 40)]) = ([Inr (Pushed True)], demo_shared ?m [0] [(0, 40)])"
    using demo_shared_region(1) [of 0 "[(0, 40)]" m "[0]"] demo_shared_region(2) [of 0 "[(0, 40)]" m ?m "[0]"] m(2) l
    by (simp add: on_region_def sbind_Inr sreturn_def)
  have o: "shared_open ?P ''/a'' None (demo_shared ?m [0] [(0, 40)]) =
      (Inr (demo_handle 1 40 False), demo_shared ?m [0, 0] [(0, 40)])"
    using demo_opened [of ?m] l by simp
  obtain m' where m': "shared_spsc le_host ?P (demo_handle 1 40 False) (demo_shared ?m [0, 0] [(0, 40)]) =
      (Inr (1, from_ptr 40), demo_shared m' [0, 0] [(0, 40), (0, 40)])"
    using demo_ring [of 40 ?m 1 "[0, 0]" False "[(0, 40)]"] l by auto
  have lim: "within_limits le_host (2 ^ 4) zs" for zs by (rule within_limits_small) simp_all
  have spec: "run_spec (queue_call le_host 40 (2 ^ 4)) ?xs [] = ([Inr (Pushed True)], [[1, 2]])"
    by (simp add: push_payload_bytes queue_bytes_def)
  have "unat (40 :: usize) = 24 + 2 ^ 4" by simp
  from shared_queue [OF demo_laws demo_boot this c m(1) lim e o m'] obtain q where
    "run_spec (queue_call le_host 40 (2 ^ 4)) ?xs [] = ([Inr (Pushed True)], q)"
    "\<forall>ys. \<exists>t. run_spec (party_ring le_host ?P 0 1 (from_ptr 40) (from_ptr 40)) ys
      (demo_shared m' [0, 0] [(0, 40), (0, 40)]) =
      (fst (run_spec (\<lambda>x. queue_call le_host 40 (2 ^ 4) (snd x)) ys q), t)"
    using lim by blast
  with spec obtain t where "run_spec (party_ring le_host ?P 0 1 (from_ptr 40) (from_ptr 40)) ?ys
      (demo_shared m' [0, 0] [(0, 40), (0, 40)]) =
      (fst (run_spec (\<lambda>x. queue_call le_host 40 (2 ^ 4) (snd x)) ?ys [[1, 2]]), t)"
    by (metis prod.inject)
  with c m(1) e o m' demo_party_answers show ?thesis by metis
qed

end
