(* ===== verification/Lifecycle.thy ===== *)
theory Lifecycle
  imports SessionProps
begin

text \<open>
  The life of a POSIX segment beyond one session: it outlives the handles and views of its creator, and
  removing it takes only its name away: who has it mapped keeps sharing it, nobody opens it any more, and a
  segment created later, under the same name or another, is a different one.
\<close>

section \<open>One segment does not disturb another\<close>

lemma region_holds_attached:
  "region_holds P g ob h ps (v, w) (bs, p) \<longleftrightarrow>
   attached P g ob (4 + length bs) ps w \<and> view_holds h (v, file_bytes g ob w) (bs, p)"
  by (simp add: region_holds_def)

lemma region_holds_away:
  assumes "region_holds P g x h qs (v, w) f" "only_file g ob w w'" "x \<noteq> ob" "running g w'"
  shows "region_holds P g x h qs (v, w') f"
proof -
  obtain bs p where f: "f = (bs, p)" by (cases f)
  have A: "attached P g x (4 + length bs) qs w" "view_holds h (v, file_bytes g x w) (bs, p)"
    using assms(1) by (simp_all add: f region_holds_attached)
  show ?thesis
    using attached_away [OF A(1) assms(2-4)] A(2) by (simp add: f region_holds_attached)
qed

lemma region_holds_running: "region_holds P g x h qs (v, w) f \<Longrightarrow> running g w"
  by (cases f) (simp add: region_holds_attached attached_def)

section \<open>Two parties on one segment and one on another\<close>

text \<open>Calls of the first two processes (\<open>Inl\<close>, as in \<open>party_call\<close>) and of a third on a segment of its own.\<close>

fun trio_call ::
    "host \<Rightarrow> ('h, 'w) platform \<Rightarrow> nat \<Rightarrow> nat \<Rightarrow> nat \<Rightarrow> (bool \<times> view_op) + view_op \<Rightarrow>
     mapped_view \<times> mapped_view \<times> mapped_view \<times> 'w \<Rightarrow>
     (view_seen \<times> mapped_view \<times> mapped_view \<times> mapped_view \<times> 'w) option" where
  "trio_call h P a b c (Inl x) (v, v', u, w) =
     map_option (\<lambda>(r, v, v', w). (r, v, v', u, w)) (party_call h P a b x (v, v', w))"
| "trio_call h P a b c (Inr y) (v, v', u, w) =
     map_option (\<lambda>(r, u, w). (r, v, v', u, w)) (region_call h P c y (u, w))"

fun two_files ::
    "host \<Rightarrow> (bool \<times> view_op) + view_op \<Rightarrow> shared_file \<times> u8 list \<times> nat \<Rightarrow>
     view_seen \<times> shared_file \<times> u8 list \<times> nat" where
  "two_files h (Inl x) (f, f') = (case shared_call h x f of (r, f) \<Rightarrow> (r, f, f'))"
| "two_files h (Inr y) (f, f') = (case file_call h y f' of (r, f') \<Rightarrow> (r, f, f'))"

lemma party_call_holds:
  assumes holds: "party_holds P g ob h a b (v, v', w) f"
  shows "\<exists>t t' w1. party_call h P a b x (v, v', w) = Some (fst (shared_call h x f), t, t', w1) \<and>
    party_holds P g ob h a b (t, t', w1) (snd (shared_call h x f)) \<and> only_file g ob w w1 \<and> running g w1"
proof -
  obtain bs p q where f: "f = (bs, p, q)" by (cases f)
  obtain first y where x: "x = (first, y)" by (cases x)
  have A: "region_holds P g ob h [a, b] (v, w) (bs, p)" and B: "region_holds P g ob h [a, b] (v', w) (bs, q)"
    using holds by (simp_all add: party_holds_def f)
  obtain s' where s': "party_call h P a b x (v, v', w) = Some (fst (shared_call h x f), s')"
    "party_holds P g ob h a b s' (snd (shared_call h x f))"
    using shared.call_sim [OF holds] by blast
  obtain t t' w1 where t: "s' = (t, t', w1)" by (cases s')
  have "only_file g ob w w1"
    using region_call_holds [OF A, of a y] region_call_holds [OF B, of b y] s'(1) t
    by (cases first) (auto simp: f x)
  moreover have "running g w1"
    using s'(2) region_holds_running t
    by (cases "snd (shared_call h x f)") (auto simp: party_holds_def)
  ultimately show ?thesis using s' t by blast
qed

interpretation trio: simulation
  "trio_call h P a b c" "two_files h"
  "\<lambda>(v, v', u, w) (f, f'). party_holds P g ob h a b (v, v', w) f \<and> region_holds P g ob' h [c] (u, w) f' \<and> ob \<noteq> ob'"
  for P :: "('h, 'w) platform" and g ob ob' h a b c
proof
  fix s :: "mapped_view \<times> mapped_view \<times> mapped_view \<times> 'w" and F :: "shared_file \<times> u8 list \<times> nat" and x
  let ?rel = "\<lambda>(v, v', u, w) (f, f'). party_holds P g ob h a b (v, v', w) f \<and>
    region_holds P g ob' h [c] (u, w) f' \<and> ob \<noteq> ob'"
  assume rel: "?rel s F"
  obtain v v' u w where s: "s = (v, v', u, w)" by (cases s)
  obtain f f' where F: "F = (f, f')" by (cases F)
  have P: "party_holds P g ob h a b (v, v', w) f" and R: "region_holds P g ob' h [c] (u, w) f'"
    and ne: "ob \<noteq> ob'" "ob' \<noteq> ob"
    using rel by (auto simp: s F)
  show "\<exists>s'. trio_call h P a b c x s = Some (fst (two_files h x F), s') \<and>
      ?rel s' (snd (two_files h x F))"
  proof (cases x)
    case (Inl y)
    obtain t t' w1 where t: "party_call h P a b y (v, v', w) = Some (fst (shared_call h y f), t, t', w1)"
      "party_holds P g ob h a b (t, t', w1) (snd (shared_call h y f))" "only_file g ob w w1" "running g w1"
      using party_call_holds [OF P] by blast
    from region_holds_away [OF R t(3) ne(2) t(4)] t(1,2) ne show ?thesis
      by (auto simp: s F Inl split: prod.splits)
  next
    case (Inr y)
    obtain t w1 where t: "region_call h P c y (u, w) = Some (fst (file_call h y f'), t, w1)"
      "region_holds P g ob' h [c] (t, w1) (snd (file_call h y f'))" "only_file g ob' w w1"
      using region_call_holds [OF R, of c y] by auto
    note run = region_holds_running [OF t(2)]
    have "party_holds P g ob h a b (v, v', w1) f"
      using P region_holds_away [OF _ t(3) ne(1) run] by (cases f) (auto simp: party_holds_def)
    then show ?thesis using t(1,2) ne by (auto simp: s F Inr split: prod.splits)
  qed
qed

section \<open>Steps of a segment's life\<close>

lemma segment_left:
  assumes laws: "posix_laws os g" and at: "attached (unix_platform os) g ob n [a] w" and named: "named g name w = Some ob"
    and w': "w' = shared_drop (unix_platform os) s (view_drop (unix_platform os) (a, v) w)"
  shows "running g w'" "named g name w' = Some ob" "file_bytes g ob w' = file_bytes g ob w"
proof -
  have a: "posix_laws os g" "running g w" "map_file g a w = Some (ob, n)"
    using laws at by (simp_all add: attached_def)
  note u = munmap_lawD [OF a, of "view_size v"]
  note c = close_lawD [OF a(1) u(1), of "uh_fd (sm_handle s)"]
  have w'_eq: "w' = close_fd os (uh_fd (sm_handle s)) (snd (munmap os a (view_size v) w))"
    by (simp add: w' shared_drop_def view_drop_def unix_drop_def unix_unmap_def)
  show "running g w'" using c(1) by (simp add: w'_eq)
  show "named g name w' = Some ob" "file_bytes g ob w' = file_bytes g ob w"
    unfolding w'_eq using u(2) c(3) named unfolding keeps_named_def by metis+
qed

lemma segment_reopened:
  assumes laws: "posix_laws os g" "running g w" and named: "named g name w = Some ob"
    and len: "length (file_bytes g ob w) = unat n" "unat n \<le> isize_max" and free: "lock_val h (file_bytes g ob w) = 0"
    and op: "shared_open (unix_platform os) name sz w = (Inr s, w1)"
    and map: "shared_map h (unix_platform os) s w1 = (Inr (b, v), w2)"
  shows "region_holds (unix_platform os) g ob h [b] (v, w2) (drop 4 (file_bytes g ob w), 0)"
    "shared_size (unix_platform os) s = n"
proof -
  have uo: "unix_open os name w = (Inr (sm_handle s), w1)"
    using op by (auto simp: shared_open_def sbind_eq_Inr smap_err_eq_Inr sdo_eq_Inr sreturn_def)
  note o = unix_opened [OF laws uo named]
  then have size: "uh_size (sm_handle s) = n" using len(1) by simp
  then show "shared_size (unix_platform os) s = n" by (simp add: shared_size_def)
  obtain wo m where um: "unix_map os (sm_handle s) w1 = (Inr (Inr b), wo)"
    and new: "view_new h n (sm_is_creator s) (p_region (unix_platform os) b wo) = (Inr v, m)"
    and w2: "w2 = p_set_region (unix_platform os) b m wo"
    using map size by (auto simp: shared_map_eq_Inr)
  have m: "attached (unix_platform os) g ob (unat n) [b] wo" "file_bytes g ob wo = file_bytes g ob w"
    using unix_mapped [OF laws(1) _ um, of ob] o len(1) size by auto
  show "region_holds (unix_platform os) g ob h [b] (v, w2) (drop 4 (file_bytes g ob w), 0)"
    using view_new_holds(1) [OF m(1) _ len(2) new] free m(2) by (simp add: w2)
qed

lemma fresh_created:
  assumes laws: "posix_laws os g" "running g w" and new: "named g name w = None"
    and create: "unix_create os name n w = (Inr hnd, w')" and fd: "fd_file g (uh_fd hnd) w' = Some ob"
  shows "(\<forall>p k. map_file g p w \<noteq> Some (ob, k)) \<and> (\<exists>w1. running g w1 \<and> keeps_maps g w w1 \<and> only_file g ob w1 w')"
proof -
  obtain w1 where op: "shm_open os name [O_CREAT, O_RDWR] 438 w = (Inr (uh_fd hnd), w1)"
    and tr: "ftruncate os (uh_fd hnd) (sint n) w1 = (Inr (), w')"
    using create by (auto simp: unix_create_eq_Inr)
  obtain x where x: "running g w1" "keeps_maps g w w1" "fd_file g (uh_fd hnd) w1 = Some x"
    "\<forall>p k. map_file g p w \<noteq> Some (x, k)"
    using open_lawD [OF laws op] new by auto
  note t = ftruncate_lawD [OF laws(1) x(1,3) tr]
  have "x = ob" using t(3) fd by simp
  with x t(6) show ?thesis by blast
qed

lemma segment_recreated:
  assumes laws: "posix_laws os g" "running g w" and new: "named g name w = None"
    and at: "attached (unix_platform os) g ob k ps w" "ps \<noteq> []"
    and create: "shared_create (unix_platform os) name n w = (Inr s, w1)"
    and map: "shared_map h (unix_platform os) s w1 = (Inr (c, u), w2)"
  shows "\<exists>ob'. ob' \<noteq> ob \<and> region_holds (unix_platform os) g ob' h [c] (u, w2) (replicate (unat n - 4) 0, 0) \<and>
    attached (unix_platform os) g ob k ps w2 \<and> file_bytes g ob w2 = file_bytes g ob w"
proof -
  have uc: "unix_create os name n w = (Inr (sm_handle s), w1)" and cr: "sm_is_creator s"
    using create
    by (auto simp: shared_create_def sbind_eq_Inr smap_err_eq_Inr sdo_eq_Inr sreturn_def split: if_splits)
  obtain ob' where o: "running g w1" "fd_file g (uh_fd (sm_handle s)) w1 = Some ob'"
    "uh_size (sm_handle s) = n" "unat n \<le> isize_max" "file_bytes g ob' w1 = replicate (unat n) 0"
    using unix_created [OF laws uc] new by auto
  obtain wf where f: "\<forall>p k. map_file g p w \<noteq> Some (ob', k)" "running g wf" "keeps_maps g w wf" "only_file g ob' wf w1"
    using fresh_created [OF laws new uc o(2)] by blast
  have ne: "ob \<noteq> ob'" using at f(1) by (cases ps) (auto simp: attached_def)
  note k1 = attached_keeps [OF at f(3,2)]
  note k2 = attached_away [OF k1(1) f(4) ne o(1)]
  obtain wm m where um: "unix_map os (sm_handle s) w1 = (Inr (Inr c), wm)"
    and nv: "view_new h n True (p_region (unix_platform os) c wm) = (Inr u, m)" and w2: "w2 = p_set_region (unix_platform os) c m wm"
    using map o(3) cr by (auto simp: shared_map_eq_Inr)
  have m: "attached (unix_platform os) g ob' (unat n) [c] wm" "keeps_maps g w1 wm" "file_bytes g ob' wm = replicate (unat n) 0"
    using unix_mapped [OF laws(1) o(1) um o(2)] o(3,5) by auto
  then have run: "running g wm" by (simp add: attached_def)
  note k3 = attached_keeps [OF k2(1) at(2) m(2) run]
  have r: "region_holds (unix_platform os) g ob' h [c] (u, w2) (replicate (unat n - 4) 0, 0)"
    using view_new_holds(1) [OF m(1) _ o(4) nv] by (simp add: w2 m(3))
  have len: "length m = unat n"
    using view_new_Inr [OF nv] attached_region [OF m(1), of c] m(3) by (simp add: i32_f.upd_length)
  have "only_file g ob' wm w2"
    using attached_set(4) [OF m(1) _ len, of c] by (simp add: w2)
  from attached_away [OF k3(1) this ne region_holds_running [OF r]] ne r k1 k2 k3 show ?thesis
    by (intro exI [of _ ob']) simp
qed

lemma removed_not_opened:
  assumes laws: "posix_laws os g" "running g w" and gone: "named g name w = None" and ok: "validate_name name = Inr ()"
  shows "\<exists>msg. fst (shared_open (unix_platform os) name sz w) = Inl (Raise (PyOSError msg))"
proof -
  obtain res w1 where op: "shm_open os name [O_RDWR] 0 w = (res, w1)" by (cases "shm_open os name [O_RDWR] 0 w")
  then obtain e where "res = Inl e"
    using open_lawD [OF laws, of name "[O_RDWR]" 0] gone by (cases res) auto
  then show ?thesis
    using op ok by (simp add: shared_open_def unix_open_def res_simps sbind_def smap_err_def sdo_def
        shm_error_from_errno_def)
qed

section \<open>The example system\<close>

lemma demo_call:
  fixes x fds
  assumes "view_holds h (v, m) f" "p < length maps" "maps ! p = (0, length m)"
  shows "\<exists>v' m'. region_call h (unix_platform demo_posix) p x (v, demo_shared m fds maps) =
      Some (fst (file_call h x f), v', demo_shared m' fds maps) \<and>
    view_holds h (v', m') (snd (file_call h x f)) \<and> length m' = length m"
proof -
  obtain v' m' where c: "quiet_call h x (v, m) = Some (fst (file_call h x f), v', m')"
    "view_holds h (v', m') (snd (file_call h x f))"
    using view.call_sim [OF assms(1), of x] by auto
  have "length m' = length m"
    using view_holds_D(3) [OF c(2)] view_holds_D(3) [OF assms(1)] 
      view_holds_D(1) [OF c(2)] view_holds_D(1) [OF assms(1)] length_file_call [of h x f]
    by (cases f) (auto simp: view_ok_def)
  then show ?thesis
    using c demo_shared_region [OF assms(2,3)]
    by (intro exI [of _ v'] exI [of _ m']) (simp add: region_call_def)
qed

lemma demo_first_view:
  assumes "unat n = length m" "length m \<le> isize_max" "4 < length m" "fd < length fds" "fds ! fd = 0"
  shows "\<exists>v m'. shared_map h (unix_platform demo_posix) (demo_handle fd n True) (demo_shared m fds maps) =
      (Inr (length maps, v), demo_shared m' fds (maps @ [(0, length m)])) \<and>
      view_holds h (v, m') (drop 4 m, 0) \<and> length m' = length m"
proof -
  let ?m = "i32_upd h 0 0 m"
  have len: "length ?m = length m" using assms(3) by (simp add: i32_f.upd_length)
  have "n \<noteq> 0" using assms(1,3) by auto
  then have "shared_map h (unix_platform demo_posix) (demo_handle fd n True) (demo_shared m fds maps) =
      (Inr (length maps, \<lparr>view_size = n, view_cursor = 0\<rparr>), demo_shared ?m fds (maps @ [(0, length m)]))"
    using assms(1) demo_mapped [of n fd fds True m maps] assms(4,5) len view_new_run [OF assms(1-3), of h True]
      demo_shared_region [where p = "length maps" and maps = "maps @ [(0, length m)]" and m = m]
    by (simp add: shared_map_eq_Inr nth_append)
  moreover have "view_holds h (\<lparr>view_size = n, view_cursor = 0\<rparr>, ?m) (drop 4 m, 0)"
    using assms(1-3) len by (auto simp: view_holds_def view_ok_def i32_f.val_upd drop_i32_upd)
  ultimately show ?thesis using len by blast
qed

text \<open>The example system when \<open>/a\<close> has been removed and created again.\<close>

definition demo_again :: "memory \<Rightarrow> memory \<Rightarrow> (nat \<times> nat) list \<Rightarrow> shm_world" where
  "demo_again m m2 maps = \<lparr>w_names = [(''/a'', 1)], w_objects = [m, m2], w_fds = [0, 0, 1], w_maps = maps\<rparr>"

lemma demo_removed:
  "shared_remove (unix_platform demo_posix) ''/a'' (demo_shared m fds maps) =
    (Inr (), \<lparr>w_names = [], w_objects = [m], w_fds = fds, w_maps = maps\<rparr>)"
  by (simp add: shared_remove_def validate_name_def sbind_Inr smap_err_Inr unix_remove_def demo_unlink_def demo_shared_def)

lemma demo_recreated:
  "shared_create (unix_platform demo_posix) ''/a'' 8
     \<lparr>w_names = [], w_objects = [m], w_fds = [0, 0], w_maps = maps\<rparr> =
    (Inr (demo_handle 2 8 True), demo_again m (replicate 8 0) maps)"
proof -
  have op: "demo_open ''/a'' [O_CREAT, O_RDWR] 438 \<lparr>w_names = [], w_objects = [m], w_fds = [0, 0], w_maps = maps\<rparr> =
      (Inr 2, demo_again m [] maps)"
    by (simp add: demo_open_def demo_again_def)
  have "demo_truncate 2 8 (demo_again m [] maps) = (Inr (), demo_again m (replicate 8 0) maps)"
    by (simp add: demo_truncate_def demo_again_def)
  with op have "unix_create demo_posix ''/a'' 8 \<lparr>w_names = [], w_objects = [m], w_fds = [0, 0], w_maps = maps\<rparr> =
      (Inr (sm_handle (demo_handle 2 8 True)), demo_again m (replicate 8 0) maps)"
    by (simp add: unix_create_eq_Inr demo_handle_def)
  then show ?thesis
    by (simp add: shared_create_def validate_name_def sbind_Inr smap_err_Inr sreturn_def demo_handle_def)
qed

lemma demo_remapped:
  "\<exists>u w'. shared_map h (unix_platform demo_posix) (demo_handle 2 8 True) (demo_again m (replicate 8 0) maps) =
    (Inr (length maps, u), w')"
proof -
  let ?w = "demo_again m (replicate 8 0) (maps @ [(1, 8)])"
  have p: "p_map (unix_platform demo_posix) (sm_handle (demo_handle 2 8 True)) (demo_again m (replicate 8 0) maps) =
      (Inr (Inr (length maps)), ?w)"
    by (simp add: unix_map_def res_simps demo_handle_def demo_again_def)
  have r: "demo_region (length maps) ?w = replicate 8 0"
    by (simp add: demo_region_def demo_again_def nth_append)
  show ?thesis
    using p r view_new_run [of 8 "replicate 8 0" h True] by (auto simp: shared_map_eq_Inr isize_max_def)
qed

section \<open>Properties\<close>

text \<open>
  C13: A POSIX segment outlives its creator. When the process that created, mapped and used it has
  dropped the view (which unmaps it) and the handle (which closes the descriptor), another process that
  opens it by name finds its size, and a file that starts with what the first has written.
\<close>

theorem segment_persists:
  assumes "posix_laws os g" "running g w"
    and "shared_create (unix_platform os) name n w = (Inr s, w1)"
    and "shared_map h (unix_platform os) s w1 = (Inr (a, v), w2)"
    and "run_calls (region_call h (unix_platform os) a) xs (v, w2) = Some (rs, v1, w3)"
    and "w4 = shared_drop (unix_platform os) s (view_drop (unix_platform os) (a, v1) w3)"
    and "shared_open (unix_platform os) name sz w4 = (Inr s', w5)"
    and "shared_map h (unix_platform os) s' w5 = (Inr (b, v'), w6)"
  shows "\<exists>bs cs p. length bs = unat n - 4 \<and> (named g name w = None \<longrightarrow> bs = replicate (unat n - 4) 0) \<and>
    run_spec (file_call h) xs (bs, 0) = (rs, cs, p) \<and> shared_size (unix_platform os) s' = n \<and>
    (\<forall>ys. \<exists>t. run_calls (region_call h (unix_platform os) b) ys (v', w6) =
       Some (fst (run_spec (file_call h) ys (cs, 0)), t))"
proof -
  obtain ob bs cs p where C: "length bs = unat n - 4" "named g name w = None \<longrightarrow> bs = replicate (unat n - 4) 0"
    "run_spec (file_call h) xs (bs, 0) = (rs, cs, p)" "4 + length cs = unat n" "unat n \<le> isize_max"
    "region_holds (unix_platform os) g ob h [a] (v1, w3) (cs, p)" "named g name w3 = Some ob"
    using posix.creator_holds [OF assms(1,2) TrueI assms(3-5)] by (elim exE conjE) (rule that)
  have A: "attached (unix_platform os) g ob (unat n) [a] w3" "view_holds h (v1, file_bytes g ob w3) (cs, p)"
    using C(4,6) by (simp_all add: region_holds_attached)
  note L = segment_left [OF assms(1) A(1) C(7) assms(6)]
  have bytes: "lock_val h (file_bytes g ob w4) = 0" "drop 4 (file_bytes g ob w4) = cs"
    "length (file_bytes g ob w4) = unat n"
    using view_holds_D(2,3) [OF A(2)] A(1) L(3) by (simp_all add: attached_def)
  note R = segment_reopened [OF assms(1) L(1,2) bytes(3) C(5) bytes(1) assms(7,8)]
  have "region_holds (unix_platform os) g ob h [b] (v', w6) (cs, 0)" using R(1) bytes(2) by simp
  then have "\<exists>t. run_calls (region_call h (unix_platform os) b) ys (v', w6) =
      Some (fst (run_spec (file_call h) ys (cs, 0)), t)" for ys
    using region_run by metis
  with C(1-3) R(2) show ?thesis
    by (intro exI [of _ bs] exI [of _ cs] exI [of _ p]) simp
qed

theorem segment_persists_witness:
  "\<exists>s w1 a v w2 v1 w3 s' w5 b v' w6 t.
    shared_create (unix_platform demo_posix) ''/a'' 8 boot = (Inr s, w1) \<and>
    shared_map le_host (unix_platform demo_posix) s w1 = (Inr (a, v), w2) \<and>
    region_call le_host (unix_platform demo_posix) a (Write (PyBytes [1, 2]) None) (v, w2) = Some (Seen Done, v1, w3) \<and>
    shared_open (unix_platform demo_posix) ''/a'' None
      (shared_drop (unix_platform demo_posix) s (view_drop (unix_platform demo_posix) (a, v1) w3)) = (Inr s', w5) \<and>
    shared_map le_host (unix_platform demo_posix) s' w5 = (Inr (b, v'), w6) \<and>
    run_calls (region_call le_host (unix_platform demo_posix) b) [ReadRange 0 3, Tell] (v', w6) =
      Some ([Seen (Got (PyBytes [1, 2, 0])), Seen (Got (PyInt 0))], t)"
proof -
  let ?P = "unix_platform demo_posix" and ?x = "Write (PyBytes [1, 2]) None"
  have zeros: "replicate 4 (0 :: u8) = [0, 0, 0, 0]" "drop 4 (replicate 8 (0 :: u8)) = [0, 0, 0, 0]"
    by (simp_all add: numeral_eq_Suc)
  have w: "file_call le_host ?x ([0, 0, 0, 0], 0) = (Seen Done, [1, 2, 0, 0], 2)"
    by (simp add: vec_extend_def isize_max_def file_pos_def file_move_def overwrite_def)
  have c: "shared_create ?P ''/a'' 8 boot = (Inr (demo_handle 0 8 True), demo_shared (replicate 8 0) [0] [])"
    using demo_created [of 8] by simp
  obtain v m where m: "shared_map le_host ?P (demo_handle 0 8 True) (demo_shared (replicate 8 0) [0] []) =
      (Inr (0, v), demo_shared m [0] [(0, 8)])" "view_holds le_host (v, m) ([0, 0, 0, 0], 0)" "length m = 8"
    using demo_first_view [of 8 "replicate 8 0" 0 "[0]" le_host "[]"] zeros(2) by (auto simp: isize_max_def)
  obtain v1 m1 where m1: "region_call le_host ?P 0 ?x (v, demo_shared m [0] [(0, 8)]) =
      Some (Seen Done, v1, demo_shared m1 [0] [(0, 8)])" "length m1 = 8"
    using demo_call [OF m(2), of 0 "[(0, 8)]" ?x "[0]"] m(3) unfolding w by auto
  have d: "shared_drop ?P (demo_handle 0 8 True) (view_drop ?P (0, v1) (demo_shared m1 [0] [(0, 8)])) =
      demo_shared m1 [0] [(0, 8)]"
    by (simp add: shared_drop_def view_drop_def unix_drop_def unix_unmap_def demo_posix_def)
  have o: "shared_open ?P ''/a'' None (demo_shared m1 [0] [(0, 8)]) =
      (Inr (demo_handle 1 8 False), demo_shared m1 [0, 0] [(0, 8)])"
    using demo_opened [of m1] m1(2) by simp
  obtain v' m' where m': "shared_map le_host ?P (demo_handle 1 8 False) (demo_shared m1 [0, 0] [(0, 8)]) =
      (Inr (1, v'), demo_shared m' [0, 0] [(0, 8), (0, 8)])"
    using demo_view [of 8 m1 1 "[0, 0]" le_host False "[(0, 8)]"] m1(2) by (auto simp: isize_max_def)
  have run: "run_calls (region_call le_host ?P 0) [?x] (v, demo_shared m [0] [(0, 8)]) =
      Some ([Seen Done], v1, demo_shared m1 [0] [(0, 8)])"
    using m1(1) by simp
  from segment_persists [OF demo_laws demo_boot c m(1) run d [symmetric] o m']
  obtain cs p where cs: "run_spec (file_call le_host) [?x] (replicate 4 0, 0) = ([Seen Done], cs, p)"
    "\<forall>ys. \<exists>t. run_calls (region_call le_host ?P 1) ys (v', demo_shared m' [0, 0] [(0, 8), (0, 8)]) =
       Some (fst (run_spec (file_call le_host) ys (cs, 0)), t)"
    by (auto simp: boot_def)
  have "cs = [1, 2, 0, 0]" using cs(1) w by (simp add: zeros(1))
  then have "fst (run_spec (file_call le_host) [ReadRange 0 3, Tell] (cs, 0)) =
      [Seen (Got (PyBytes [1, 2, 0])), Seen (Got (PyInt 0))]"
    by (simp add: window_def)
  with c m(1) m1(1) d o m' cs(2) show ?thesis by metis
qed

text \<open>
  C14: Removing a segment takes away its name and nothing else. Two processes that share one go on sharing
  the same file; the name can no longer be opened (an OSError); and a segment that is created afterwards
  under the very same name is a different one, which starts with zeros: whatever the two and its creator
  write, in any order, none sees a byte of the other segment.
\<close>

theorem remove_detaches:
  assumes "posix_laws os g" "running g w"
    and "shared_create (unix_platform os) name n w = (Inr s, w1)"
    and "shared_map h (unix_platform os) s w1 = (Inr (a, v), w2)"
    and "run_calls (region_call h (unix_platform os) a) xs (v, w2) = Some (rs, v1, w3)"
    and "shared_open (unix_platform os) name sz w3 = (Inr s', w4)"
    and "shared_map h (unix_platform os) s' w4 = (Inr (b, v'), w5)"
    and "shared_remove (unix_platform os) name w5 = (Inr (), w6)"
    and "shared_create (unix_platform os) name n2 w6 = (Inr s2, w7)"
    and "shared_map h (unix_platform os) s2 w7 = (Inr (c, u), w8)"
  shows "\<exists>bs cs p. length bs = unat n - 4 \<and> run_spec (file_call h) xs (bs, 0) = (rs, cs, p) \<and>
    (\<forall>sz2. \<exists>msg. fst (shared_open (unix_platform os) name sz2 w6) = Inl (Raise (PyOSError msg))) \<and>
    (\<forall>ys. \<exists>t. run_calls (trio_call h (unix_platform os) a b c) ys (v1, v', u, w8) =
       Some (fst (run_spec (two_files h) ys ((cs, p, 0), replicate (unat n2 - 4) 0, 0)), t))"
proof -
  obtain ob bs cs p where S: "length bs = unat n - 4" "run_spec (file_call h) xs (bs, 0) = (rs, cs, p)"
    "party_holds (unix_platform os) g ob h a b (v1, v', w5) (cs, p, 0)"
    using posix.session_holds [OF assms(1,2) TrueI TrueI assms(3-7)] by (elim exE conjE) (rule that)
  have H: "attached (unix_platform os) g ob (4 + length cs) [a, b] w5" "view_holds h (v1, file_bytes g ob w5) (cs, p)"
    "view_holds h (v', file_bytes g ob w5) (cs, 0)"
    using S(3) by (simp_all add: party_holds_def region_holds_attached)
  have ok: "validate_name name = Inr ()" and un: "shm_unlink os name w5 = (Inr (), w6)"
    using assms(8)
    by (auto simp: shared_remove_def unix_remove_def sbind_eq_Inr smap_err_eq_Inr sdo_eq_Inr)
  have run: "running g w5" using H(1) by (simp add: attached_def)
  note u = unlink_lawD [OF assms(1) run un]
  note k = attached_keeps [OF H(1) _ u(2,1)]
  obtain ob' where R: "ob' \<noteq> ob" "region_holds (unix_platform os) g ob' h [c] (u, w8) (replicate (unat n2 - 4) 0, 0)"
    "attached (unix_platform os) g ob (4 + length cs) [a, b] w8" "file_bytes g ob w8 = file_bytes g ob w6"
    using segment_recreated [OF assms(1) u(1,3) k(1) _ assms(9,10)] by auto
  have "party_holds (unix_platform os) g ob h a b (v1, v', w8) (cs, p, 0)"
    using R(3,4) H(2,3) k(2) by (simp add: party_holds_def region_holds_attached)
  with R(1,2) have rel: "(case (v1, v', u, w8) of (v, v', u, w) \<Rightarrow>
      \<lambda>(f, f'). party_holds (unix_platform os) g ob h a b (v, v', w) f \<and> region_holds (unix_platform os) g ob' h [c] (u, w) f' \<and> ob \<noteq> ob')
      ((cs, p, 0), replicate (unat n2 - 4) 0, 0)"
    by auto
  have "\<exists>t. run_calls (trio_call h (unix_platform os) a b c) ys (v1, v', u, w8) =
      Some (fst (run_spec (two_files h) ys ((cs, p, 0), replicate (unat n2 - 4) 0, 0)), t)" for ys
    using trio.run_sim [OF rel, of ys] by blast
  with S(1,2) removed_not_opened [OF assms(1) u(1,3) ok] show ?thesis
    by (intro exI [of _ bs] exI [of _ cs] exI [of _ p]) simp
qed

theorem remove_detaches_witness:
  "\<exists>s w1 a v w2 s' w4 b v' w5 w6 s2 w7 c u w8 t.
    shared_create (unix_platform demo_posix) ''/a'' 8 boot = (Inr s, w1) \<and>
    shared_map le_host (unix_platform demo_posix) s w1 = (Inr (a, v), w2) \<and>
    shared_open (unix_platform demo_posix) ''/a'' None w2 = (Inr s', w4) \<and>
    shared_map le_host (unix_platform demo_posix) s' w4 = (Inr (b, v'), w5) \<and>
    shared_remove (unix_platform demo_posix) ''/a'' w5 = (Inr (), w6) \<and>
    shared_create (unix_platform demo_posix) ''/a'' 8 w6 = (Inr s2, w7) \<and>
    shared_map le_host (unix_platform demo_posix) s2 w7 = (Inr (c, u), w8) \<and>
    run_calls (trio_call le_host (unix_platform demo_posix) a b c)
      [Inl (True, Write (PyBytes [1, 2]) None), Inr (Write (PyBytes [3]) None),
       Inl (False, ReadRange 0 2), Inr (ReadRange 0 2)] (v, v', u, w8) =
      Some ([Seen Done, Seen Done, Seen (Got (PyBytes [1, 2])), Seen (Got (PyBytes [3, 0]))], t)"
proof -
  let ?P = "unix_platform demo_posix"
  let ?ys = "[Inl (True, Write (PyBytes [1, 2]) None), Inr (Write (PyBytes [3]) None),
    Inl (False, ReadRange 0 2), Inr (ReadRange 0 2)]"
  obtain s w1 a v w2 s' w4 b v' w5 where r:
    "shared_create ?P ''/a'' 8 boot = (Inr s, w1)" "shared_map le_host ?P s w1 = (Inr (a, v), w2)"
    "shared_open ?P ''/a'' None w2 = (Inr s', w4)" "shared_map le_host ?P s' w4 = (Inr (b, v'), w5)"
    "\<exists>m. w5 = demo_shared m [0, 0] [(0, 8), (0, 8)]"
    using demo_session by blast
  then obtain m where m: "w5 = demo_shared m [0, 0] [(0, 8), (0, 8)]" by blast
  let ?w6 = "\<lparr>w_names = [], w_objects = [m], w_fds = [0, 0], w_maps = [(0, 8), (0, 8)]\<rparr>"
  have d: "shared_remove ?P ''/a'' w5 = (Inr (), ?w6)" unfolding m by (rule demo_removed)
  obtain c u w8 where c: "shared_map le_host ?P (demo_handle 2 8 True)
      (demo_again m (replicate 8 0) [(0, 8), (0, 8)]) = (Inr (c, u), w8)"
    using demo_remapped by blast
  have e: "run_calls (region_call le_host ?P a) [] (v, w2) = Some ([], v, w2)" by simp
  from remove_detaches [OF demo_laws demo_boot r(1,2) e r(3,4) d demo_recreated c]
  obtain bs where bs: "length bs = 4"
    "\<forall>ys. \<exists>t. run_calls (trio_call le_host ?P a b c) ys (v, v', u, w8) =
       Some (fst (run_spec (two_files le_host) ys ((bs, 0, 0), replicate 4 0, 0)), t)"
    by auto
  then obtain x1 x2 x3 x4 where x: "bs = [x1, x2, x3, x4]"
    by (auto simp: length_Suc_conv numeral_eq_Suc)
  have zeros: "replicate 4 (0 :: u8) = [0, 0, 0, 0]" by (simp add: numeral_eq_Suc)
  have "fst (run_spec (two_files le_host) ?ys ((bs, 0, 0), replicate 4 0, 0)) =
      [Seen Done, Seen Done, Seen (Got (PyBytes [1, 2])), Seen (Got (PyBytes [3, 0]))]"
    unfolding x zeros
    by (simp add: vec_extend_def isize_max_def file_pos_def file_move_def overwrite_def window_def)
  with r(1-4) d c demo_recreated bs(2) show ?thesis by metis
qed

end
