(* ===== verification/Win32Laws.thy ===== *)
theory Win32Laws
  imports SharedMem Files
begin

text \<open>
  The documented behaviour of the Win32 calls that sharing a segment rests on, as a predicate on the record
  \<open>win32\<close> over the same files as \<open>PosixLaws\<close>. A named file mapping object lives as long as a handle or a
  view refers to it; creating one under a name in use opens the existing object, with the size it has. The
  laws are about names that are not empty (the empty name makes an object without a name).
\<close>

section \<open>The life of an object\<close>

definition referenced :: "'w shm_files \<Rightarrow> nat \<Rightarrow> 'w \<Rightarrow> bool" where
  "referenced g ob w \<longleftrightarrow> (\<exists>hn. fd_file g hn w = Some ob) \<or> (\<exists>p n. map_file g p w = Some (ob, n))"

text \<open>What is left when a handle or a view has gone: objects to which something still refers.\<close>

definition released :: "'w shm_files \<Rightarrow> 'w \<Rightarrow> 'w \<Rightarrow> bool" where
  "released g w w' \<longleftrightarrow> running g w' \<and>
     (\<forall>nm ob. named g nm w' = Some ob \<longleftrightarrow> named g nm w = Some ob \<and> referenced g ob w') \<and>
     (\<forall>ob. referenced g ob w' \<longrightarrow> file_bytes g ob w' = file_bytes g ob w)"

text \<open>A new handle is none of those in use, and changes nothing of these and of the views.\<close>

definition new_handle :: "'w shm_files \<Rightarrow> nat \<Rightarrow> 'w \<Rightarrow> 'w \<Rightarrow> bool" where
  "new_handle g hn w w' \<longleftrightarrow> fd_file g hn w = None \<and>
     (\<forall>x. x \<noteq> hn \<longrightarrow> fd_file g x w' = fd_file g x w) \<and> (\<forall>p. map_file g p w' = map_file g p w)"

section \<open>The laws\<close>

text \<open>The empty name is not the name of an object.\<close>

definition nameless_law :: "'w shm_files \<Rightarrow> bool" where
  "nameless_law g \<longleftrightarrow> (\<forall>w. running g w \<longrightarrow> named g [] w = None)"

definition create_mapping_law :: "'w win32 \<Rightarrow> 'w shm_files \<Rightarrow> bool" where
  "create_mapping_law api g \<longleftrightarrow> (\<forall>hi lo name w hn w'.
     running g w \<and> name \<noteq> [] \<and> create_file_mapping api hi lo name w = (Inr hn, w') \<longrightarrow>
     running g w' \<and> keeps_maps g w w' \<and>
     new_handle g hn w w' \<and>
     (\<exists>ob. named g name w' = Some ob \<and> fd_file g hn w' = Some ob \<and> length (file_bytes g ob w') \<le> isize_max \<and>
        (case named g name w of
           None \<Rightarrow> \<not> referenced g ob w \<and> file_bytes g ob w' = replicate (unat hi * 2 ^ 32 + unat lo) 0
         | Some x \<Rightarrow> ob = x \<and> file_bytes g ob w' = file_bytes g ob w)))"

definition open_mapping_law :: "'w win32 \<Rightarrow> 'w shm_files \<Rightarrow> bool" where
  "open_mapping_law api g \<longleftrightarrow> (\<forall>name w hn w'.
     running g w \<and> name \<noteq> [] \<and> open_file_mapping api name w = (Inr hn, w') \<longrightarrow>
     running g w' \<and> keeps_maps g w w' \<and> new_handle g hn w w' \<and>
     (\<exists>ob. named g name w = Some ob \<and> named g name w' = Some ob \<and> fd_file g hn w' = Some ob \<and>
        file_bytes g ob w' = file_bytes g ob w \<and> file_bytes g ob w \<noteq> []))"

text \<open>A view of the first \<open>n\<close> bytes, if the object has so many; 0 bytes would mean all of it.\<close>

definition map_view_law :: "'w win32 \<Rightarrow> 'w shm_files \<Rightarrow> bool" where
  "map_view_law api g \<longleftrightarrow> (\<forall>hn n w p w' ob.
     running g w \<and> fd_file g hn w = Some ob \<and> n \<noteq> 0 \<and> unat n \<le> length (file_bytes g ob w) \<and>
     map_view_of_file api hn n w = (p, w') \<and> p \<noteq> 0 \<longrightarrow>
     running g w' \<and> keeps_maps g w w' \<and> map_file g p w = None \<and> map_file g p w' = Some (ob, unat n) \<and>
     (\<forall>q. q \<noteq> p \<longrightarrow> map_file g q w' = map_file g q w) \<and> (\<forall>x. fd_file g x w' = fd_file g x w) \<and>
     (\<forall>nm. named g nm w' = named g nm w) \<and> file_bytes g ob w' = file_bytes g ob w)"

definition unmap_view_law :: "'w win32 \<Rightarrow> 'w shm_files \<Rightarrow> bool" where
  "unmap_view_law api g \<longleftrightarrow> (\<forall>p w. running g w \<and> map_file g p w \<noteq> None \<longrightarrow>
     released g w (unmap_view_of_file api p w) \<and>
     (\<forall>q. map_file g q (unmap_view_of_file api p w) = (if q = p then None else map_file g q w)) \<and>
     (\<forall>x. fd_file g x (unmap_view_of_file api p w) = fd_file g x w))"

definition close_handle_law :: "'w win32 \<Rightarrow> 'w shm_files \<Rightarrow> bool" where
  "close_handle_law api g \<longleftrightarrow> (\<forall>hn w. running g w \<and> fd_file g hn w \<noteq> None \<longrightarrow>
     released g w (close_handle api hn w) \<and>
     (\<forall>x. fd_file g x (close_handle api hn w) = (if x = hn then None else fd_file g x w)) \<and>
     (\<forall>p. map_file g p (close_handle api hn w) = map_file g p w))"

definition win32_laws :: "'w win32 \<Rightarrow> 'w shm_files \<Rightarrow> bool" where
  "win32_laws api g \<longleftrightarrow> memory_laws (win32_platform api) g \<and> nameless_law g \<and> create_mapping_law api g \<and>
     open_mapping_law api g \<and> map_view_law api g \<and> unmap_view_law api g \<and> close_handle_law api g"

section \<open>The laws as rules\<close>

lemma win32_memory: "win32_laws api g \<Longrightarrow> memory_laws (win32_platform api) g"
  by (simp add: win32_laws_def)

lemma nameless_lawD: "win32_laws api g \<Longrightarrow> running g w \<Longrightarrow> named g nm w = Some ob \<Longrightarrow> nm \<noteq> []"
  by (auto simp: win32_laws_def nameless_law_def)

lemma create_mapping_lawD:
  assumes "win32_laws api g" "running g w" "name \<noteq> []" "create_file_mapping api hi lo name w = (Inr hn, w')"
  shows "running g w' \<and> keeps_maps g w w' \<and>
     new_handle g hn w w' \<and>
     (\<exists>ob. named g name w' = Some ob \<and> fd_file g hn w' = Some ob \<and> length (file_bytes g ob w') \<le> isize_max \<and>
        (case named g name w of
           None \<Rightarrow> \<not> referenced g ob w \<and> file_bytes g ob w' = replicate (unat hi * 2 ^ 32 + unat lo) 0
         | Some x \<Rightarrow> ob = x \<and> file_bytes g ob w' = file_bytes g ob w))"
  using assms unfolding win32_laws_def create_mapping_law_def by blast

lemma open_mapping_lawD:
  assumes "win32_laws api g" "running g w" "name \<noteq> []" "open_file_mapping api name w = (Inr hn, w')"
  shows "running g w' \<and> keeps_maps g w w' \<and> new_handle g hn w w' \<and>
     (\<exists>ob. named g name w = Some ob \<and> named g name w' = Some ob \<and> fd_file g hn w' = Some ob \<and>
        file_bytes g ob w' = file_bytes g ob w \<and> file_bytes g ob w \<noteq> [])"
  using assms unfolding win32_laws_def open_mapping_law_def by blast

lemma map_view_lawD:
  assumes "win32_laws api g" "running g w" "fd_file g hn w = Some ob" "n \<noteq> 0"
    and "unat n \<le> length (file_bytes g ob w)" "map_view_of_file api hn n w = (p, w')" "p \<noteq> 0"
  shows "running g w'" "keeps_maps g w w'" "map_file g p w = None" "map_file g p w' = Some (ob, unat n)"
    "q \<noteq> p \<Longrightarrow> map_file g q w' = map_file g q w" "fd_file g x w' = fd_file g x w"
    "named g nm w' = named g nm w" "file_bytes g ob w' = file_bytes g ob w"
proof -
  have "map_view_law api g" using assms(1) by (simp add: win32_laws_def)
  note law = this [unfolded map_view_law_def, rule_format, OF conjI, OF assms(2)]
  show "running g w'" "keeps_maps g w w'" "map_file g p w = None" "map_file g p w' = Some (ob, unat n)"
    "q \<noteq> p \<Longrightarrow> map_file g q w' = map_file g q w" "fd_file g x w' = fd_file g x w"
    "named g nm w' = named g nm w" "file_bytes g ob w' = file_bytes g ob w"
    using law [of hn ob n p w'] assms(3-7) by blast+
qed

lemma unmap_view_lawD:
  assumes "win32_laws api g" "running g w" "map_file g p w = Some x"
  shows "released g w (unmap_view_of_file api p w)"
    "map_file g q (unmap_view_of_file api p w) = (if q = p then None else map_file g q w)"
    "fd_file g y (unmap_view_of_file api p w) = fd_file g y w"
  using assms unfolding win32_laws_def unmap_view_law_def by blast+

lemma close_handle_lawD:
  assumes "win32_laws api g" "running g w" "fd_file g hn w = Some x"
  shows "released g w (close_handle api hn w)"
    "fd_file g y (close_handle api hn w) = (if y = hn then None else fd_file g y w)"
    "map_file g p (close_handle api hn w) = map_file g p w"
  using assms unfolding win32_laws_def close_handle_law_def by blast+

end
