(* ===== verification/Win32Session.thy ===== *)
theory Win32Session
  imports Session Win32Laws
begin

text \<open>
  What the Win32 handle does under \<open>win32_laws\<close>, and with it the interpretation of \<open>segments\<close>: the name must
  not be empty without its slashes, a segment that exists already must have the size it is created
  with, and the opener must give the size of the segment.
\<close>

section \<open>The platform calls\<close>

lemma win32_create_eq_Inr:
  "win32_create api name n w = (Inr hnd, w') \<longleftrightarrow>
   create_file_mapping api (size_high n) (size_low n) (to_win32_name name) w = (Inr (wh_handle hnd), w') \<and>
   CHR 0x00 \<notin> set (to_win32_name name) \<and> wh_size hnd = n \<and> wh_name hnd = name"
  by (cases hnd) (auto simp: win32_create_def sbind_eq_Inr smap_err_eq_Inr sdo_eq_Inr cstring_new_eq_Inr sreturn_def)

lemma win32_open_eq_Inr:
  "win32_open api name n w = (Inr hnd, w') \<longleftrightarrow>
   open_file_mapping api (to_win32_name name) w = (Inr (wh_handle hnd), w') \<and>
   CHR 0x00 \<notin> set (to_win32_name name) \<and> wh_size hnd = n \<and> wh_name hnd = name"
  by (cases hnd) (auto simp: win32_open_def sbind_eq_Inr smap_err_eq_Inr sdo_eq_Inr cstring_new_eq_Inr sreturn_def)

lemma win32_map_eq_Inr:
  "win32_map api hnd w = (Inr (Inr p), w') \<longleftrightarrow>
   map_view_of_file api (wh_handle hnd) (wh_size hnd) w = (p, w') \<and> p \<noteq> 0"
  by (auto simp: win32_map_def split: prod.splits)

definition may_create :: "'w shm_files \<Rightarrow> string \<Rightarrow> usize \<Rightarrow> 'w \<Rightarrow> bool" where
  "may_create g name n w \<longleftrightarrow> to_win32_name name \<noteq> [] \<and>
     (\<forall>ob. named g (to_win32_name name) w = Some ob \<longrightarrow> length (file_bytes g ob w) = unat n)"

lemma win32_created:
  assumes laws: "win32_laws api g" "running g w" and may: "may_create g name n w"
    and create: "win32_create api name n w = (Inr hnd, w')"
  shows "\<exists>ob. running g w' \<and> named g (to_win32_name name) w' = Some ob \<and> fd_file g (wh_handle hnd) w' = Some ob \<and>
    wh_size hnd = n \<and> unat n \<le> isize_max \<and> length (file_bytes g ob w') = unat n \<and>
    (named g (to_win32_name name) w = None \<longrightarrow> file_bytes g ob w' = replicate (unat n) 0) \<and>
    (named g (to_win32_name name) w = None \<longrightarrow> \<not> referenced g ob w) \<and>
    new_handle g (wh_handle hnd) w w'"
proof -
  have name: "to_win32_name name \<noteq> []"
    and same: "\<forall>ob. named g (to_win32_name name) w = Some ob \<longrightarrow> length (file_bytes g ob w) = unat n"
    using may by (simp_all add: may_create_def)
  have c: "create_file_mapping api (size_high n) (size_low n) (to_win32_name name) w = (Inr (wh_handle hnd), w')"
    and size: "wh_size hnd = n"
    using create by (simp_all add: win32_create_eq_Inr)
  obtain ob where ob: "running g w'" "named g (to_win32_name name) w' = Some ob"
    "fd_file g (wh_handle hnd) w' = Some ob" "length (file_bytes g ob w') \<le> isize_max"
    "case named g (to_win32_name name) w of
       None \<Rightarrow> \<not> referenced g ob w \<and> file_bytes g ob w' = replicate (unat n) 0
     | Some x \<Rightarrow> ob = x \<and> file_bytes g ob w' = file_bytes g ob w"
    "new_handle g (wh_handle hnd) w w'"
    using create_mapping_lawD [OF laws name c] unfolding size_halves by blast
  have len: "length (file_bytes g ob w') = unat n" using ob(5) same by (auto split: option.splits)
  then have "unat n \<le> isize_max" using ob(4) by simp
  with ob len size show ?thesis by (intro exI [of _ ob]) (simp split: option.splits)
qed

lemma win32_opened:
  assumes laws: "win32_laws api g" "running g w" and name: "to_win32_name name \<noteq> []"
    and op: "win32_open api name n w = (Inr hnd, w')"
  shows "\<exists>ob. named g (to_win32_name name) w = Some ob \<and> running g w' \<and> keeps_maps g w w' \<and>
    fd_file g (wh_handle hnd) w' = Some ob \<and> wh_size hnd = n \<and> file_bytes g ob w' = file_bytes g ob w \<and>
    file_bytes g ob w \<noteq> [] \<and> named g (to_win32_name name) w' = Some ob \<and> new_handle g (wh_handle hnd) w w'"
proof -
  have o: "open_file_mapping api (to_win32_name name) w = (Inr (wh_handle hnd), w')" and size: "wh_size hnd = n"
    using op by (simp_all add: win32_open_eq_Inr)
  then show ?thesis using open_mapping_lawD [OF laws name o] by auto
qed

lemma win32_mapped:
  assumes laws: "win32_laws api g" "running g w" and map: "win32_map api hnd w = (Inr (Inr p), w')"
    and fd: "fd_file g (wh_handle hnd) w = Some ob" "length (file_bytes g ob w) = unat (wh_size hnd)"
    and n: "wh_size hnd \<noteq> 0"
  shows "attached (win32_platform api) g ob (unat (wh_size hnd)) [p] w'" "keeps_maps g w w'"
    "file_bytes g ob w' = file_bytes g ob w" "named g nm w' = named g nm w" "fd_file g x w' = fd_file g x w"
    "map_file g p w = None" "q \<noteq> p \<Longrightarrow> map_file g q w' = map_file g q w"
proof -
  have "map_view_of_file api (wh_handle hnd) (wh_size hnd) w = (p, w')" "p \<noteq> 0"
    using map by (simp_all add: win32_map_eq_Inr)
  note m = map_view_lawD [OF laws fd(1) n _ this]
  show "attached (win32_platform api) g ob (unat (wh_size hnd)) [p] w'"
    using win32_memory [OF laws(1)] fd(2) m by (simp add: attached_def)
  show "keeps_maps g w w'" "file_bytes g ob w' = file_bytes g ob w" "named g nm w' = named g nm w"
    "fd_file g x w' = fd_file g x w" "map_file g p w = None" "q \<noteq> p \<Longrightarrow> map_file g q w' = map_file g q w"
    using m fd(2) by simp_all
qed

section \<open>Sharing\<close>

lemma shared_create_win32:
  "shared_create (win32_platform api) name n w = (Inr s, w') \<longleftrightarrow>
   n \<noteq> 0 \<and> validate_name name = Inr () \<and> win32_create api name n w = (Inr (sm_handle s), w') \<and> sm_is_creator s"
  by (cases s) (auto simp: shared_create_def sbind_eq_Inr smap_err_eq_Inr sdo_eq_Inr sreturn_def split: if_splits)

lemma shared_open_win32:
  "shared_open (win32_platform api) name sz w = (Inr s, w') \<longleftrightarrow>
   validate_name name = Inr () \<and> (\<exists>n. sz = Some n \<and> win32_open api name n w = (Inr (sm_handle s), w')) \<and>
   \<not> sm_is_creator s"
  by (cases s) (auto simp: shared_open_def win32_open_sized_def sbind_eq_Inr smap_err_eq_Inr sdo_eq_Inr sreturn_def
      split: option.splits)

interpretation win: segments "win32_platform api" g "win32_laws api g" to_win32_name
  "may_create g" "\<lambda>sz n. sz = Some n"
  for api :: "'w win32" and g
proof
  let ?P = "win32_platform api"
  fix name n w s w1 a w2
  assume laws: "win32_laws api g" "running g w" and may: "may_create g name n w"
    and c: "shared_create ?P name n w = (Inr s, w1)" and map: "p_map ?P (sm_handle s) w1 = (Inr (Inr a), w2)"
  have s: "n \<noteq> 0" "win32_create api name n w = (Inr (sm_handle s), w1)" "sm_is_creator s"
    using c by (simp_all add: shared_create_win32)
  obtain ob where ob: "running g w1" "named g (to_win32_name name) w1 = Some ob"
    "fd_file g (wh_handle (sm_handle s)) w1 = Some ob" "wh_size (sm_handle s) = n" "unat n \<le> isize_max"
    "length (file_bytes g ob w1) = unat n"
    "named g (to_win32_name name) w = None \<longrightarrow> file_bytes g ob w1 = replicate (unat n) 0"
    using win32_created [OF laws may s(2)] by (elim exE conjE) (rule that)
  have um: "win32_map api (sm_handle s) w1 = (Inr (Inr a), w2)" using map by simp
  note m = win32_mapped [OF laws(1) ob(1) um ob(3)]
  show "\<exists>ob. attached ?P g ob (unat n) [a] w2 \<and> named g (to_win32_name name) w2 = Some ob \<and> sm_is_creator s \<and>
      p_size ?P (sm_handle s) = n \<and> unat n \<le> isize_max \<and>
      (named g (to_win32_name name) w = None \<longrightarrow> file_bytes g ob w2 = replicate (unat n) 0)"
    using m(1,3,4) ob s by (intro exI [of _ ob]) simp
next
  let ?P = "win32_platform api"
  fix ob k ps w name sz s w1 b w2
  assume laws: "win32_laws api g" and at: "attached ?P g ob k ps w" "ps \<noteq> []" "k \<le> isize_max"
    and named: "named g (to_win32_name name) w = Some ob" and sz: "sz = Some (of_nat k)"
    and op: "shared_open ?P name sz w = (Inr s, w1)" and map: "p_map ?P (sm_handle s) w1 = (Inr (Inr b), w2)"
  have run: "running g w" and len: "length (file_bytes g ob w) = k" using at(1) by (simp_all add: attached_def)
  have s: "win32_open api name (of_nat k) w = (Inr (sm_handle s), w1)" "\<not> sm_is_creator s"
    using op sz by (simp_all add: shared_open_win32)
  note name = nameless_lawD [OF laws run named]
  obtain o where o: "running g w1" "keeps_maps g w w1" "fd_file g (wh_handle (sm_handle s)) w1 = Some ob"
    "wh_size (sm_handle s) = of_nat k" "file_bytes g ob w1 = file_bytes g ob w" "file_bytes g ob w \<noteq> []"
    "named g (to_win32_name name) w1 = Some ob"
    using win32_opened [OF laws run name s(1)] named by auto
  have size: "unat (wh_size (sm_handle s)) = k" using o(4) at(3) by (simp add: unat_of_nat_isize)
  then have n: "wh_size (sm_handle s) \<noteq> 0" using o(6) len by auto
  have um: "win32_map api (sm_handle s) w1 = (Inr (Inr b), w2)" using map by simp
  have l: "length (file_bytes g ob w1) = unat (wh_size (sm_handle s))" using o(5) len size by simp
  note m = win32_mapped [OF laws o(1) um o(3) l n]
  have "attached ?P g ob k ps w2"
    using attached_keeps [OF at(1,2)] keeps_maps_trans [OF o(2) m(2)] m(1) by (metis attached_def)
  then show "attached ?P g ob k (b # ps) w2 \<and> file_bytes g ob w2 = file_bytes g ob w \<and>
      \<not> sm_is_creator s \<and> p_size ?P (sm_handle s) = of_nat k \<and> named g (to_win32_name name) w2 = Some ob"
    using m(1,3,4) o s(2) size by (simp add: attached_def)
qed

end
