(* ===== verification/Win32Life.thy ===== *)
theory Win32Life
  imports Win32Session
begin

text \<open>
  Who keeps a Windows segment alive: the handles and the views of its object, counted through creation,
  mapping, opening and the drops of views and handles.
\<close>

section \<open>Handles and views of an object\<close>

definition handles_of :: "'w shm_files \<Rightarrow> nat \<Rightarrow> 'w \<Rightarrow> nat set" where
  "handles_of g ob w = {hn. fd_file g hn w = Some ob}"

definition views_of :: "'w shm_files \<Rightarrow> nat \<Rightarrow> 'w \<Rightarrow> nat set" where
  "views_of g ob w = {p. \<exists>n. map_file g p w = Some (ob, n)}"

named_theorems holders

lemma referenced_iff [holders]: "referenced g ob w \<longleftrightarrow> handles_of g ob w \<noteq> {} \<or> views_of g ob w \<noteq> {}"
  by (auto simp: referenced_def handles_of_def views_of_def)

lemma only_file_holders:
  "only_file g x w w' \<Longrightarrow> handles_of g ob w' = handles_of g ob w"
  "only_file g x w w' \<Longrightarrow> views_of g ob w' = views_of g ob w"
  by (simp_all add: only_file_def handles_of_def views_of_def)

lemma new_handle_holders:
  assumes "new_handle g hn w w'" "fd_file g hn w' = Some ob"
  shows "handles_of g ob w' = insert hn (handles_of g ob w)" "hn \<notin> handles_of g ob w"
    "views_of g ob w' = views_of g ob w"
  using assms by (auto simp: new_handle_def handles_of_def views_of_def)

lemma shared_map_holders:
  assumes laws: "win32_laws api g" "running g w" and fd: "fd_file g (wh_handle (sm_handle s)) w = Some ob"
    and len: "length (file_bytes g ob w) = unat n" "wh_size (sm_handle s) = n" "unat n \<le> isize_max"
    and map: "shared_map h (win32_platform api) s w = (Inr (a, v), w')"
    and free: "sm_is_creator s \<or> lock_val h (file_bytes g ob w) = 0"
  shows "region_holds (win32_platform api) g ob h [a] (v, w') (drop 4 (file_bytes g ob w), 0)"
    "handles_of g ob w' = handles_of g ob w" "views_of g ob w' = insert a (views_of g ob w)"
    "a \<notin> views_of g ob w" "named g nm w' = named g nm w" "4 < unat n"
proof -
  let ?P = "win32_platform api"
  obtain wm m where pm: "p_map ?P (sm_handle s) w = (Inr (Inr a), wm)"
    and new: "view_new h (p_size ?P (sm_handle s)) (sm_is_creator s) (p_region ?P a wm) = (Inr v, m)"
    and w': "w' = p_set_region ?P a m wm"
    using map unfolding shared_map_eq_Inr by blast
  have size: "p_size ?P (sm_handle s) = n" using len(2) by simp
  have nv: "view_new h n (sm_is_creator s) (p_region ?P a wm) = (Inr v, m)" using new by (simp only: size)
  have nz: "wh_size (sm_handle s) \<noteq> 0" using view_new_Inr(1) [OF nv] len(2) by auto
  have um: "win32_map api (sm_handle s) w = (Inr (Inr a), wm)" using pm by simp
  note m = win32_mapped [OF laws um fd len(1) [folded len(2)] nz]
  have at: "attached ?P g ob (unat n) [a] wm" using m(1) by (simp add: len(2))
  have new_len: "length m = unat n"
    using view_new_Inr [OF nv] attached_region [OF at, of a] m(3) len(1) by (simp add: i32_f.upd_length)
  have free': "sm_is_creator s \<or> lock_val h (file_bytes g ob wm) = 0" using free m(3) by simp
  note nvh = view_new_holds [OF at _ len(3) nv free']
  show "region_holds ?P g ob h [a] (v, w') (drop 4 (file_bytes g ob w), 0)" "4 < unat n"
    "named g nm w' = named g nm w"
    using nvh(1-3) m(3,4) by (simp_all add: w')
  have same: "only_file g ob wm w'" using attached_set(4) [OF at _ new_len, of a] by (simp add: w')
  have "handles_of g ob wm = handles_of g ob w" using m(5) by (simp add: handles_of_def)
  moreover have "views_of g ob wm = insert a (views_of g ob w)" "a \<notin> views_of g ob w"
  proof -
    have "map_file g q wm = (if q = a then Some (ob, unat n) else map_file g q w)" for q
      using at m(7) by (simp add: attached_def)
    then show "views_of g ob wm = insert a (views_of g ob w)" "a \<notin> views_of g ob w"
      using m(6) by (auto simp: views_of_def)
  qed
  ultimately show "handles_of g ob w' = handles_of g ob w" "views_of g ob w' = insert a (views_of g ob w)"
    "a \<notin> views_of g ob w"
    by (simp_all add: only_file_holders [OF same])
qed

section \<open>Coming and going\<close>

text \<open>The first to create a segment is the only one that keeps it alive.\<close>

lemma win32_first:
  assumes laws: "win32_laws api g" "running g w" and name: "to_win32_name name \<noteq> []"
    and new: "named g (to_win32_name name) w = None"
    and create: "shared_create (win32_platform api) name n w = (Inr s, w1)"
    and map: "shared_map h (win32_platform api) s w1 = (Inr (a, v), w2)"
  shows "\<exists>ob. region_holds (win32_platform api) g ob h [a] (v, w2) (replicate (unat n - 4) 0, 0) \<and>
    named g (to_win32_name name) w2 = Some ob \<and> 4 < unat n \<and> unat n \<le> isize_max \<and>
    handles_of g ob w2 = {wh_handle (sm_handle s)} \<and> views_of g ob w2 = {a}"
proof -
  have s: "win32_create api name n w = (Inr (sm_handle s), w1)" "sm_is_creator s"
    using create by (simp_all add: shared_create_win32)
  have may: "may_create g name n w" using name new by (simp add: may_create_def)
  obtain ob where ob: "running g w1" "named g (to_win32_name name) w1 = Some ob"
    "fd_file g (wh_handle (sm_handle s)) w1 = Some ob" "wh_size (sm_handle s) = n" "unat n \<le> isize_max"
    "length (file_bytes g ob w1) = unat n"
    "named g (to_win32_name name) w = None \<longrightarrow> file_bytes g ob w1 = replicate (unat n) 0"
    "named g (to_win32_name name) w = None \<longrightarrow> \<not> referenced g ob w"
    "new_handle g (wh_handle (sm_handle s)) w w1"
    using win32_created [OF laws may s(1)] by (elim exE conjE) (rule that)
  have h1: "handles_of g ob w1 = {wh_handle (sm_handle s)}" "views_of g ob w1 = {}"
    using new_handle_holders [OF ob(9,3)] ob(8) new by (simp_all add: holders)
  note m = shared_map_holders [OF laws(1) ob(1,3,6,4,5) map]
  show ?thesis using m s(2) ob(2,5,7) h1 new by (intro exI [of _ ob]) simp
qed

text \<open>Who opens it finds the file, and keeps it alive too.\<close>

lemma win32_second:
  assumes laws: "win32_laws api g" and held: "region_holds (win32_platform api) g ob h [a] (v1, w3) (cs, p)"
    and n: "4 + length cs = unat n" "unat n \<le> isize_max"
    and named: "named g (to_win32_name name) w3 = Some ob"
    and op: "shared_open (win32_platform api) name (Some n) w3 = (Inr s, w4)"
    and map: "shared_map h (win32_platform api) s w4 = (Inr (b, v), w5)"
  shows "region_holds (win32_platform api) g ob h [b] (v, w5) (cs, 0)"
    "handles_of g ob w5 = insert (wh_handle (sm_handle s)) (handles_of g ob w3)"
    "wh_handle (sm_handle s) \<notin> handles_of g ob w3"
    "views_of g ob w5 = insert b (views_of g ob w3)" "b \<notin> views_of g ob w3"
    "named g (to_win32_name name) w5 = Some ob"
proof -
  have at: "running g w3" "length (file_bytes g ob w3) = unat n" and view: "view_holds h (v1, file_bytes g ob w3) (cs, p)"
    using held n by (simp_all add: region_holds_def attached_def)
  have s: "win32_open api name n w3 = (Inr (sm_handle s), w4)" using op by (simp add: shared_open_win32)
  note name = nameless_lawD [OF laws at(1) named]
  have o: "running g w4" "fd_file g (wh_handle (sm_handle s)) w4 = Some ob" "wh_size (sm_handle s) = n"
    "file_bytes g ob w4 = file_bytes g ob w3" "named g (to_win32_name name) w4 = Some ob"
    "new_handle g (wh_handle (sm_handle s)) w3 w4"
    using win32_opened [OF laws at(1) name s] named by auto
  have "sm_is_creator s \<or> lock_val h (file_bytes g ob w4) = 0" using view_holds_D(2) [OF view] o(4) by simp
  note m = shared_map_holders [OF laws o(1,2) _ o(3) n(2) map this]
  note hh = new_handle_holders [OF o(6,2)]
  show "region_holds (win32_platform api) g ob h [b] (v, w5) (cs, 0)"
    using m(1) o(4) at(2) view_holds_D(3) [OF view] by simp
  show "handles_of g ob w5 = insert (wh_handle (sm_handle s)) (handles_of g ob w3)"
    "wh_handle (sm_handle s) \<notin> handles_of g ob w3"
    "views_of g ob w5 = insert b (views_of g ob w3)" "b \<notin> views_of g ob w3"
    "named g (to_win32_name name) w5 = Some ob"
    using m(2-5) hh o(4,5) at(2) by simp_all
qed

text \<open>Dropping a view and its handle takes away one of each.\<close>

lemma win32_dropped:
  assumes laws: "win32_laws api g" "running g w"
    and held: "a \<in> views_of g ob w" "wh_handle (sm_handle s) \<in> handles_of g ob w"
    and w': "w' = shared_drop (win32_platform api) s (view_drop (win32_platform api) (a, v) w)"
  shows "running g w'" "handles_of g ob w' = handles_of g ob w - {wh_handle (sm_handle s)}"
    "views_of g ob w' = views_of g ob w - {a}" "q \<noteq> a \<Longrightarrow> map_file g q w' = map_file g q w"
    "named g nm w' = Some x \<longleftrightarrow> named g nm w = Some x \<and> referenced g x w'"
    "referenced g x w' \<Longrightarrow> file_bytes g x w' = file_bytes g x w"
proof -
  let ?u = "unmap_view_of_file api a w" and ?hn = "wh_handle (sm_handle s)"
  have w'_eq: "w' = close_handle api ?hn ?u"
    by (simp add: w' shared_drop_def view_drop_def win32_drop_def win32_unmap_def)
  obtain k where "map_file g a w = Some (ob, k)" using held(1) by (auto simp: views_of_def)
  note u = unmap_view_lawD [OF laws this]
  have "fd_file g ?hn ?u = Some ob" "running g ?u" using u held(2) by (simp_all add: handles_of_def released_def)
  note c = close_handle_lawD [OF laws(1) this(2,1)]
  show "running g w'" using c(1) by (simp add: w'_eq released_def)
  show "handles_of g ob w' = handles_of g ob w - {?hn}" "views_of g ob w' = views_of g ob w - {a}"
    using u(2,3) c(2,3) by (auto simp: w'_eq handles_of_def views_of_def)
  show "q \<noteq> a \<Longrightarrow> map_file g q w' = map_file g q w" using u(2) c(3) by (simp add: w'_eq)
  have sub: "referenced g x w' \<Longrightarrow> referenced g x ?u"
    using c(2,3) by (auto simp: w'_eq referenced_def split: if_splits)
  show "named g nm w' = Some x \<longleftrightarrow> named g nm w = Some x \<and> referenced g x w'"
    using u(1) c(1) sub unfolding w'_eq [symmetric] released_def by metis
  show "referenced g x w' \<Longrightarrow> file_bytes g x w' = file_bytes g x w"
    using u(1) c(1) sub unfolding w'_eq [symmetric] released_def by metis
qed

lemma win32_not_open:
  assumes laws: "win32_laws api g" "running g w" and gone: "named g (to_win32_name name) w = None"
    and ok: "validate_name name = Inr ()" "CHR 0x00 \<notin> set (to_win32_name name)" "to_win32_name name \<noteq> []"
  shows "\<exists>msg. fst (shared_open (win32_platform api) name (Some n) w) = Inl (Raise (PyOSError msg))"
proof -
  obtain res w1 where op: "open_file_mapping api (to_win32_name name) w = (res, w1)"
    by (cases "open_file_mapping api (to_win32_name name) w")
  then obtain e where "res = Inl e"
    using open_mapping_lawD [OF laws ok(3)] gone by (cases res) auto
  then show ?thesis
    using op ok by (simp add: shared_open_def win32_open_sized_def win32_open_def cstring_new_def res_simps
        sbind_def smap_err_def sdo_def)
qed

text \<open>
  Creating under a name in use joins the segment that is there, as a creator and with a handle of whatever
  size was asked for.
\<close>

theorem win32_create_joins:
  assumes laws: "win32_laws api g" "running g w" and named: "named g (to_win32_name name) w = Some ob"
    and create: "shared_create (win32_platform api) name n w = (Inr s, w1)"
  shows "sm_is_creator s \<and> shared_size (win32_platform api) s = n \<and>
    named g (to_win32_name name) w1 = Some ob \<and> file_bytes g ob w1 = file_bytes g ob w"
proof -
  have s: "win32_create api name n w = (Inr (sm_handle s), w1)" "sm_is_creator s"
    using create by (simp_all add: shared_create_win32)
  then have c: "create_file_mapping api (size_high n) (size_low n) (to_win32_name name) w =
      (Inr (wh_handle (sm_handle s)), w1)" and size: "wh_size (sm_handle s) = n"
    by (simp_all add: win32_create_eq_Inr)
  show ?thesis
    using create_mapping_lawD [OF laws nameless_lawD [OF laws named] c] named s(2) size
    by (auto simp: shared_size_def)
qed

end
