(* ===== verification/Win32Example.thy ===== *)
theory Win32Example
  imports Win32Laws
begin

text \<open>
  A small concrete system with named file mapping objects, at which the properties over \<open>win32\<close> are
  exercised: objects with their bytes, names, handles and views (an object and a length). A name whose
  object has neither a handle nor a view is not in use.
\<close>

record win_world =
  wo_objects :: "memory list"
  wo_names :: "(string \<times> nat) list"
  wo_handles :: "nat option list"
  wo_views :: "(nat \<times> nat) option list"

definition win_boot :: win_world where
  "win_boot = \<lparr>wo_objects = [], wo_names = [], wo_handles = [], wo_views = []\<rparr>"

definition win_live :: "nat \<Rightarrow> win_world \<Rightarrow> bool" where
  "win_live ob w \<longleftrightarrow> Some ob \<in> set (wo_handles w) \<or>
     list_ex (\<lambda>v. case v of Some (x, n) \<Rightarrow> x = ob | None \<Rightarrow> False) (wo_views w)"

definition win_named :: "string \<Rightarrow> win_world \<Rightarrow> nat option" where
  "win_named name w =
     (case map_of (wo_names w) name of Some ob \<Rightarrow> if win_live ob w then Some ob else None | None \<Rightarrow> None)"

definition win_create :: "u32 \<Rightarrow> u32 \<Rightarrow> string \<Rightarrow> win_world \<Rightarrow> (string + nat) \<times> win_world" where
  "win_create hi lo name w =
     (let n = unat hi * 2 ^ 32 + unat lo in
      case win_named name w of
        Some ob \<Rightarrow> (Inr (length (wo_handles w)), w\<lparr>wo_handles := wo_handles w @ [Some ob]\<rparr>)
      | None \<Rightarrow>
          if n = 0 \<or> isize_max < n then (Inl ''The parameter is incorrect.'', w)
          else (Inr (length (wo_handles w)),
            w\<lparr>wo_objects := wo_objects w @ [replicate n 0],
              wo_names := (if name = [] then wo_names w else (name, length (wo_objects w)) # wo_names w),
              wo_handles := wo_handles w @ [Some (length (wo_objects w))]\<rparr>))"

definition win_open :: "string \<Rightarrow> win_world \<Rightarrow> (string + nat) \<times> win_world" where
  "win_open name w =
     (case win_named name w of
        Some ob \<Rightarrow> (Inr (length (wo_handles w)), w\<lparr>wo_handles := wo_handles w @ [Some ob]\<rparr>)
      | None \<Rightarrow> (Inl ''The system cannot find the file specified.'', w))"

definition win_map :: "nat \<Rightarrow> usize \<Rightarrow> win_world \<Rightarrow> nat \<times> win_world" where
  "win_map hn n w =
     (case if hn < length (wo_handles w) then wo_handles w ! hn else None of
        Some ob \<Rightarrow>
          if n \<noteq> 0 \<and> unat n \<le> length (wo_objects w ! ob)
          then (Suc (length (wo_views w)), w\<lparr>wo_views := wo_views w @ [Some (ob, unat n)]\<rparr>) else (0, w)
      | None \<Rightarrow> (0, w))"

definition win_view :: "nat \<Rightarrow> win_world \<Rightarrow> (nat \<times> nat) option" where
  "win_view p w = (case p of 0 \<Rightarrow> None | Suc i \<Rightarrow> if i < length (wo_views w) then wo_views w ! i else None)"

definition win_region :: "nat \<Rightarrow> win_world \<Rightarrow> memory" where
  "win_region p w = (case win_view p w of Some (ob, n) \<Rightarrow> take n (wo_objects w ! ob) | None \<Rightarrow> [])"

definition win_set_region :: "nat \<Rightarrow> memory \<Rightarrow> win_world \<Rightarrow> win_world" where
  "win_set_region p m w =
     (case win_view p w of
        Some (ob, n) \<Rightarrow> w\<lparr>wo_objects := (wo_objects w)[ob := overwrite 0 m (wo_objects w ! ob)]\<rparr>
      | None \<Rightarrow> w)"

definition demo_windows :: "win_world win32" where
  "demo_windows =
     \<lparr>create_file_mapping = win_create, open_file_mapping = win_open, map_view_of_file = win_map,
      last_error = (\<lambda>_. ''Access is denied.''),
      unmap_view_of_file = (\<lambda>p w. w\<lparr>wo_views := (wo_views w)[p - 1 := None]\<rparr>),
      close_handle = (\<lambda>hn w. w\<lparr>wo_handles := (wo_handles w)[hn := None]\<rparr>),
      view_bytes = win_region, set_view_bytes = win_set_region\<rparr>"

lemma demo_windows_sel [simp]:
  "create_file_mapping demo_windows = win_create" "open_file_mapping demo_windows = win_open"
  "map_view_of_file demo_windows = win_map"
  "unmap_view_of_file demo_windows p w = w\<lparr>wo_views := (wo_views w)[p - 1 := None]\<rparr>"
  "close_handle demo_windows hn w = w\<lparr>wo_handles := (wo_handles w)[hn := None]\<rparr>"
  "view_bytes demo_windows = win_region" "set_view_bytes demo_windows = win_set_region"
  by (simp_all add: demo_windows_def)

section \<open>It obeys the laws\<close>

definition win_files :: "win_world shm_files" where
  "win_files =
     \<lparr>running = (\<lambda>w. (\<forall>p \<in> set (wo_names w). fst p \<noteq> [] \<and> snd p < length (wo_objects w)) \<and>
        (\<forall>ob. Some ob \<in> set (wo_handles w) \<longrightarrow> ob < length (wo_objects w)) \<and>
        (\<forall>ob n. Some (ob, n) \<in> set (wo_views w) \<longrightarrow> ob < length (wo_objects w)) \<and>
        (\<forall>bs \<in> set (wo_objects w). bs \<noteq> [] \<and> length bs \<le> isize_max)),
      named = win_named,
      fd_file = (\<lambda>hn w. if hn < length (wo_handles w) then wo_handles w ! hn else None),
      map_file = win_view,
      file_bytes = (\<lambda>ob w. wo_objects w ! ob)\<rparr>"

lemma win_files_sel [simp]:
  "named win_files = win_named" "map_file win_files = win_view"
  "fd_file win_files hn w = (if hn < length (wo_handles w) then wo_handles w ! hn else None)"
  "file_bytes win_files ob w = wo_objects w ! ob"
  by (simp_all add: win_files_def)

lemma win_running:
  "running win_files w \<longleftrightarrow> (\<forall>p \<in> set (wo_names w). fst p \<noteq> [] \<and> snd p < length (wo_objects w)) \<and>
     (\<forall>ob. Some ob \<in> set (wo_handles w) \<longrightarrow> ob < length (wo_objects w)) \<and>
     (\<forall>ob n. Some (ob, n) \<in> set (wo_views w) \<longrightarrow> ob < length (wo_objects w)) \<and>
     (\<forall>bs \<in> set (wo_objects w). bs \<noteq> [] \<and> length bs \<le> isize_max)"
  by (simp add: win_files_def)

lemma win_booted: "running win_files win_boot"
  by (simp add: win_running win_boot_def)

lemma win_view_Some: "win_view p w = Some x \<longleftrightarrow> (\<exists>i. p = Suc i \<and> i < length (wo_views w) \<and> wo_views w ! i = Some x)"
  by (auto simp: win_view_def split: nat.splits if_splits)

lemma win_view_in: "(\<exists>p. win_view p w = Some x) \<longleftrightarrow> Some x \<in> set (wo_views w)"
  by (auto simp: win_view_Some in_set_conv_nth)

lemma win_live_iff: "win_live ob w \<longleftrightarrow> Some ob \<in> set (wo_handles w) \<or> (\<exists>n. Some (ob, n) \<in> set (wo_views w))"
  by (auto simp: win_live_def list_ex_iff split: option.splits prod.splits)

lemma win_referenced: "referenced win_files ob w \<longleftrightarrow> win_live ob w"
proof -
  have "(\<exists>hn. fd_file win_files hn w = Some ob) \<longleftrightarrow> Some ob \<in> set (wo_handles w)"
    by (auto simp: in_set_conv_nth)
  moreover have "(\<exists>p n. map_file win_files p w = Some (ob, n)) \<longleftrightarrow> (\<exists>n. Some (ob, n) \<in> set (wo_views w))"
    by (metis win_files_sel(2) win_view_in)
  ultimately show ?thesis by (simp add: referenced_def win_live_iff)
qed

lemma win_named_Some: "win_named nm w = Some ob \<longleftrightarrow> map_of (wo_names w) nm = Some ob \<and> win_live ob w"
  by (auto simp: win_named_def split: option.splits)

lemma win_live_exists: "running win_files w \<Longrightarrow> win_live ob w \<Longrightarrow> ob < length (wo_objects w)"
  by (auto simp: win_live_iff win_running)

lemma win_view_exists: "running win_files w \<Longrightarrow> win_view p w = Some (ob, n) \<Longrightarrow> ob < length (wo_objects w)"
  using win_view_in [of w "(ob, n)"] by (auto simp: win_running)

lemma win_region_law: "region_law (win32_platform demo_windows) win_files"
  by (auto simp: region_law_def win_region_def)

lemma win_named_objects: "win_named nm (w\<lparr>wo_objects := x\<rparr>) = win_named nm w"
  by (simp add: win_named_def win_live_def split: option.split)

lemma win_view_objects: "win_view p (w\<lparr>wo_objects := x\<rparr>) = win_view p w"
  by (simp add: win_view_def split: nat.split)

lemma win_set_region_law: "set_region_law (win32_platform demo_windows) win_files"
  unfolding set_region_law_def
proof (intro allI impI, elim conjE)
  fix p and m :: memory and w ob n
  assume run: "running win_files w" and p: "map_file win_files p w = Some (ob, n)"
    and n: "n \<le> length (file_bytes win_files ob w)" "length m = n"
  let ?w = "p_set_region (win32_platform demo_windows) p m w"
  let ?bs = "overwrite 0 m (wo_objects w ! ob)"
  have ob: "ob < length (wo_objects w)"
    using run p win_view_in [of w "(ob, n)"] by (auto simp: win_running)
  have w': "?w = w\<lparr>wo_objects := (wo_objects w)[ob := ?bs]\<rparr>" using p by (simp add: win_set_region_def)
  have "wo_objects w ! ob \<noteq> []" "length (wo_objects w ! ob) \<le> isize_max"
    using run nth_mem [OF ob] by (auto simp: win_running)
  moreover have l: "length ?bs = length (wo_objects w ! ob)" using n by simp
  ultimately have bs: "?bs \<noteq> []" "length ?bs \<le> isize_max" by auto
  have "x \<noteq> [] \<and> length x \<le> isize_max" if "x \<in> set ((wo_objects w)[ob := ?bs])" for x
    using that set_update_subset_insert [of "wo_objects w" ob ?bs] run bs by (auto simp: win_running)
  then have "running win_files ?w" unfolding w' using run by (simp add: win_running)
  then show "running win_files ?w \<and> file_bytes win_files ob ?w = overwrite 0 m (file_bytes win_files ob w) \<and>
      only_file win_files ob w ?w \<and> (\<forall>nm. named win_files nm ?w = named win_files nm w)"
    unfolding w' using ob by (simp add: only_file_def win_named_objects win_view_objects)
qed

lemma win_nameless_law: "nameless_law win_files"
  unfolding nameless_law_def
proof (intro allI impI)
  fix w assume run: "running win_files w"
  have "map_of (wo_names w) [] = None"
    using run by (auto simp: map_of_eq_None_iff win_running)
  then show "named win_files [] w = None" by (simp add: win_named_def)
qed

lemma win_create_law: "create_mapping_law demo_windows win_files"
  unfolding create_mapping_law_def
proof (intro allI impI, elim conjE)
  fix hi lo :: u32 and name w hn w'
  assume run: "running win_files w" and name: "name \<noteq> []"
    and c: "create_file_mapping demo_windows hi lo name w = (Inr hn, w')"
  let ?n = "unat hi * 2 ^ 32 + unat lo"
  show "running win_files w' \<and> keeps_maps win_files w w' \<and>
     new_handle win_files hn w w' \<and>
     (\<exists>ob. named win_files name w' = Some ob \<and> fd_file win_files hn w' = Some ob \<and>
        length (file_bytes win_files ob w') \<le> isize_max \<and>
        (case named win_files name w of
           None \<Rightarrow> \<not> referenced win_files ob w \<and> file_bytes win_files ob w' = replicate ?n 0
         | Some x \<Rightarrow> ob = x \<and> file_bytes win_files ob w' = file_bytes win_files ob w))"
  proof (cases "win_named name w")
    case (Some ob)
    then have w': "hn = length (wo_handles w)" "w' = w\<lparr>wo_handles := wo_handles w @ [Some ob]\<rparr>"
      using c by (auto simp: win_create_def)
    have live: "win_live ob w" using Some by (simp add: win_named_Some)
    note ob = win_live_exists [OF run live]
    have v: "win_view p w' = win_view p w" for p by (simp add: w'(2) win_view_def split: nat.split)
    have "running win_files w'" using run ob by (auto simp: w'(2) win_running)
    moreover have "win_named name w' = Some ob"
      using Some by (simp add: w'(2) win_named_Some win_live_def)
    moreover have "length (wo_objects w ! ob) \<le> isize_max" using run nth_mem [OF ob] by (auto simp: win_running)
    ultimately show ?thesis using Some v by (simp add: w' keeps_maps_def nth_append new_handle_def)
  next
    case None
    then have w': "hn = length (wo_handles w)" "?n \<noteq> 0" "?n \<le> isize_max"
      "w' = w\<lparr>wo_objects := wo_objects w @ [replicate ?n 0], wo_names := (name, length (wo_objects w)) # wo_names w,
        wo_handles := wo_handles w @ [Some (length (wo_objects w))]\<rparr>"
      using c name by (auto simp: win_create_def Let_def split: if_splits)
    let ?ob = "length (wo_objects w)"
    have v: "win_view p w' = win_view p w" for p by (simp add: w'(4) win_view_def split: nat.split)
    have "running win_files w'" using run name w'(2,3) by (fastforce simp: w'(4) win_running)
    moreover have "win_named name w' = Some ?ob" by (simp add: w'(4) win_named_Some win_live_def)
    moreover have "\<not> win_live ?ob w" using win_live_exists [OF run] by blast
    moreover have "keeps_maps win_files w w'"
    proof -
      have "wo_objects w' ! x = wo_objects w ! x" if "win_view p w = Some (x, k)" for p x k
        using win_view_exists [OF run that] by (simp add: w'(4) nth_append)
      then show ?thesis by (simp add: keeps_maps_def v)
    qed
    ultimately show ?thesis using None v w'(3) by (simp add: w'(1,4) nth_append win_referenced new_handle_def)
  qed
qed

lemma win_open_law: "open_mapping_law demo_windows win_files"
  unfolding open_mapping_law_def
proof (intro allI impI, elim conjE)
  fix name w hn w'
  assume run: "running win_files w" and name: "name \<noteq> []"
    and c: "open_file_mapping demo_windows name w = (Inr hn, w')"
  obtain ob where Some: "win_named name w = Some ob"
    and w': "hn = length (wo_handles w)" "w' = w\<lparr>wo_handles := wo_handles w @ [Some ob]\<rparr>"
    using c by (auto simp: win_open_def split: option.splits)
  have live: "win_live ob w" using Some by (simp add: win_named_Some)
  note ob = win_live_exists [OF run live]
  have v: "win_view p w' = win_view p w" for p by (simp add: w'(2) win_view_def split: nat.split)
  have "running win_files w'" using run ob by (auto simp: w'(2) win_running)
  moreover have "win_named name w' = Some ob"
    using Some by (simp add: w'(2) win_named_Some win_live_def)
  moreover have "wo_objects w ! ob \<noteq> []" using run nth_mem [OF ob] by (auto simp: win_running)
  ultimately show "running win_files w' \<and> keeps_maps win_files w w' \<and> new_handle win_files hn w w' \<and>
     (\<exists>ob. named win_files name w = Some ob \<and> named win_files name w' = Some ob \<and> fd_file win_files hn w' = Some ob \<and>
        file_bytes win_files ob w' = file_bytes win_files ob w \<and> file_bytes win_files ob w \<noteq> [])"
    using Some v by (simp add: w' keeps_maps_def nth_append new_handle_def)
qed

lemma win_map_law: "map_view_law demo_windows win_files"
  unfolding map_view_law_def
proof (intro allI impI, elim conjE)
  fix hn n w p w' ob
  assume run: "running win_files w" and fd: "fd_file win_files hn w = Some ob" and n: "n \<noteq> 0"
    "unat n \<le> length (file_bytes win_files ob w)" and map: "map_view_of_file demo_windows hn n w = (p, w')"
  have hn: "hn < length (wo_handles w)" "wo_handles w ! hn = Some ob" using fd by (simp_all split: if_splits)
  have w': "p = Suc (length (wo_views w))" "w' = w\<lparr>wo_views := wo_views w @ [Some (ob, unat n)]\<rparr>"
    using map hn n by (auto simp: win_map_def)
  have in_h: "Some ob \<in> set (wo_handles w)" using hn nth_mem by metis
  have old: "win_view q w' = win_view q w" if "q \<noteq> p" for q
    using that by (auto simp: w' win_view_def nth_append split: nat.split)
  have new: "win_view p w' = Some (ob, unat n)" by (simp add: w' win_view_def)
  have "win_live x w' = win_live x w" for x using in_h by (auto simp: w'(2) win_live_iff)
  then have "win_named nm w' = win_named nm w" for nm by (simp add: win_named_def w'(2) split: option.split)
  moreover have "running win_files w'" using run in_h by (auto simp: w'(2) win_running)
  moreover have "keeps_maps win_files w w'"
  proof -
    have "win_view p w = None" by (simp add: w'(1) win_view_def)
    then have "win_view q w = Some x \<Longrightarrow> win_view q w' = Some x" for q x using old [of q] by (cases "q = p") auto
    then show ?thesis by (simp add: keeps_maps_def w'(2))
  qed
  moreover have "win_view p w = None" by (simp add: w'(1) win_view_def)
  ultimately show "running win_files w' \<and> keeps_maps win_files w w' \<and> map_file win_files p w = None \<and>
     map_file win_files p w' = Some (ob, unat n) \<and>
     (\<forall>q. q \<noteq> p \<longrightarrow> map_file win_files q w' = map_file win_files q w) \<and>
     (\<forall>x. fd_file win_files x w' = fd_file win_files x w) \<and>
     (\<forall>nm. named win_files nm w' = named win_files nm w) \<and>
     file_bytes win_files ob w' = file_bytes win_files ob w"
    using new old by (simp add: w'(2))
qed

lemma win_released:
  assumes run: "running win_files w" and same: "wo_names w' = wo_names w" "wo_objects w' = wo_objects w"
    and sub: "set (wo_handles w') \<subseteq> insert None (set (wo_handles w))"
      "set (wo_views w') \<subseteq> insert None (set (wo_views w))"
  shows "released win_files w w'"
proof -
  have h: "Some x \<in> set (wo_handles w)" if "Some x \<in> set (wo_handles w')" for x using sub(1) that by auto
  have v: "Some x \<in> set (wo_views w)" if "Some x \<in> set (wo_views w')" for x using sub(2) that by auto
  have "running win_files w'"
    unfolding win_running same using run h v unfolding win_running by blast
  moreover have "win_live x w" if "win_live x w'" for x using that h v unfolding win_live_iff by blast
  ultimately show ?thesis using same by (auto simp: released_def win_referenced win_named_Some)
qed

lemma win_unmap_law: "unmap_view_law demo_windows win_files"
  unfolding unmap_view_law_def
proof (intro allI impI, elim conjE)
  fix p w
  assume run: "running win_files w" and p: "map_file win_files p w \<noteq> None"
  let ?w = "w\<lparr>wo_views := (wo_views w)[p - 1 := None]\<rparr>"
  have "released win_files w ?w"
    by (rule win_released [OF run]) (simp_all add: set_update_subset_insert subset_insertI)
  moreover have "win_view q ?w = (if q = p then None else win_view q w)" for q
    using p by (auto simp: win_view_def nth_list_update split: nat.split nat.splits)
  ultimately show "released win_files w (unmap_view_of_file demo_windows p w) \<and>
     (\<forall>q. map_file win_files q (unmap_view_of_file demo_windows p w) =
        (if q = p then None else map_file win_files q w)) \<and>
     (\<forall>x. fd_file win_files x (unmap_view_of_file demo_windows p w) = fd_file win_files x w)"
    by simp
qed

lemma win_close_law: "close_handle_law demo_windows win_files"
  unfolding close_handle_law_def
proof (intro allI impI, elim conjE)
  fix hn w
  assume run: "running win_files w" and "fd_file win_files hn w \<noteq> None"
  let ?w = "w\<lparr>wo_handles := (wo_handles w)[hn := None]\<rparr>"
  have "released win_files w ?w"
    by (rule win_released [OF run]) (simp_all add: set_update_subset_insert subset_insertI)
  moreover have "win_view p ?w = win_view p w" for p by (simp add: win_view_def split: nat.split)
  ultimately show "released win_files w (close_handle demo_windows hn w) \<and>
     (\<forall>x. fd_file win_files x (close_handle demo_windows hn w) =
        (if x = hn then None else fd_file win_files x w)) \<and>
     (\<forall>p. map_file win_files p (close_handle demo_windows hn w) = map_file win_files p w)"
    by (simp add: nth_list_update)
qed

lemma win_laws: "win32_laws demo_windows win_files"
  by (simp add: win32_laws_def memory_laws_def win_region_law win_set_region_law win_nameless_law
      win_create_law win_open_law win_map_law win_unmap_law win_close_law)

end
