(* ===== verification/Win32Props.thy ===== *)
theory Win32Props
  imports Win32Life Win32Example SharedProps
begin

text \<open>
  The properties of processes that share a Windows segment.
\<close>

section \<open>The example system\<close>

definition demo_win :: "memory \<Rightarrow> nat option list \<Rightarrow> (nat \<times> nat) option list \<Rightarrow> win_world" where
  "demo_win m hs vs = \<lparr>wo_objects = [m], wo_names = [(''a'', 0)], wo_handles = hs, wo_views = vs\<rparr>"

definition win_segment :: "nat \<Rightarrow> bool \<Rightarrow> win32_handle shared_memory" where
  "win_segment hn creator = \<lparr>sm_handle = \<lparr>wh_handle = hn, wh_size = 8, wh_name = ''/a''\<rparr>, sm_is_creator = creator\<rparr>"

lemma demo_win_name [simp]: "to_win32_name ''/a'' = ''a''"
  by (simp add: to_win32_name_def)

lemma demo_win_created:
  "shared_create (win32_platform demo_windows) ''/a'' 8 win_boot =
    (Inr (win_segment 0 True), demo_win (replicate 8 0) [Some 0] [])"
proof -
  have "win_named ''a'' win_boot = None" by (simp add: win_named_def win_boot_def)
  then have "win_create (size_high 8) (size_low 8) ''a'' win_boot = (Inr 0, demo_win (replicate 8 0) [Some 0] [])"
    unfolding win_create_def size_halves by (simp add: isize_max_def win_boot_def demo_win_def)
  then show ?thesis
    by (simp add: shared_create_win32 win32_create_eq_Inr validate_name_def win_segment_def)
qed

lemma demo_win_opened:
  assumes "Some 0 \<in> set hs"
  shows "shared_open (win32_platform demo_windows) ''/a'' (Some 8) (demo_win m hs vs) =
    (Inr (win_segment (length hs) False), demo_win m (hs @ [Some 0]) vs)"
proof -
  have "win_named ''a'' (demo_win m hs vs) = Some 0"
    using assms by (simp add: win_named_Some win_live_def demo_win_def)
  then have "win_open ''a'' (demo_win m hs vs) = (Inr (length hs), demo_win m (hs @ [Some 0]) vs)"
    by (simp add: win_open_def demo_win_def)
  then show ?thesis
    by (simp add: shared_open_win32 win32_open_eq_Inr validate_name_def win_segment_def)
qed

lemma demo_win_mapped:
  assumes "length m = 8" "hn < length hs" "hs ! hn = Some 0"
  shows "\<exists>v m'. shared_map le_host (win32_platform demo_windows) (win_segment hn c) (demo_win m hs vs) =
      (Inr (Suc (length vs), v), demo_win m' hs (vs @ [Some (0, 8)])) \<and> length m' = 8"
proof -
  let ?P = "win32_platform demo_windows" and ?p = "Suc (length vs)"
  let ?w = "\<lambda>m. demo_win m hs (vs @ [Some (0, 8)])"
  have "win_map hn 8 (demo_win m hs vs) = (?p, ?w m)"
    using assms by (simp add: win_map_def demo_win_def)
  then have p: "p_map ?P (sm_handle (win_segment hn c)) (demo_win m hs vs) = (Inr (Inr ?p), ?w m)"
    by (simp add: win32_map_eq_Inr win_segment_def)
  have view: "win_view ?p (?w m) = Some (0, 8)" for m by (simp add: win_view_def demo_win_def)
  obtain m' where new: "view_new le_host 8 c m = (Inr \<lparr>view_size = 8, view_cursor = 0\<rparr>, m')" "length m' = 8"
    using view_new_run [of 8 m le_host c] assms(1) by (auto simp: isize_max_def i32_f.upd_length)
  have r: "win_region ?p (?w m) = m" using view assms(1) by (simp add: win_region_def) (simp add: demo_win_def)
  have w: "win_set_region ?p m' (?w m) = ?w m'"
    using view new(2) assms(1) by (simp add: win_set_region_def) (simp add: demo_win_def overwrite_def)
  have seg: "wh_size (sm_handle (win_segment hn c)) = 8" "sm_is_creator (win_segment hn c) = c"
    by (simp_all add: win_segment_def)
  have "shared_map le_host ?P (win_segment hn c) (demo_win m hs vs) =
      (Inr (?p, \<lparr>view_size = 8, view_cursor = 0\<rparr>), ?w m')"
    unfolding shared_map_eq_Inr using p new(1) r w seg by (intro exI [of _ "?w m"] exI [of _ m']) simp
  then show ?thesis using new(2) by blast
qed

lemma demo_win_session:
  "\<exists>v w2 w4 v' w5.
    shared_map le_host (win32_platform demo_windows) (win_segment 0 True) (demo_win (replicate 8 0) [Some 0] []) =
      (Inr (1, v), w2) \<and>
    shared_open (win32_platform demo_windows) ''/a'' (Some 8) w2 = (Inr (win_segment 1 False), w4) \<and>
    shared_map le_host (win32_platform demo_windows) (win_segment 1 False) w4 = (Inr (2, v'), w5)"
proof -
  obtain v m where m: "shared_map le_host (win32_platform demo_windows) (win_segment 0 True)
      (demo_win (replicate 8 0) [Some 0] []) = (Inr (1, v), demo_win m [Some 0] [Some (0, 8)])" "length m = 8"
    using demo_win_mapped [of "replicate 8 0" 0 "[Some 0]" True "[]"] by auto
  have o: "shared_open (win32_platform demo_windows) ''/a'' (Some 8) (demo_win m [Some 0] [Some (0, 8)]) =
      (Inr (win_segment 1 False), demo_win m [Some 0, Some 0] [Some (0, 8)])"
    using demo_win_opened [of "[Some 0]" m "[Some (0, 8)]"] by simp
  obtain v' m' where "shared_map le_host (win32_platform demo_windows) (win_segment 1 False)
      (demo_win m [Some 0, Some 0] [Some (0, 8)]) = (Inr (2, v'), demo_win m' [Some 0, Some 0] [Some (0, 8), Some (0, 8)])"
    using demo_win_mapped [of m 1 "[Some 0, Some 0]" False "[Some (0, 8)]"] m(2) by auto
  with m(1) o show ?thesis by blast
qed

lemma zeros_list: "replicate 4 (0 :: u8) = [0, 0, 0, 0]"
  by (simp add: numeral_eq_Suc)

section \<open>Properties\<close>

text \<open>
  C11: On Windows too, two processes share one file from the creation of a segment to the last call, if the
  opener gives the size the segment was created with, as it must: the opener's handle has that size, and
  every sequence of calls the two make answers what one file of size - 4 bytes with two positions
  answers, starting with what the first process has written. The name must not be empty without its
  slashes, and a segment that exists already must have the size it is created with.
\<close>

theorem shared_file_windows:
  assumes "win32_laws api g" "running g w" "to_win32_name name \<noteq> []"
    and "\<forall>ob. named g (to_win32_name name) w = Some ob \<longrightarrow> length (file_bytes g ob w) = unat n"
    and "shared_create (win32_platform api) name n w = (Inr s, w1)"
    and "shared_map h (win32_platform api) s w1 = (Inr (a, v), w2)"
    and "run_calls (region_call h (win32_platform api) a) xs (v, w2) = Some (rs, v1, w3)"
    and "shared_open (win32_platform api) name (Some n) w3 = (Inr s', w4)"
    and "shared_map h (win32_platform api) s' w4 = (Inr (b, v'), w5)"
  shows "\<exists>bs cs p. length bs = unat n - 4 \<and>
    (named g (to_win32_name name) w = None \<longrightarrow> bs = replicate (unat n - 4) 0) \<and>
    run_spec (file_call h) xs (bs, 0) = (rs, cs, p) \<and> shared_size (win32_platform api) s' = n \<and>
    (\<forall>ys. \<exists>t. run_calls (party_call h (win32_platform api) a b) ys (v1, v', w5) =
       Some (fst (run_spec (shared_call h) ys (cs, p, 0)), t))"
  using win.session_file [OF assms(1,2) _ refl assms(5-9)] assms(3,4) by (simp add: may_create_def)

theorem shared_file_windows_witness:
  "\<exists>v w2 w4 v' w5 t.
    shared_create (win32_platform demo_windows) ''/a'' 8 win_boot =
      (Inr (win_segment 0 True), demo_win (replicate 8 0) [Some 0] []) \<and>
    shared_map le_host (win32_platform demo_windows) (win_segment 0 True) (demo_win (replicate 8 0) [Some 0] []) =
      (Inr (1, v), w2) \<and>
    shared_open (win32_platform demo_windows) ''/a'' (Some 8) w2 = (Inr (win_segment 1 False), w4) \<and>
    shared_map le_host (win32_platform demo_windows) (win_segment 1 False) w4 = (Inr (2, v'), w5) \<and>
    run_calls (party_call le_host (win32_platform demo_windows) 1 2)
      [(True, Write (PyBytes [1, 2]) None), (False, ReadRange 0 3)] (v, v', w5) =
      Some ([Seen Done, Seen (Got (PyBytes [1, 2, 0]))], t)"
proof -
  let ?P = "win32_platform demo_windows"
  obtain v w2 w4 v' w5 where r:
    "shared_map le_host ?P (win_segment 0 True) (demo_win (replicate 8 0) [Some 0] []) = (Inr (1, v), w2)"
    "shared_open ?P ''/a'' (Some 8) w2 = (Inr (win_segment 1 False), w4)"
    "shared_map le_host ?P (win_segment 1 False) w4 = (Inr (2, v'), w5)"
    using demo_win_session by blast
  have e: "run_calls (region_call le_host ?P 1) [] (v, w2) = Some ([], v, w2)" by simp
  have new: "named win_files (to_win32_name ''/a'') win_boot = None" by (simp add: win_named_def win_boot_def)
  have "\<forall>ys. \<exists>t. run_calls (party_call le_host ?P 1 2) ys (v, v', w5) =
      Some (fst (run_spec (shared_call le_host) ys (replicate 4 0, 0, 0)), t)"
    using shared_file_windows [OF win_laws win_booted _ _ demo_win_created r(1) e r(2,3)] new by simp
  moreover have "fst (run_spec (shared_call le_host)
        [(True, Write (PyBytes [1, 2]) None), (False, ReadRange 0 3)] (replicate 4 0, 0, 0)) =
      [Seen Done, Seen (Got (PyBytes [1, 2, 0]))]"
    unfolding zeros_list
    by (simp add: vec_extend_def isize_max_def file_pos_def file_move_def overwrite_def window_def)
  ultimately show ?thesis using r demo_win_created by metis
qed

text \<open>
  And likewise one queue, when both set up a ring instead of a view.
\<close>

theorem shared_queue_windows:
  assumes "win32_laws api g" "running g w" "may_create g name n w" "unat n = 24 + 2 ^ k"
    and "shared_create (win32_platform api) name n w = (Inr s, w1)"
    and "shared_spsc h (win32_platform api) s w1 = (Inr (a, r), w2)"
    and "within_limits h (2 ^ k) xs"
    and "run_spec (\<lambda>x. on_region (win32_platform api) a (ring_call h r x)) xs w2 = (rs, w3)"
    and "shared_open (win32_platform api) name (Some n) w3 = (Inr s', w4)"
    and "shared_spsc h (win32_platform api) s' w4 = (Inr (b, r'), w5)"
  shows "\<exists>q. run_spec (queue_call h n (2 ^ k)) xs [] = (rs, q) \<and>
    (\<forall>ys. within_limits h (2 ^ k) (xs @ map snd ys) \<longrightarrow>
      (\<exists>t. run_spec (party_ring h (win32_platform api) a b r r') ys w5 =
         (fst (run_spec (\<lambda>x. queue_call h n (2 ^ k) (snd x)) ys q), t)))"
  by (rule win.session_queue [OF assms(1-3) refl assms(4-10)])

text \<open>
  C12: A Windows segment lives exactly as long as somebody has it open. When its creator has dropped view
  and handle, a process that has it open too goes on with the same file; when that process drops its view
  and handle as well, the name can no longer be opened (an OSError), and a segment created
  under it afterwards is a new one that starts with zeros.
\<close>

theorem windows_lifetime:
  assumes "win32_laws api g" "running g w" "to_win32_name name \<noteq> []" "named g (to_win32_name name) w = None"
    and "shared_create (win32_platform api) name n w = (Inr s, w1)"
    and "shared_map h (win32_platform api) s w1 = (Inr (a, v), w2)"
    and "run_calls (region_call h (win32_platform api) a) xs (v, w2) = Some (rs, v1, w3)"
    and "shared_open (win32_platform api) name (Some n) w3 = (Inr s', w4)"
    and "shared_map h (win32_platform api) s' w4 = (Inr (b, v'), w5)"
    and "w6 = shared_drop (win32_platform api) s (view_drop (win32_platform api) (a, v1) w5)"
  shows "\<exists>cs p. run_spec (file_call h) xs (replicate (unat n - 4) 0, 0) = (rs, cs, p) \<and>
    (\<forall>ys. \<exists>v2 w7 w8.
      run_calls (region_call h (win32_platform api) b) ys (v', w6) =
        Some (fst (run_spec (file_call h) ys (cs, 0)), v2, w7) \<and>
      w8 = shared_drop (win32_platform api) s' (view_drop (win32_platform api) (b, v2) w7) \<and>
      (\<forall>k. \<exists>msg. fst (shared_open (win32_platform api) name (Some k) w8) = Inl (Raise (PyOSError msg))) \<and>
      (\<forall>k s2 w9 c u w10 zs. shared_create (win32_platform api) name k w8 = (Inr s2, w9) \<and>
        shared_map h (win32_platform api) s2 w9 = (Inr (c, u), w10) \<longrightarrow>
        (\<exists>t. run_calls (region_call h (win32_platform api) c) zs (u, w10) =
           Some (fst (run_spec (file_call h) zs (replicate (unat k - 4) 0, 0)), t))))"
proof -
  let ?P = "win32_platform api" and ?h1 = "wh_handle (sm_handle s)" and ?h2 = "wh_handle (sm_handle s')"
  obtain ob where A: "region_holds ?P g ob h [a] (v, w2) (replicate (unat n - 4) 0, 0)"
    "named g (to_win32_name name) w2 = Some ob" "4 < unat n" "unat n \<le> isize_max"
    "handles_of g ob w2 = {?h1}" "views_of g ob w2 = {a}"
    using win32_first [OF assms(1-6)] by (elim exE conjE) (rule that)
  obtain cs p where cs: "run_spec (file_call h) xs (replicate (unat n - 4) 0, 0) = (rs, cs, p)"
    and B: "region_holds ?P g ob h [a] (v1, w3) (cs, p)" "named g (to_win32_name name) w3 = Some ob"
      "handles_of g ob w3 = {?h1}" "views_of g ob w3 = {a}"
    using region_run [OF A(1), of xs] assms(7) A(2,5,6)
    by (cases "run_spec (file_call h) xs (replicate (unat n - 4) 0, 0)") (auto simp: only_file_holders)
  have len: "4 + length cs = unat n" using length_run_spec [of h xs "(replicate (unat n - 4) 0, 0)"] cs A(3) by simp
  note S = win32_second [OF assms(1) B(1) len A(4) B(2) assms(8,9)]
  have first: "a \<in> views_of g ob w5" "?h1 \<in> handles_of g ob w5" "a \<noteq> b" "?h1 \<noteq> ?h2"
    using S(2-5) B(3,4) by auto
  have run5: "running g w5" using S(1) by (simp add: region_holds_def attached_def)
  note D = win32_dropped [OF assms(1) run5 first(1,2) assms(10)]
  have h6: "handles_of g ob w6 = {?h2}" "views_of g ob w6 = {b}"
    using D(2,3) S(2,4) B(3,4) first(3,4) by auto
  have R6: "region_holds ?P g ob h [b] (v', w6) (cs, 0)"
    using S(1) D(1,4) D(6) [of ob] first(3) h6 by (auto simp: region_holds_def attached_def holders)
  have n6: "named g (to_win32_name name) w6 = Some ob" using D(5) S(6) h6 by (simp add: holders)
  have create: "validate_name name = Inr ()" "CHR 0x00 \<notin> set (to_win32_name name)"
    using assms(5) by (auto simp: shared_create_win32 win32_create_eq_Inr)
  show ?thesis
  proof (intro exI [of _ cs] exI [of _ p] conjI cs allI)
    fix ys
    obtain v2 w7 where E: "run_calls (region_call h ?P b) ys (v', w6) =
        Some (fst (run_spec (file_call h) ys (cs, 0)), v2, w7)"
      "region_holds ?P g ob h [b] (v2, w7) (snd (run_spec (file_call h) ys (cs, 0)))"
      "\<forall>nm. named g nm w7 = named g nm w6" "only_file g ob w6 w7"
      using region_run [OF R6, of ys] by (elim exE conjE) (rule that)
    let ?w8 = "shared_drop ?P s' (view_drop ?P (b, v2) w7)"
    have h7: "b \<in> views_of g ob w7" "?h2 \<in> handles_of g ob w7" and run7: "running g w7"
      using h6 only_file_holders [OF E(4)] E(2) by (simp_all add: region_holds_def attached_def)
    note F = win32_dropped [OF assms(1) run7 h7 refl]
    have "handles_of g ob ?w8 = {}" "views_of g ob ?w8 = {}"
      using F(2,3) h6 only_file_holders [OF E(4)] by simp_all
    then have gone: "named g (to_win32_name name) ?w8 = None"
      using F(5) [of "to_win32_name name"] E(3) n6
      by (cases "named g (to_win32_name name) ?w8") (auto simp: holders)
    note no = win32_not_open [OF assms(1) F(1) gone create assms(3)]
    have zero: "\<exists>t. run_calls (region_call h ?P c) zs (u, w10) =
          Some (fst (run_spec (file_call h) zs (replicate (unat k - 4) 0, 0)), t)"
      if "shared_create ?P name k ?w8 = (Inr s2, w9)" "shared_map h ?P s2 w9 = (Inr (c, u), w10)" for k s2 w9 c u w10 zs
      using win32_first [OF assms(1) F(1) assms(3) gone that] region_run by metis
    show "\<exists>v2 w7 w8. run_calls (region_call h ?P b) ys (v', w6) =
        Some (fst (run_spec (file_call h) ys (cs, 0)), v2, w7) \<and>
      w8 = shared_drop ?P s' (view_drop ?P (b, v2) w7) \<and>
      (\<forall>k. \<exists>msg. fst (shared_open ?P name (Some k) w8) = Inl (Raise (PyOSError msg))) \<and>
      (\<forall>k s2 w9 c u w10 zs. shared_create ?P name k w8 = (Inr s2, w9) \<and>
        shared_map h ?P s2 w9 = (Inr (c, u), w10) \<longrightarrow>
        (\<exists>t. run_calls (region_call h ?P c) zs (u, w10) =
           Some (fst (run_spec (file_call h) zs (replicate (unat k - 4) 0, 0)), t)))"
      by (intro exI [of _ v2] exI [of _ w7] exI [of _ ?w8] conjI E(1) refl allI no impI) (elim conjE, rule zero)
  qed
qed

theorem windows_lifetime_witness:
  "\<exists>v w2 w4 v' w5 v2 w7 msg.
    shared_create (win32_platform demo_windows) ''/a'' 8 win_boot =
      (Inr (win_segment 0 True), demo_win (replicate 8 0) [Some 0] []) \<and>
    shared_map le_host (win32_platform demo_windows) (win_segment 0 True) (demo_win (replicate 8 0) [Some 0] []) =
      (Inr (1, v), w2) \<and>
    shared_open (win32_platform demo_windows) ''/a'' (Some 8) w2 = (Inr (win_segment 1 False), w4) \<and>
    shared_map le_host (win32_platform demo_windows) (win_segment 1 False) w4 = (Inr (2, v'), w5) \<and>
    run_calls (region_call le_host (win32_platform demo_windows) 2) [Write (PyBytes [1, 2]) None, ReadRange 0 3]
      (v', shared_drop (win32_platform demo_windows) (win_segment 0 True)
        (view_drop (win32_platform demo_windows) (1, v) w5)) =
      Some ([Seen Done, Seen (Got (PyBytes [1, 2, 0]))], v2, w7) \<and>
    fst (shared_open (win32_platform demo_windows) ''/a'' (Some 8)
      (shared_drop (win32_platform demo_windows) (win_segment 1 False)
        (view_drop (win32_platform demo_windows) (2, v2) w7))) = Inl (Raise (PyOSError msg))"
proof -
  let ?P = "win32_platform demo_windows" and ?ys = "[Write (PyBytes [1, 2]) None, ReadRange 0 3]"
  obtain v w2 w4 v' w5 where r:
    "shared_map le_host ?P (win_segment 0 True) (demo_win (replicate 8 0) [Some 0] []) = (Inr (1, v), w2)"
    "shared_open ?P ''/a'' (Some 8) w2 = (Inr (win_segment 1 False), w4)"
    "shared_map le_host ?P (win_segment 1 False) w4 = (Inr (2, v'), w5)"
    using demo_win_session by blast
  let ?w6 = "shared_drop ?P (win_segment 0 True) (view_drop ?P (1, v) w5)"
  have e: "run_calls (region_call le_host ?P 1) [] (v, w2) = Some ([], v, w2)" by simp
  have new: "to_win32_name ''/a'' \<noteq> []" "named win_files (to_win32_name ''/a'') win_boot = None"
    by (simp_all add: win_named_def win_boot_def)
  from windows_lifetime [OF win_laws win_booted new demo_win_created r(1) e r(2,3) refl]
  obtain cs p where cs: "run_spec (file_call le_host) [] (replicate (unat (8 :: usize) - 4) 0, 0) = ([], cs, p)"
    and "\<forall>ys. \<exists>v2 w7 w8. run_calls (region_call le_host ?P 2) ys (v', ?w6) =
        Some (fst (run_spec (file_call le_host) ys (cs, 0)), v2, w7) \<and>
      w8 = shared_drop ?P (win_segment 1 False) (view_drop ?P (2, v2) w7) \<and>
      (\<forall>k. \<exists>msg. fst (shared_open ?P ''/a'' (Some k) w8) = Inl (Raise (PyOSError msg)))"
    by metis
  then obtain v2 w7 msg where z: "run_calls (region_call le_host ?P 2) ?ys (v', ?w6) =
        Some (fst (run_spec (file_call le_host) ?ys (cs, 0)), v2, w7)"
      "fst (shared_open ?P ''/a'' (Some 8) (shared_drop ?P (win_segment 1 False) (view_drop ?P (2, v2) w7))) =
        Inl (Raise (PyOSError msg))"
    by metis
  have "cs = [0, 0, 0, 0]" using cs by (simp add: zeros_list)
  then have "fst (run_spec (file_call le_host) ?ys (cs, 0)) = [Seen Done, Seen (Got (PyBytes [1, 2, 0]))]"
    by (simp add: vec_extend_def isize_max_def file_pos_def file_move_def overwrite_def window_def)
  with z have "run_calls (region_call le_host ?P 2) ?ys (v', ?w6) =
      Some ([Seen Done, Seen (Got (PyBytes [1, 2, 0]))], v2, w7)" by simp
  with z(2) r demo_win_created show ?thesis by blast
qed

end
