(* ===== verification/Spec2Isabelle.thy ===== *)
theory Spec2Isabelle
  imports CodecProps SpscProps SpscSysProps SpscWeakProps LockProps LockLive ViewProps ViewWeakProps
    SharedProps SessionProps Lifecycle Win32Props
begin

text \<open>
  A verification development for membridge, a PyO3 extension that gives Python processes named shared
  memory segments, either behind a reader-writer lock or as a single-producer single-consumer ring buffer.

  \<^bold>\<open>The program.\<close> A process creates or opens a segment (\<open>SharedMemory\<close>, \<open>src/shared_memory.rs\<close>) through a
  platform handle (\<open>src/platform\<close>: POSIX or Win32) and maps it either as a \<open>MappedView\<close>
  (\<open>src/mapped_view.rs\<close>), whose first 4 bytes are the lock word of \<open>src/rwlock.rs\<close>, or as an
  \<open>SpscRingBuffer\<close> (\<open>src/spsc.rs\<close>), whose first 24 bytes are head, tail and capacity. Both store Python
  values in the format of \<open>src/mixed.rs\<close>; errors are those of \<open>src/error.rs\<close>.

  \<^bold>\<open>Foundations.\<close> \<open>Prelude\<close>: machine integers as words, sequencing of fallible steps (Rust's \<open>?\<close>) without
  and with a state, windows of byte lists. \<open>Bytes\<close>: native byte order. \<open>Utf8\<close>: UTF-8 encoding and
  \<open>String::from_utf8_lossy\<close>. \<open>Errors\<close>: \<open>ShmError\<close>, the exceptions, and the three ways a call can fail:
  \<open>Raise\<close> an exception, \<open>Panic\<close>, or \<open>UB\<close>, an access outside the mapping. \<open>Host\<close>: Python values, and the
  record \<open>host\<close> of what the code is compiled for (byte order, overflow checks on or off) and of the PyO3
  conversions that can fail, with their documented laws \<open>host_ok\<close> and an instance \<open>cpython\<close>. \<open>Memory\<close>: the
  mapped region as a byte list, its bounded accesses, and the locale \<open>field\<close> of an integer stored in it.
  \<open>Transition\<close>: reachable states and invariants, the locales \<open>limited_simulation\<close>, whose relation keeps
  account of the calls to come, and \<open>simulation\<close>, which has no such limits, and the locale \<open>resumable\<close> of a
  call cut into its accesses. \<open>MemoryOrder\<close>: \<open>std::sync::atomic::Ordering\<close> and what an access of each
  ordering tells and learns.

  \<^bold>\<open>Value codec.\<close> \<open>Mixed\<close> translates \<open>mixed.rs\<close> function by function. \<open>Codec\<close> states the storage table
  (\<open>stored\<close>), the locales \<open>codec\<close> and \<open>cursor_codec\<close> of a reader of stored values, and interprets them.
  \<open>CodecProps\<close>: round trips of one value and of whole messages, totality on arbitrary bytes, agreement of
  the two readers, the packing table, and the truncation of the 32-bit length prefix.

  \<^bold>\<open>Ring buffer.\<close> \<open>Spsc\<close> translates \<open>spsc.rs\<close>: each call is a sequence of loads and stores on the region,
  byte loops included. \<open>SpscQueue\<close> shows that the region holds a list of messages (\<open>spsc_inv\<close>: the frames
  lie between head and tail, modulo the capacity), whatever the positions, 64-bit words that wrap.
  \<open>SpscSpec\<close> specifies every method as a call on a bounded queue of payloads (\<open>queue_call\<close>, exceptions
  included) and interprets the locale \<open>limited_simulation\<close> on them; \<open>within_limits\<close> are the limits of the
  format and of the positions. \<open>SpscConc\<close> cuts push and pop into their single accesses
  (header loads and stores, every byte copied) and interprets \<open>resumable\<close>: each side alone is the function
  of \<open>Spsc\<close>. \<open>SpscSys\<close> interleaves one producer and one consumer in any order and proves the invariant
  \<open>conc_inv\<close>: what was sent is what was received followed by the messages the region holds, with what each
  side may rely on between its accesses (the producer a head that may be old, the consumer the bytes of
  the first message). \<open>SpscSysProps\<close>: first-in first-out order and safety of every interleaving.
  \<open>SpscWeak\<close> is the same system under the memory model of the language, with the orderings the source
  names: a load of the other side's position may be stale, plain accesses are ordered only by what
  releases tell acquires, and a data race is undefined behaviour. \<open>SpscWeakInv\<close> is its invariant on
  values, \<open>SpscWeakClock\<close> the one on clocks, which excludes races, \<open>SpscWeakRuns\<close> constructs executions that race
  with weaker orderings; \<open>SpscWeakProps\<close>: order and absence of races, and exactly which orderings are needed.
  \<open>SpscProps\<close>: refinement of the bounded queue by any sequence of calls, the outcome of each
  operation on every branch, construction, and what fails: payloads of 4 GiB, an untrusted header, builds
  that check overflow. The interleaved systems are those of builds without overflow checks and messages of
  less than 4 GiB.

  \<^bold>\<open>Lock and view.\<close> \<open>RwLock\<close> translates \<open>rwlock.rs\<close>; the spin loops are partial functions, so a call that
  never returns is \<open>None\<close>, and what other processes do between its atomic accesses is a parameter
  \<open>env\<close>. \<open>RwLockConc\<close> interleaves any number of threads at single atomic accesses (\<open>lock_step\<close>), shows
  that the loops are these threads (\<open>read_lock_is_spin\<close>) and proves the invariant \<open>lock_inv\<close> for fewer than
  2^31 threads. \<open>LockProps\<close>: mutual exclusion, exact queries, progress, absence of overflow, and when a call
  returns. \<open>LockLive\<close>: the threads together always get on, a single writer may starve. \<open>MappedView\<close>
  translates \<open>mapped_view.rs\<close>; \<open>ViewSpec\<close> specifies a view as a file of fixed length with a position
  (\<open>file_call\<close>) and interprets \<open>simulation\<close> on the calls; \<open>ViewSafety\<close> covers calls
  while others change the region and the lock word before each access of the lock; the copy inside a guard
  is one step there. \<open>ViewConc\<close> interleaves any number of threads that copy byte by byte
  inside their guards, in any order, and proves that no read is torn. \<open>ViewWeak\<close> repeats this under the
  memory model, with stale loads of the lock word and races on bytes as undefined behaviour; \<open>ViewLinear\<close>
  reads off an execution what the calls return and follows \<open>file_call\<close> step by step. \<open>ViewProps\<close> and
  \<open>ViewWeakProps\<close> collect the results, among them that the reads of a range and the writes of bytes are
  linearizable and which orderings of the lock are needed. The other guarded calls (read_all, zero, read,
  read_mixed) are not jobs of the interleaved systems.

  \<^bold>\<open>Segments.\<close> \<open>Platform\<close> is the interface of a platform handle, with its laws as the locale
  \<open>shm_platform\<close>; \<open>Unix\<close> and \<open>Win32\<close> are the two implementations, over records of system calls that are
  parameters; \<open>SharedMem\<close> translates \<open>shared_memory.rs\<close> over either. \<open>Files\<close> says what a system with shared
  memory holds (named objects, handles, mappings, bytes; the record \<open>shm_files\<close>) and what loads and stores
  through a mapping do (\<open>memory_laws\<close>). \<open>Segment\<close>: the views behind two mappings of one object are one file
  (\<open>simulation\<close> on \<open>party_call\<close>), two ring ends one queue
  (\<open>limited_simulation\<close> on \<open>party_ring\<close>). \<open>Session\<close> follows two processes from creation and opening to their calls, on any platform that keeps the promises of the locale
  \<open>segments\<close>. \<open>PosixLaws\<close> states the documented behaviour of the POSIX calls (\<open>posix_laws\<close>),
  \<open>PosixExample\<close> is a small concrete system that obeys it, \<open>PosixSession\<close> interprets \<open>segments\<close>;
  \<open>Win32Laws\<close>, \<open>Win32Example\<close> and \<open>Win32Session\<close> do the same for Windows. \<open>Lifecycle\<close> follows a POSIX segment
  beyond its creator, its removal and its successor under the same name; \<open>Win32Life\<close> counts the handles
  and views that keep a Windows segment alive. \<open>SharedProps\<close>, \<open>SessionProps\<close>, \<open>Lifecycle\<close>, \<open>Win32Props\<close> and
  this theory hold the results. Descriptors, handles and addresses are named globally, not per process.

  \<^bold>\<open>Bounds.\<close> \<open>usize\<close> is 64 bits wide. A slice or vector has at most \<open>isize_max\<close> = 2^63 - 1 bytes. Loops
  over data are structural, the spin loops are partial functions. Fuel occurs only in \<open>run_alone\<close>, which
  counts accesses of one side: a push of \<open>p\<close> makes at most 8 + length p, a pop at most 2^32 + 8, and more
  fuel gives the same result (\<open>calls_are_accesses\<close>).

  \<^bold>\<open>Memory model.\<close> Atomic accesses of one location are totally ordered; a load may return any value not older
  than the last one its thread has seen, an exchange acts on the newest. Synchronisation is by release
  and acquire, and an exchange passes on what the value it replaces tells. The theories without
  \<open>Weak\<close> in their name take every access as one step on the region, in one order for all processes; the
  theorems on \<open>SpscWeak\<close> and \<open>ViewWeak\<close> justify this for the ring and the guarded copies. The constructors'
  plain initial writes and \<open>lock_init\<close> come before either system starts.

  \<^bold>\<open>Not modelled.\<close> \<open>src/lib.rs\<close> only declares modules and registers the three classes with PyO3; argument
  extraction, the GIL and the conversion of a panic to a Python exception are PyO3's. The marker
  implementations of \<open>Send\<close> and \<open>Sync\<close> have no behaviour. A process that dies inside a guard, signals, and
  addresses that differ between processes are outside the model.
\<close>

section \<open>Properties that span components\<close>

text \<open>
  C24: A second map() on the creator's handle is not harmless: it resets the lock word of the live
  segment, whoever holds the lock. If another thread is inside a read guard at that moment, its
  unlock leaves -1 in the word, and from then on no thread of any process ever enters a read or a
  write guard of the segment.
\<close>

theorem creator_remap_wedges_lock:
  assumes "p_map P (sm_handle sm) w = (Inr (Inr ptr), w1)" "sm_is_creator sm"
    and "unat (shared_size P sm) = length (p_region P ptr w1)" "length (p_region P ptr w1) \<le> isize_max"
    and "4 < length (p_region P ptr w1)"
    and "i < length (pcs s)" "pcs s ! i = Reading"
    and "\<forall>j < length (pcs s). j \<noteq> i \<longrightarrow> \<not> holding (pcs s ! j)"
    and "\<forall>v. RCas v \<in> set (pcs s) \<longrightarrow> 0 \<le> sint v"
  shows "\<exists>v m t. shared_map h P sm w = (Inr (ptr, v), p_set_region P ptr m w1) \<and>
    lock_step h (s\<lparr>lock_word := lock_val h m\<rparr>) t \<and> pcs t ! i = Idle \<and>
    (\<forall>u. reach ((=) t) (lock_step h) u \<longrightarrow> (\<forall>p \<in> set (pcs u). \<not> holding p))"
proof -
  let ?r = "p_region P ptr w1" and ?m = "i32_upd h 0 0 (p_region P ptr w1)"
  have "view_new h (p_size P (sm_handle sm)) True ?r =
      (Inr \<lparr>view_size = p_size P (sm_handle sm), view_cursor = 0\<rparr>, ?m)"
    using view_new_run [of "p_size P (sm_handle sm)" ?r h True] assms(3-5)
    by (simp add: shared_size_def)
  then have map: "shared_map h P sm w =
      (Inr (ptr, \<lparr>view_size = p_size P (sm_handle sm), view_cursor = 0\<rparr>), p_set_region P ptr ?m w1)"
    using assms(1,2) by (simp add: shared_map_def on_region_def sbind_def sdo_def sreturn_def)
  have zero: "lock_val h ?m = 0" using assms(5) by (simp add: i32_f.val_upd)
  obtain t where "lock_step h (s\<lparr>lock_word := lock_val h ?m\<rparr>) t" "pcs t ! i = Idle"
    "\<forall>u. reach ((=) t) (lock_step h) u \<longrightarrow> (\<forall>p \<in> set (pcs u). \<not> holding p)"
    using init_in_use_wedges [of "s\<lparr>lock_word := lock_val h ?m\<rparr>" i h] assms(6-9) zero by auto
  with map show ?thesis by blast
qed

theorem creator_remap_wedges_lock_witness:
  "\<exists>v m t. shared_map le_host (unix_platform demo_posix) (demo_segment 8 True) (demo_world 8) =
      (Inr (0, v), p_set_region (unix_platform demo_posix) 0 m (demo_world 8\<lparr>w_maps := [(0, 8)]\<rparr>)) \<and>
    lock_step le_host (\<lparr>lock_word = 1, pcs = [Reading, WCas]\<rparr>\<lparr>lock_word := lock_val le_host m\<rparr>) t \<and>
    pcs t ! 0 = Idle \<and>
    (\<forall>u. reach ((=) t) (lock_step le_host) u \<longrightarrow> (\<forall>p \<in> set (pcs u). \<not> holding p))"
proof -
  have "p_map (unix_platform demo_posix) (sm_handle (demo_segment 8 True)) (demo_world 8) =
      (Inr (Inr 0), demo_world 8\<lparr>w_maps := [(0, 8)]\<rparr>)"
    by (rule demo_map) simp_all
  then show ?thesis
    by (rule creator_remap_wedges_lock)
      (simp_all add: demo_segment_def shared_size_def isize_max_def less_2_cases_iff)
qed

end
